(* ===== verification/Prelude.thy ===== *)
theory Prelude
  imports Main "HOL-Library.Sublist" "HOL-Library.AList"
begin

text \<open>
  Shared vocabulary of the development.  Go and C++ strings are byte strings, which is what
  \<^typ>\<open>string\<close> (a list of 8-bit characters) is.  The theory fixes the type abbreviations,
  the two generic interfaces used by several components (a transition system with an
  invariant, and an encoder/decoder pair), and the list and association-list lemmas the
  component proofs share.
\<close>

section \<open>Collections of facts and names of types\<close>

named_theorems go_eval \<open>definitions unfolded to evaluate library operations\<close>
named_theorems keeps \<open>operations that keep a component invariant\<close>

type_synonym bytes = string
type_synonym go_error = string

text \<open>A Go map: an association list with distinct keys; iteration order is not observable
  except through list order, which the model leaves to the association list.\<close>

type_synonym ('k, 'v) gomap = "('k \<times> 'v) list"

abbreviation keys :: "('k, 'v) gomap \<Rightarrow> 'k list" where
  "keys m \<equiv> map fst m"

abbreviation wf_map :: "('k, 'v) gomap \<Rightarrow> bool" where
  "wf_map m \<equiv> distinct (keys m)"

abbreviation put :: "'k \<Rightarrow> 'v \<Rightarrow> ('k, 'v) gomap \<Rightarrow> ('k, 'v) gomap" where
  "put \<equiv> AList.update"

abbreviation del :: "'k \<Rightarrow> ('k, 'v) gomap \<Rightarrow> ('k, 'v) gomap" where
  "del \<equiv> AList.delete"

text \<open>\<open>adjust k f m\<close> changes the value stored under \<open>k\<close>, if there is one: the effect of
  writing through a pointer held in a map.\<close>

fun adjust :: "'k \<Rightarrow> ('v \<Rightarrow> 'v) \<Rightarrow> ('k, 'v) gomap \<Rightarrow> ('k, 'v) gomap" where
  "adjust k f [] = []"
| "adjust k f ((a, v) # m) = (if a = k then (a, f v) # m else (a, v) # adjust k f m)"

text \<open>First occurrence of a needle in a byte string (\<open>bytes.Index\<close>, \<open>std::string::find\<close>).\<close>

fun index_of :: "'a list \<Rightarrow> 'a list \<Rightarrow> nat option" where
  "index_of p [] = (if p = [] then Some 0 else None)"
| "index_of p (x # xs) =
     (if prefix p (x # xs) then Some 0 else map_option Suc (index_of p xs))"

definition contains :: "'a list \<Rightarrow> 'a list \<Rightarrow> bool" where
  "contains hay needle = (index_of needle hay \<noteq> None)"

section \<open>Generic interfaces\<close>

text \<open>A transition system with an invariant: what one step keeps, every reachable state has.\<close>

locale guarded_system =
  fixes start :: "'s \<Rightarrow> bool"
    and step :: "'s \<Rightarrow> 's \<Rightarrow> bool"
    and good :: "'s \<Rightarrow> bool"
  assumes start_good: "start s \<Longrightarrow> good s"
    and step_good: "good s \<Longrightarrow> step s t \<Longrightarrow> good t"
begin

lemma steps_good: "step\<^sup>*\<^sup>* s t \<Longrightarrow> good s \<Longrightarrow> good t"
  by (induction rule: rtranclp_induct) (auto intro: step_good)

lemma reachable_good: "start s \<Longrightarrow> step\<^sup>*\<^sup>* s t \<Longrightarrow> good t"
  by (blast intro: steps_good start_good)

end

text \<open>An encoder and its decoder on a domain of legal values.\<close>

locale codec =
  fixes legal :: "'a \<Rightarrow> bool"
    and encode :: "'a \<Rightarrow> 'b"
    and decode :: "'b \<Rightarrow> 'a option"
  assumes decode_encode: "legal x \<Longrightarrow> decode (encode x) = Some x"
begin

lemma encode_inj: "legal x \<Longrightarrow> legal y \<Longrightarrow> encode x = encode y \<Longrightarrow> x = y"
  by (metis decode_encode option.inject)

lemma encode_inj_on: "inj_on encode (Collect legal)"
  by (auto intro: inj_onI encode_inj)

end

section \<open>Association lists\<close>

lemma adjust_keys [simp]: "keys (adjust k f m) = keys m"
  by (induction m) auto

lemma map_of_adjust: "map_of (adjust k f m) = (\<lambda>a. if a = k then map_option f (map_of m k) else map_of m a)"
  by (induction m) auto

lemma map_of_adjust_same [simp]: "map_of (adjust k f m) k = map_option f (map_of m k)"
  by (simp add: map_of_adjust)

lemma map_of_adjust_other [simp]: "a \<noteq> k \<Longrightarrow> map_of (adjust k f m) a = map_of m a"
  by (simp add: map_of_adjust)

lemma adjust_absent: "map_of m k = None \<Longrightarrow> adjust k f m = m"
  by (induction m) (auto split: if_splits)

lemma adjust_adjust: "adjust k g (adjust k f m) = adjust k (g \<circ> f) m"
  by (induction m) auto

lemma put_absent: "map_of m k = None \<Longrightarrow> put k v m = m @ [(k, v)]"
  by (induction m) (auto split: if_splits)

lemma map_of_snoc_absent: "map_of m k = None \<Longrightarrow> map_of (m @ [(k, v)]) = (map_of m)(k \<mapsto> v)"
  by (rule ext) (auto simp: map_add_def split: option.splits)

lemma map_of_SomeD_in_keys: "map_of m k = Some v \<Longrightarrow> k \<in> set (keys m)"
  by (induction m) (auto split: if_splits)

lemma in_keys_iff: "k \<in> set (keys m) \<longleftrightarrow> map_of m k \<noteq> None"
  by (simp add: map_of_eq_None_iff image_iff)

lemma wf_map_put: "wf_map m \<Longrightarrow> wf_map (put k v m)"
  by (rule distinct_update)

lemma gomap_eqI: "keys a = keys b \<Longrightarrow> wf_map a \<Longrightarrow> (\<And>k. map_of a k = map_of b k) \<Longrightarrow> a = b"
proof (induction a arbitrary: b)
  case (Cons x a)
  obtain k v where x: "x = (k, v)" by (cases x)
  from Cons.prems(1) obtain w b' where b: "b = (k, w) # b'" "keys a = keys b'" by (cases b) (auto simp: x)
  have "v = w" using Cons.prems(3) [of k] by (simp add: x b)
  moreover have "map_of a j = map_of b' j" for j
  proof (cases "j = k")
    case True
    have "k \<notin> set (keys a)" using Cons.prems(2) by (simp add: x)
    then have "k \<notin> fst ` set a" "k \<notin> fst ` set b'" using b(2) by (metis list.set_map)+
    with True show ?thesis by (simp add: map_of_eq_None_iff [THEN iffD2])
  qed (use Cons.prems(3) [of j] in \<open>simp add: x b\<close>)
  ultimately show ?case using Cons.IH [of b'] Cons.prems(2) b by (simp add: x)
qed simp

text \<open>How many values satisfy a predicate, and how updates move that number.\<close>

definition count_vals :: "('v \<Rightarrow> bool) \<Rightarrow> ('k, 'v) gomap \<Rightarrow> nat" where
  "count_vals P m = length (filter (P \<circ> snd) m)"

lemma count_vals_Nil [simp]: "count_vals P [] = 0"
  by (simp add: count_vals_def)

lemma count_vals_Cons [simp]:
  "count_vals P ((k, v) # m) = (if P v then 1 else 0) + count_vals P m"
  by (simp add: count_vals_def)

lemma count_vals_append [simp]: "count_vals P (m @ n) = count_vals P m + count_vals P n"
  by (simp add: count_vals_def)

lemma count_vals_adjust:
  "map_of m k = Some v \<Longrightarrow>
     count_vals P (adjust k f m) + (if P v then 1 else 0) = count_vals P m + (if P (f v) then 1 else 0)"
  by (induction m) (auto split: if_splits)

lemma count_vals_adjust_le:
  "(\<And>v. P (f v) \<Longrightarrow> P v) \<Longrightarrow> count_vals P (adjust k f m) \<le> count_vals P m"
  by (induction m) auto

lemma count_vals_adjust_eq:
  "(\<And>v. map_of m k = Some v \<Longrightarrow> P (f v) = P v) \<Longrightarrow> count_vals P (adjust k f m) = count_vals P m"
  by (induction m) (auto split: if_splits)

lemma count_vals_pos: "map_of m k = Some v \<Longrightarrow> P v \<Longrightarrow> 0 < count_vals P m"
  by (induction m) (auto split: if_splits)

lemma count_vals_zero: "(\<And>k v. (k, v) \<in> set m \<Longrightarrow> \<not> P v) \<Longrightarrow> count_vals P m = 0"
  by (auto simp: count_vals_def filter_empty_conv)

section \<open>Searching in byte strings\<close>

lemma append_sep_eq:
  "sep \<notin> set a \<Longrightarrow> sep \<notin> set b \<Longrightarrow> a @ sep # x = b @ sep # y \<longleftrightarrow> a = b \<and> x = y"
proof (induction a arbitrary: b)
  case Nil
  then show ?case by (cases b) auto
next
  case (Cons c a)
  then show ?case by (cases b) auto
qed

lemma index_of_None: "index_of p xs = None \<longleftrightarrow> \<not> sublist p xs"
  by (induction xs) (auto simp: sublist_Cons_right)

lemma contains_sublist: "contains hay needle \<longleftrightarrow> sublist needle hay"
  by (simp add: contains_def index_of_None)

lemma containsI: "hay = a @ needle @ b \<Longrightarrow> contains hay needle"
  by (auto simp: contains_sublist sublist_def)

section \<open>Runs\<close>

lemma two_steps: "r a b \<Longrightarrow> r b c \<Longrightarrow> r\<^sup>*\<^sup>* a c"
  by (meson converse_rtranclp_into_rtranclp r_into_rtranclp)

end
