(* ===== verification/GoChan.thy ===== *)
theory GoChan
  imports Prelude
begin

text \<open>
  Go's buffered channels, as the server uses them: a bounded first-in first-out buffer with a
  closed flag.  \<open>try_send\<close> is the statement
  \<^verbatim>\<open>select { case ch <- m: default: }\<close>, \<open>try_recv\<close> a receive, \<open>close_chan\<close> the built-in
  \<^verbatim>\<open>close\<close>.  Sending on, or closing, a closed channel panics; the panic is a value of the
  model.  The interface \<open>outbox\<close> is the contract the fan-out code relies on: a full channel
  drops the new message and never disturbs the ones it already holds.
\<close>

section \<open>Operations\<close>

record 'a chan =
  ch_buf :: "'a list"
  ch_cap :: nat
  ch_closed :: bool

datatype 'a send_result = Sent "'a chan" | WouldBlock | SendPanic

datatype 'a recv_result = Received 'a "'a chan" | RecvClosed | RecvBlocks

definition make_chan :: "nat \<Rightarrow> 'a chan" where
  "make_chan n = \<lparr>ch_buf = [], ch_cap = n, ch_closed = False\<rparr>"

definition try_send :: "'a chan \<Rightarrow> 'a \<Rightarrow> 'a send_result" where
  "try_send ch m =
     (if ch_closed ch then SendPanic
      else if length (ch_buf ch) < ch_cap ch then Sent (ch\<lparr>ch_buf := ch_buf ch @ [m]\<rparr>)
      else WouldBlock)"

definition try_recv :: "'a chan \<Rightarrow> 'a recv_result" where
  "try_recv ch =
     (case ch_buf ch of
        m # ms \<Rightarrow> Received m (ch\<lparr>ch_buf := ms\<rparr>)
      | [] \<Rightarrow> if ch_closed ch then RecvClosed else RecvBlocks)"

text \<open>\<open>None\<close> is the run-time panic.\<close>

definition close_chan :: "'a chan \<Rightarrow> 'a chan option" where
  "close_chan ch = (if ch_closed ch then None else Some (ch\<lparr>ch_closed := True\<rparr>))"

text \<open>A send with a \<open>default\<close> branch that does nothing: the message is dropped when the
  buffer is full; \<open>None\<close> is the panic on a closed channel.\<close>

definition offer :: "'a chan \<Rightarrow> 'a \<Rightarrow> 'a chan option" where
  "offer ch m = (case try_send ch m of Sent ch' \<Rightarrow> Some ch' | WouldBlock \<Rightarrow> Some ch | SendPanic \<Rightarrow> None)"

definition chan_ok :: "'a chan \<Rightarrow> bool" where
  "chan_ok ch \<longleftrightarrow> length (ch_buf ch) \<le> ch_cap ch"

definition chan_live :: "'a chan \<Rightarrow> bool" where
  "chan_live ch \<longleftrightarrow> chan_ok ch \<and> \<not> ch_closed ch"

section \<open>The contract of a bounded mailbox\<close>

locale outbox =
  fixes live :: "'c \<Rightarrow> bool"
    and contents :: "'c \<Rightarrow> 'm list"
    and capacity :: "'c \<Rightarrow> nat"
    and push :: "'c \<Rightarrow> 'm \<Rightarrow> 'c option"
  assumes live_bounded: "live c \<Longrightarrow> length (contents c) \<le> capacity c"
    and push_total: "live c \<Longrightarrow> \<exists>c'. push c m = Some c'"
    and push_live: "live c \<Longrightarrow> push c m = Some c' \<Longrightarrow> live c'"
    and push_capacity: "live c \<Longrightarrow> push c m = Some c' \<Longrightarrow> capacity c' = capacity c"
    and push_contents: "live c \<Longrightarrow> push c m = Some c' \<Longrightarrow>
        contents c' = (if length (contents c) < capacity c then contents c @ [m] else contents c)"
begin

text \<open>Pushing a sequence of messages, one after the other.\<close>

fun push_all :: "'c \<Rightarrow> 'm list \<Rightarrow> 'c option" where
  "push_all c [] = Some c"
| "push_all c (m # ms) = (case push c m of None \<Rightarrow> None | Some c' \<Rightarrow> push_all c' ms)"

lemma push_all_spec:
  assumes "live c"
  shows "\<exists>c'. push_all c ms = Some c' \<and> live c' \<and> capacity c' = capacity c \<and>
    contents c' = contents c @ take (capacity c - length (contents c)) ms"
  using assms
proof (induction ms arbitrary: c)
  case Nil
  then show ?case by simp
next
  case (Cons m ms)
  obtain c1 where c1: "push c m = Some c1" using push_total [OF Cons.prems] by blast
  note facts = push_live [OF Cons.prems c1] push_capacity [OF Cons.prems c1] push_contents [OF Cons.prems c1]
  from Cons.IH [OF facts(1)] obtain c2 where c2: "push_all c1 ms = Some c2" "live c2"
    "capacity c2 = capacity c1" "contents c2 = contents c1 @ take (capacity c1 - length (contents c1)) ms"
    by blast
  show ?case
  proof (cases "length (contents c) < capacity c")
    case True
    then have "capacity c - length (contents c) = Suc (capacity c - Suc (length (contents c)))" by simp
    with True c1 c2 facts show ?thesis by (auto simp: take_Suc_Cons)
  next
    case False
    with c1 c2 facts show ?thesis by simp
  qed
qed

lemma push_keeps_prefix: "live c \<Longrightarrow> push c m = Some c' \<Longrightarrow> prefix (contents c) (contents c')"
  by (simp add: push_contents)

end

section \<open>Channels implement the contract\<close>

lemma make_chan_live [simp]: "chan_live (make_chan n)"
  by (simp add: chan_live_def chan_ok_def make_chan_def)

lemma make_chan_sel [simp]:
  "ch_buf (make_chan n) = []" "ch_cap (make_chan n) = n" "ch_closed (make_chan n) = False"
  by (simp_all add: make_chan_def)

lemmas chan_defs = try_send_def try_recv_def close_chan_def offer_def chan_ok_def chan_live_def

declare chan_defs [go_eval] make_chan_def [go_eval]

lemma offer_live: "chan_live ch \<Longrightarrow> offer ch m = Some ch' \<Longrightarrow> chan_live ch'"
  by (auto simp: chan_defs split: if_splits)

lemma offer_open:
  "\<not> ch_closed ch \<Longrightarrow> offer ch m =
     Some (if length (ch_buf ch) < ch_cap ch then ch\<lparr>ch_buf := ch_buf ch @ [m]\<rparr> else ch)"
  by (simp add: chan_defs)

lemma offer_None_iff: "offer ch m = None \<longleftrightarrow> ch_closed ch"
  by (simp add: chan_defs)

interpretation go_chan: outbox chan_live ch_buf ch_cap offer
  by unfold_locales (auto simp: chan_defs split: if_splits)

lemma try_recv_fifo: "ch_buf ch = m # ms \<Longrightarrow> try_recv ch = Received m (ch\<lparr>ch_buf := ms\<rparr>)"
  by (simp add: chan_defs)

lemma recv_keeps_live: "chan_live ch \<Longrightarrow> try_recv ch = Received m ch' \<Longrightarrow> chan_live ch'"
  by (auto simp: chan_defs split: list.splits if_splits)

end
