(* ===== verification/GoText.thy ===== *)
theory GoText
  imports Prelude
begin

text \<open>
  The parts of Go's text packages the server uses: decimal conversion (\<^verbatim>\<open>strconv.Itoa\<close>,
  \<^verbatim>\<open>strconv.Atoi\<close>/\<^verbatim>\<open>ParseInt\<close> for 64-bit integers), \<^verbatim>\<open>strings.TrimPrefix\<close> and
  \<^verbatim>\<open>strings.SplitN\<close> with \<open>n = 2\<close>, \<^verbatim>\<open>filepath.Join\<close> (with its lexical cleaning), and the
  line splitting of \<^verbatim>\<open>bufio.Scanner\<close>, whose buffer limit ends the scan at the first line that
  does not fit.
\<close>

section \<open>Decimal integers\<close>

definition is_digit :: "char \<Rightarrow> bool" where
  "is_digit c \<longleftrightarrow> 48 \<le> (of_char c :: nat) \<and> (of_char c :: nat) \<le> 57"

definition digit_val :: "char \<Rightarrow> nat" where
  "digit_val c = of_char c - 48"

definition digit_char :: "nat \<Rightarrow> char" where
  "digit_char d = char_of (48 + d)"

fun nat_digits :: "nat \<Rightarrow> string" where
  "nat_digits n = (if n < 10 then [digit_char n] else nat_digits (n div 10) @ [digit_char (n mod 10)])"

declare nat_digits.simps [simp del]

definition itoa :: "int \<Rightarrow> string" where
  "itoa i = (if i < 0 then CHR ''-'' # nat_digits (nat (- i)) else nat_digits (nat i))"

definition digits_val :: "string \<Rightarrow> nat" where
  "digits_val ds = foldl (\<lambda>acc c. 10 * acc + digit_val c) 0 ds"

definition int64_min :: int where "int64_min = - (2 ^ 63)"
definition int64_max :: int where "int64_max = 2 ^ 63 - 1"

text \<open>\<open>strconv.Atoi\<close>: an optional sign, at least one digit, digits only, and the value in the
  range of a 64-bit \<^verbatim>\<open>int\<close>; \<open>None\<close> is any of its errors.\<close>

definition atoi_mag :: "bool \<Rightarrow> string \<Rightarrow> int option" where
  "atoi_mag neg ds =
     (if ds = [] \<or> \<not> list_all is_digit ds then None
      else let v = (if neg then - int (digits_val ds) else int (digits_val ds))
           in if int64_min \<le> v \<and> v \<le> int64_max then Some v else None)"

fun atoi :: "string \<Rightarrow> int option" where
  "atoi [] = None"
| "atoi (c # cs) =
     (if c = CHR ''-'' then atoi_mag True cs
      else if c = CHR ''+'' then atoi_mag False cs
      else atoi_mag False (c # cs))"

section \<open>Prefixes, splitting, paths\<close>

definition trim_prefix :: "string \<Rightarrow> string \<Rightarrow> string" where
  "trim_prefix s p = (if prefix p s then drop (length p) s else s)"

text \<open>\<open>strings.SplitN(s, sep, 2)\<close> for a one-byte separator: the part before the first
  separator and, if there is one, everything after it.\<close>

definition split_first :: "char \<Rightarrow> string \<Rightarrow> string list" where
  "split_first sep s =
     (let a = takeWhile (\<lambda>c. c \<noteq> sep) s
      in if length a = length s then [s] else [a, drop (Suc (length a)) s])"

fun split_on :: "char \<Rightarrow> string \<Rightarrow> string list" where
  "split_on sep [] = [[]]"
| "split_on sep (c # cs) =
     (case split_on sep cs of
        [] \<Rightarrow> [[c]]
      | p # ps \<Rightarrow> if c = sep then [] # p # ps else (c # p) # ps)"

text \<open>Cleaning a rooted path: empty and \<open>.\<close> components vanish, \<open>..\<close> removes the component
  before it and is dropped at the root.  The accumulator is the reversed list of kept
  components.\<close>

fun clean_comps :: "string list \<Rightarrow> string list \<Rightarrow> string list" where
  "clean_comps acc [] = rev acc"
| "clean_comps acc (p # ps) =
     (if p = [] \<or> p = ''.'' then clean_comps acc ps
      else if p = ''..'' then clean_comps (tl acc) ps
      else clean_comps (p # acc) ps)"

definition join_comps :: "string list \<Rightarrow> string" where
  "join_comps cs = (if cs = [] then ''/'' else concat (map (\<lambda>c. CHR ''/'' # c) cs))"

text \<open>\<open>filepath.Join\<close> of a rooted base and one element.\<close>

definition filepath_join :: "string \<Rightarrow> string \<Rightarrow> string" where
  "filepath_join base p = join_comps (clean_comps [] (split_on CHR ''/'' (base @ ''/'' @ p)))"

section \<open>Line scanning\<close>

definition newline :: char where "newline = CHR 0x0A"
definition carriage :: char where "carriage = CHR 0x0D"

definition drop_cr :: "string \<Rightarrow> string" where
  "drop_cr l = (if l \<noteq> [] \<and> last l = carriage then butlast l else l)"

text \<open>
  \<open>bufio.Scanner\<close> with \<open>ScanLines\<close> over a whole stream.  The result is the list of tokens
  and whether the scan stopped at a line that does not fit in the buffer
  (\<^verbatim>\<open>bufio.ErrTooLong\<close>).  A line together with its newline has to fit in \<open>limit\<close> bytes, and
  an unterminated last line must leave room for one more byte, so in both cases its content
  is shorter than \<open>limit\<close>.
\<close>

fun scan_acc :: "nat \<Rightarrow> string \<Rightarrow> string \<Rightarrow> string list \<times> bool" where
  "scan_acc limit cur [] =
     (if cur = [] then ([], False)
      else if length cur < limit then ([drop_cr cur], False) else ([], True))"
| "scan_acc limit cur (c # cs) =
     (if c = newline then
        (if length cur < limit
         then (let (ls, e) = scan_acc limit [] cs in (drop_cr cur # ls, e))
         else ([], True))
      else scan_acc limit (cur @ [c]) cs)"

definition scan_lines :: "nat \<Rightarrow> string \<Rightarrow> string list \<times> bool" where
  "scan_lines limit s = scan_acc limit [] s"

section \<open>Decimal conversion is a codec\<close>

lemma digit_char_props:
  assumes "d < 10"
  shows "is_digit (digit_char d)" "digit_val (digit_char d) = d"
proof -
  have "(of_char (digit_char d) :: nat) = 48 + d"
    using assms by (simp add: digit_char_def)
  then show "is_digit (digit_char d)" "digit_val (digit_char d) = d"
    using assms by (simp_all add: is_digit_def digit_val_def)
qed

lemma nat_digits_nonempty [simp]: "nat_digits n \<noteq> []"
  by (subst nat_digits.simps) simp

lemma nat_digits_all_digits: "list_all is_digit (nat_digits n)"
proof (induction n rule: nat_digits.induct)
  case (1 n)
  then show ?case
    by (subst nat_digits.simps) (auto simp: digit_char_props)
qed

lemma digits_val_snoc [simp]: "digits_val (ds @ [c]) = 10 * digits_val ds + digit_val c"
  by (simp add: digits_val_def)

lemma digits_val_nat_digits [simp]: "digits_val (nat_digits n) = n"
proof (induction n rule: nat_digits.induct)
  case (1 n)
  show ?case
  proof (cases "n < 10")
    case True
    then show ?thesis
      by (subst nat_digits.simps) (simp add: digits_val_def digit_char_props)
  next
    case False
    then have "digits_val (nat_digits n) = 10 * (n div 10) + n mod 10"
      using 1 by (subst nat_digits.simps) (simp add: digit_char_props)
    then show ?thesis by simp
  qed
qed

lemma is_digit_not_sign: "is_digit c \<Longrightarrow> c \<noteq> CHR ''-'' \<and> c \<noteq> CHR ''+''"
  by (auto simp: is_digit_def)

lemma nat_digits_hd: "\<exists>c cs. nat_digits n = c # cs \<and> is_digit c"
  using nat_digits_all_digits [of n] by (cases "nat_digits n") auto

lemma atoi_itoa:
  assumes "int64_min \<le> i" "i \<le> int64_max"
  shows "atoi (itoa i) = Some i"
proof (cases "i < 0")
  case True
  then show ?thesis
    using assms nat_digits_all_digits by (simp add: itoa_def atoi_mag_def)
next
  case False
  obtain c cs where c: "nat_digits (nat i) = c # cs" "is_digit c" using nat_digits_hd by blast
  then have "atoi (itoa i) = atoi_mag False (nat_digits (nat i))"
    using False by (simp add: itoa_def is_digit_not_sign)
  then show ?thesis
    using assms False nat_digits_all_digits by (simp add: atoi_mag_def)
qed

definition int64_range :: "int \<Rightarrow> bool" where
  "int64_range i \<longleftrightarrow> int64_min \<le> i \<and> i \<le> int64_max"

interpretation decimal: codec int64_range itoa atoi
  by unfold_locales (simp add: int64_range_def atoi_itoa)

lemma atoi_range: "atoi s = Some n \<Longrightarrow> int64_range n"
  by (cases s) (auto simp: int64_range_def atoi_mag_def Let_def split: if_splits)

section \<open>Paths\<close>

lemma split_on_nonempty [simp]: "split_on sep s \<noteq> []"
  by (induction s) (auto split: list.splits)

lemma split_on_no_sep: "sep \<notin> set p \<Longrightarrow> split_on sep p = [p]"
  by (induction p) auto

lemma split_on_append_sep: "split_on sep (a @ sep # b) = split_on sep a @ split_on sep b"
  by (induction a) (auto split: list.splits simp: neq_Nil_conv)

lemma clean_comps_snoc:
  assumes "p \<noteq> []" "p \<noteq> ''.''" "p \<noteq> ''..''"
  shows "clean_comps acc (ps @ [p]) = clean_comps acc ps @ [p]"
  using assms by (induction ps arbitrary: acc) auto

lemma join_comps_snoc: "cs \<noteq> [] \<Longrightarrow> join_comps (cs @ [p]) = join_comps cs @ ''/'' @ p"
  by (simp add: join_comps_def)

text \<open>Joining a plain component to a base keeps the component as the last one.\<close>

lemma filepath_join_plain:
  assumes "p \<noteq> []" "p \<noteq> ''.''" "p \<noteq> ''..''" "CHR ''/'' \<notin> set p"
    and "clean_comps [] (split_on CHR ''/'' base) = cs" "cs \<noteq> []"
  shows "filepath_join base p = join_comps cs @ ''/'' @ p"
  using assms by (simp add: filepath_join_def split_on_append_sep split_on_no_sep clean_comps_snoc join_comps_snoc)

section \<open>Scanning\<close>

lemma scan_acc_line:
  assumes "newline \<notin> set l"
  shows "scan_acc limit cur (l @ newline # rest) =
    (if length cur + length l < limit
     then (let (ls, e) = scan_acc limit [] rest in (drop_cr (cur @ l) # ls, e))
     else ([], True))"
  using assms by (induction l arbitrary: cur) auto

lemma scan_lines_line:
  "newline \<notin> set l \<Longrightarrow> length l < limit \<Longrightarrow>
     scan_lines limit (l @ newline # rest) =
       (let (ls, e) = scan_lines limit rest in (drop_cr l # ls, e))"
  by (simp add: scan_lines_def scan_acc_line)

lemma scan_lines_too_long:
  "newline \<notin> set l \<Longrightarrow> limit \<le> length l \<Longrightarrow> scan_lines limit (l @ newline # rest) = ([], True)"
  by (simp add: scan_lines_def scan_acc_line)

lemma scan_lines_Nil [simp]: "scan_lines limit [] = ([], False)"
  by (simp add: scan_lines_def)

text \<open>A stream of terminated lines that fit is delivered line by line.\<close>

definition plain_line :: "nat \<Rightarrow> string \<Rightarrow> bool" where
  "plain_line limit l \<longleftrightarrow> newline \<notin> set l \<and> length l < limit \<and> (l = [] \<or> last l \<noteq> carriage)"

definition unlines :: "string list \<Rightarrow> string" where
  "unlines ls = concat (map (\<lambda>l. l @ [newline]) ls)"

lemma drop_cr_plain: "l = [] \<or> last l \<noteq> carriage \<Longrightarrow> drop_cr l = l"
  by (auto simp: drop_cr_def)

lemma scan_lines_append:
  "list_all (plain_line limit) ls \<Longrightarrow>
     scan_lines limit (unlines ls @ rest) = (let (ms, e) = scan_lines limit rest in (ls @ ms, e))"
  by (induction ls) (auto simp: unlines_def plain_line_def scan_lines_line drop_cr_plain split: prod.splits)

lemma scan_unlines: "list_all (plain_line limit) ls \<Longrightarrow> scan_lines limit (unlines ls) = (ls, False)"
  using scan_lines_append [of limit ls "[]"] by simp

text \<open>After a line that does not fit nothing is delivered any more.\<close>

lemma scan_stops_at_long_line:
  assumes "list_all (plain_line limit) ls" "newline \<notin> set l" "limit \<le> length l"
  shows "scan_lines limit (unlines ls @ l @ newline # rest) = (ls, True)"
  using assms by (simp add: scan_lines_append scan_lines_too_long)

lemma scan_acc_no_newline: "list_all (\<lambda>l. newline \<notin> set l) (fst (scan_acc limit cur s))"
  if "newline \<notin> set cur"
  using that
  by (induction limit cur s rule: scan_acc.induct)
     (auto simp: drop_cr_def split: prod.splits dest: in_set_butlastD)

lemma scan_lines_no_newline: "l \<in> set (fst (scan_lines limit s)) \<Longrightarrow> newline \<notin> set l"
  using scan_acc_no_newline [of "[]" limit s] by (auto simp: scan_lines_def list_all_iff)

definition framed :: "nat \<Rightarrow> string list \<Rightarrow> bool" where
  "framed limit ls = list_all (plain_line limit) ls"

interpretation line_framing: codec "framed limit" unlines
  "\<lambda>s. case scan_lines limit s of (ls, e) \<Rightarrow> if e then None else Some ls"
  for limit
  by unfold_locales (simp add: framed_def scan_unlines)

end
