(* ===== verification/Runner.thy ===== *)
theory Runner
  imports GoChan GoText
begin

text \<open>
  The engine runner (\<^verbatim>\<open>server/engine/runner.go\<close>): the child process, its pipes and the channel of
  its output events.  What the operating system decides about one launch (pipe and start errors,
  the bytes the child prints, how it exits) is the record \<open>launch\<close>.  \<open>run\<close> and \<open>Start\<close> are the
  sequential composition of the sections of the Go code; \<open>runner_step\<close> interleaves the same
  sections with the calls other goroutines make (\<^verbatim>\<open>SetArgs\<close>, \<^verbatim>\<open>Restart\<close>, \<^verbatim>\<open>SendOrder\<close>, receiving from
  the event channel, cancelling the context).  The pipe to the child's standard input is
  represented by the bytes written to it so far.
\<close>

section \<open>Data\<close>

record event =
  Raw :: bytes
  EvType :: bytes

record exec_cmd =
  cmd_path :: bytes
  cmd_args :: "bytes list"
  cmd_Process :: "nat option"
  cmd_sigterms :: nat

record runner =
  binaryPath :: bytes
  args :: "bytes list"
  eventChan :: "event chan"
  stdinPipe :: "bytes option"
  cmd :: "exec_cmd option"

record launch =
  stdout_err :: "go_error option"
  stderr_err :: "go_error option"
  stdin_err :: "go_error option"
  start_err :: "go_error option"
  child_pid :: nat
  child_stdout :: bytes
  wait_err :: "go_error option"

text \<open>The outcome of a write to a pipe: complete, or an error after some bytes.\<close>

datatype write_result = WriteOk | WriteErr nat go_error

section \<open>Operations\<close>

definition type_marker :: "string \<Rightarrow> bytes" where
  "type_marker t = CHR 0x22 # ''type'' @ [CHR 0x22, CHR '':'', CHR 0x22] @ t @ [CHR 0x22]"

definition extractType :: "bytes \<Rightarrow> bytes" where
  "extractType data =
     (if contains data (type_marker ''tick'') then ''tick''
      else if contains data (type_marker ''fill'') then ''fill''
      else if contains data (type_marker ''reject'') then ''reject''
      else [])"

definition NewRunner :: "bytes \<Rightarrow> bytes list \<Rightarrow> event chan \<Rightarrow> runner" where
  "NewRunner path as ch =
     \<lparr>binaryPath = path, args = as, eventChan = ch, stdinPipe = None, cmd = None\<rparr>"

definition SetArgs :: "bytes list \<Rightarrow> runner \<Rightarrow> runner" where
  "SetArgs as r = r\<lparr>args := as\<rparr>"

definition Args :: "runner \<Rightarrow> bytes list" where
  "Args r = args r"

definition not_running :: go_error where
  "not_running = ''engine not running''"

text \<open>\<^verbatim>\<open>Restart\<close>; the argument is what the signal call returns.\<close>

definition Restart :: "go_error option \<Rightarrow> runner \<Rightarrow> go_error option \<times> runner" where
  "Restart sig r =
     (case cmd r of
        None \<Rightarrow> (Some not_running, r)
      | Some c \<Rightarrow>
          if cmd_Process c = None then (Some not_running, r)
          else (case sig of
                  Some e \<Rightarrow> (Some e, r)
                | None \<Rightarrow> (None, r\<lparr>cmd := Some (c\<lparr>cmd_sigterms := Suc (cmd_sigterms c)\<rparr>)\<rparr>)))"

definition SendOrder :: "write_result \<Rightarrow> bytes \<Rightarrow> runner \<Rightarrow> go_error option \<times> runner" where
  "SendOrder w orderJSON r =
     (case stdinPipe r of
        None \<Rightarrow> (Some not_running, r)
      | Some p \<Rightarrow>
          let buf = orderJSON @ [newline] in
          (case w of
             WriteOk \<Rightarrow> (None, r\<lparr>stdinPipe := Some (p @ buf)\<rparr>)
           | WriteErr n e \<Rightarrow> (Some e, r\<lparr>stdinPipe := Some (p @ take n buf)\<rparr>)))"

definition maxLine :: nat where "maxLine = 2 ^ 20"

text \<open>The pipes and the start of the child; the arguments are the copy \<^verbatim>\<open>run\<close> took under the lock.\<close>

definition run_launch :: "launch \<Rightarrow> bytes list \<Rightarrow> runner \<Rightarrow> go_error + runner" where
  "run_launch l as r =
     (case stdout_err l of
        Some e \<Rightarrow> Inl (''stdout pipe: '' @ e)
      | None \<Rightarrow>
     (case stderr_err l of
        Some e \<Rightarrow> Inl (''stderr pipe: '' @ e)
      | None \<Rightarrow>
     (case stdin_err l of
        Some e \<Rightarrow> Inl (''stdin pipe: '' @ e)
      | None \<Rightarrow>
     (case start_err l of
        Some e \<Rightarrow> Inl (''start: '' @ e)
      | None \<Rightarrow>
          Inr (r\<lparr>stdinPipe := Some [],
                 cmd := Some \<lparr>cmd_path = binaryPath r, cmd_args = as, cmd_Process = Some (child_pid l),
                              cmd_sigterms = 0\<rparr>\<rparr>)))))"

definition mk_event :: "bytes \<Rightarrow> event" where
  "mk_event raw = \<lparr>Raw = raw, EvType = extractType raw\<rparr>"

text \<open>One iteration of the stdout loop; \<open>None\<close> would be a send on a closed channel.\<close>

definition forward :: "bytes \<Rightarrow> runner \<Rightarrow> runner option" where
  "forward raw r = map_option (\<lambda>ch. r\<lparr>eventChan := ch\<rparr>) (offer (eventChan r) (mk_event raw))"

fun forward_all :: "bytes list \<Rightarrow> runner \<Rightarrow> runner option" where
  "forward_all [] r = Some r"
| "forward_all (raw # raws) r = (case forward raw r of None \<Rightarrow> None | Some r' \<Rightarrow> forward_all raws r')"

definition run_clear :: "runner \<Rightarrow> runner" where
  "run_clear r = r\<lparr>stdinPipe := None, cmd := None\<rparr>"

definition child_lines :: "launch \<Rightarrow> bytes list" where
  "child_lines l = fst (scan_lines maxLine (child_stdout l))"

definition run :: "launch \<Rightarrow> runner \<Rightarrow> (go_error option \<times> runner) option" where
  "run l r =
     (case run_launch l (args r) r of
        Inl e \<Rightarrow> Some (Some e, r)
      | Inr r1 \<Rightarrow>
          (case forward_all (child_lines l) r1 of
             None \<Rightarrow> None
           | Some r2 \<Rightarrow> Some (wait_err l, run_clear r2)))"

text \<open>One pass of the loop of \<^verbatim>\<open>Start\<close>: is the context done at the top, what the launch does, is the
  context done before the two seconds are over.  The flag of the result says that \<^verbatim>\<open>Start\<close>
  returned; the list of rounds may end before that.\<close>

record start_round =
  done_before :: bool
  launch_env :: launch
  done_after :: bool

fun Start :: "start_round list \<Rightarrow> runner \<Rightarrow> (bool \<times> runner) option" where
  "Start [] r = Some (False, r)"
| "Start (x # xs) r =
     (if done_before x then Some (True, r)
      else case run (launch_env x) r of
             None \<Rightarrow> None
           | Some (_, r') \<Rightarrow> if done_after x then Some (True, r') else Start xs r')"

section \<open>Interleaving\<close>

datatype phase = LoopTop | Launching "bytes list" | Reading "bytes list" | Waiting | Pausing | Returned

text \<open>\<open>launches\<close>, \<open>scanned\<close>, \<open>consumed\<close>, \<open>accepted\<close> and \<open>write_failed\<close> record history: launches so far,
  lines read from the child, events taken by the receiver, orders the current child was sent,
  and whether a write to the current child failed.\<close>

record engine_sys =
  rn :: runner
  phase :: phase
  ctx_done :: bool
  launches :: nat
  scanned :: "bytes list"
  consumed :: "event list"
  accepted :: "bytes list"
  write_failed :: bool

definition engine_init :: "runner \<Rightarrow> engine_sys" where
  "engine_init r = \<lparr>rn = r, phase = LoopTop, ctx_done = False, launches = 0, scanned = [], consumed = [],
     accepted = [], write_failed = False\<rparr>"

inductive runner_step :: "engine_sys \<Rightarrow> engine_sys \<Rightarrow> bool" where
  loop_done: "phase s = LoopTop \<Longrightarrow> ctx_done s \<Longrightarrow> runner_step s (s\<lparr>phase := Returned\<rparr>)"
| loop_run: "phase s = LoopTop \<Longrightarrow> \<not> ctx_done s \<Longrightarrow> runner_step s (s\<lparr>phase := Launching (args (rn s))\<rparr>)"
| launch_fail: "phase s = Launching as \<Longrightarrow> run_launch l as (rn s) = Inl e \<Longrightarrow> runner_step s (s\<lparr>phase := Pausing\<rparr>)"
| launch_ok:
    "phase s = Launching as \<Longrightarrow> run_launch l as (rn s) = Inr r \<Longrightarrow>
     runner_step s (s\<lparr>rn := r, phase := Reading (child_lines l), launches := Suc (launches s),
                      accepted := [], write_failed := False\<rparr>)"
| read_line:
    "phase s = Reading (raw # raws) \<Longrightarrow> forward raw (rn s) = Some r \<Longrightarrow>
     runner_step s (s\<lparr>rn := r, phase := Reading raws, scanned := scanned s @ [raw]\<rparr>)"
| read_eof: "phase s = Reading [] \<Longrightarrow> runner_step s (s\<lparr>rn := run_clear (rn s), phase := Waiting\<rparr>)"
| wait_exit: "phase s = Waiting \<Longrightarrow> runner_step s (s\<lparr>phase := Pausing\<rparr>)"
| pause_done: "phase s = Pausing \<Longrightarrow> ctx_done s \<Longrightarrow> runner_step s (s\<lparr>phase := Returned\<rparr>)"
| pause_over: "phase s = Pausing \<Longrightarrow> runner_step s (s\<lparr>phase := LoopTop\<rparr>)"
| cancel: "runner_step s (s\<lparr>ctx_done := True\<rparr>)"
| set_args: "runner_step s (s\<lparr>rn := SetArgs as (rn s)\<rparr>)"
| restart: "Restart sig (rn s) = (res, r) \<Longrightarrow> runner_step s (s\<lparr>rn := r\<rparr>)"
| send_order:
    "SendOrder w ord (rn s) = (res, r) \<Longrightarrow>
     runner_step s (s\<lparr>rn := r, accepted := (if res = None then accepted s @ [ord] else accepted s),
                      write_failed := (write_failed s \<or> (stdinPipe r \<noteq> None \<and> res \<noteq> None))\<rparr>)"
| consume:
    "try_recv (eventChan (rn s)) = Received ev ch \<Longrightarrow>
     runner_step s (s\<lparr>rn := (rn s)\<lparr>eventChan := ch\<rparr>, consumed := consumed s @ [ev]\<rparr>)"

section \<open>Sequential behaviour\<close>

lemmas runner_ops = SetArgs_def Restart_def SendOrder_def forward_def run_clear_def mk_event_def

lemma run_launch_cases:
  "run_launch l as r =
     (if stdout_err l = None \<and> stderr_err l = None \<and> stdin_err l = None \<and> start_err l = None
      then Inr (r\<lparr>stdinPipe := Some [],
                  cmd := Some \<lparr>cmd_path = binaryPath r, cmd_args = as, cmd_Process = Some (child_pid l),
                               cmd_sigterms = 0\<rparr>\<rparr>)
      else Inl (projl (run_launch l as r)))"
  by (auto simp: run_launch_def split: option.splits)

lemma run_launch_InrD:
  "run_launch l as r = Inr r' \<Longrightarrow>
     r' = r\<lparr>stdinPipe := Some [], cmd := Some \<lparr>cmd_path = binaryPath r, cmd_args = as,
                                             cmd_Process = Some (child_pid l), cmd_sigterms = 0\<rparr>\<rparr>"
  by (subst (asm) run_launch_cases) (auto split: if_splits)

text \<open>The stdout loop is the mailbox's \<open>push_all\<close> on the event channel.\<close>

lemma forward_all_push:
  "forward_all raws r = map_option (\<lambda>ch. r\<lparr>eventChan := ch\<rparr>) (go_chan.push_all (eventChan r) (map mk_event raws))"
proof (induction raws arbitrary: r)
  case (Cons raw raws)
  then show ?case by (cases "offer (eventChan r) (mk_event raw)") (simp_all add: forward_def option.map_comp o_def)
qed simp

lemma forward_all_live:
  assumes "chan_live (eventChan r)"
  shows "\<exists>ch. forward_all raws r = Some (r\<lparr>eventChan := ch\<rparr>) \<and> chan_live ch \<and> ch_cap ch = ch_cap (eventChan r) \<and>
    ch_buf ch = ch_buf (eventChan r) @
      take (ch_cap (eventChan r) - length (ch_buf (eventChan r))) (map mk_event raws)"
  using go_chan.push_all_spec [OF assms, of "map mk_event raws"] by (auto simp: forward_all_push)

definition starts :: "launch \<Rightarrow> bool" where
  "starts l \<longleftrightarrow> stdout_err l = None \<and> stderr_err l = None \<and> stdin_err l = None \<and> start_err l = None"

lemma run_started:
  assumes "chan_live (eventChan r)" "starts l"
  shows "\<exists>ch. run l r = Some (wait_err l, r\<lparr>eventChan := ch, stdinPipe := None, cmd := None\<rparr>) \<and>
    chan_live ch \<and> ch_cap ch = ch_cap (eventChan r) \<and>
    ch_buf ch = ch_buf (eventChan r) @
      take (ch_cap (eventChan r) - length (ch_buf (eventChan r))) (map mk_event (child_lines l))"
proof -
  let ?r1 = "r\<lparr>stdinPipe := Some [], cmd := Some \<lparr>cmd_path = binaryPath r, cmd_args = args r,
    cmd_Process = Some (child_pid l), cmd_sigterms = 0\<rparr>\<rparr>"
  have l: "run_launch l (args r) r = Inr ?r1" using assms(2) by (subst run_launch_cases) (simp add: starts_def)
  show ?thesis
    using forward_all_live [of ?r1 "child_lines l"] assms(1) by (auto simp: run_def l run_clear_def)
qed

lemma run_not_started:
  "\<not> starts l \<Longrightarrow> \<exists>e. run l r = Some (Some e, r)"
  unfolding run_def by (subst run_launch_cases) (auto simp: starts_def)

lemma run_total:
  assumes "chan_live (eventChan r)"
  shows "\<exists>res r'. run l r = Some (res, r') \<and> chan_live (eventChan r') \<and> args r' = args r"
  using assms run_started [OF assms, of l] run_not_started [of l r] by (cases "starts l") auto

text \<open>One run of the engine whose standard output is a sequence of lines (each shorter than
  one MiB, without a carriage return at the end) appends to the event channel exactly one event per line, in order, with
  the line as its raw bytes and its type read from it, until the channel is full; the lines that
  find it full are dropped and nothing already queued is touched.  Afterwards the pipe and the
  process are cleared, so orders are refused until the next start.\<close>

theorem run_forwards_lines:
  assumes "chan_live (eventChan r)" "starts l" "child_stdout l = unlines ls" "framed maxLine ls"
  shows "\<exists>r'. run l r = Some (wait_err l, r') \<and>
    ch_buf (eventChan r') = ch_buf (eventChan r) @
      take (ch_cap (eventChan r) - length (ch_buf (eventChan r)))
        (map (\<lambda>x. \<lparr>Raw = x, EvType = extractType x\<rparr>) ls) \<and>
    chan_live (eventChan r') \<and> stdinPipe r' = None \<and> cmd r' = None \<and> args r' = args r"
proof -
  have ls: "child_lines l = ls"
    using assms(3,4) by (simp add: child_lines_def scan_unlines framed_def)
  have ev: "mk_event = (\<lambda>x. \<lparr>Raw = x, EvType = extractType x\<rparr>)" by (auto simp: mk_event_def)
  obtain ch where "run l r = Some (wait_err l, r\<lparr>eventChan := ch, stdinPipe := None, cmd := None\<rparr>)"
    "chan_live ch" "ch_buf ch = ch_buf (eventChan r) @
      take (ch_cap (eventChan r) - length (ch_buf (eventChan r))) (map mk_event ls)"
    using run_started [OF assms(1,2)] unfolding ls by blast
  then show ?thesis unfolding ev by auto
qed

definition demo_launch :: "bytes \<Rightarrow> launch" where
  "demo_launch out = \<lparr>stdout_err = None, stderr_err = None, stdin_err = None, start_err = None,
     child_pid = 7, child_stdout = out, wait_err = None\<rparr>"

definition demo_runner :: runner where
  "demo_runner = NewRunner ''engine'' [] (make_chan 2)"

lemma demo_ready:
  "chan_live (eventChan demo_runner)" "starts (demo_launch out)" "child_stdout (demo_launch out) = out"
  "wait_err (demo_launch out) = None" "ch_buf (eventChan demo_runner) = []" "ch_cap (eventChan demo_runner) = 2"
  by (simp_all add: demo_launch_def demo_runner_def NewRunner_def starts_def)

lemma framed_letters: "framed maxLine [[CHR ''a'']]" "framed maxLine [''a'', ''b'', ''c'']"
  by (simp_all add: framed_def plain_line_def maxLine_def newline_def carriage_def)

theorem run_forwards_lines_witness:
  "\<exists>r'. run (demo_launch (unlines [''a'', ''b'', ''c''])) demo_runner = Some (None, r') \<and>
     map Raw (ch_buf (eventChan r')) = [''a'', ''b''] \<and> stdinPipe r' = None"
  using run_forwards_lines [OF demo_ready(1,2,3) framed_letters(2)]
  by (fastforce simp: demo_ready numeral_2_eq_2)

text \<open>If the engine prints a line of one MiB or more, the scanner stops there: the lines
  before it are forwarded, that line and everything after it are lost, and the runner has
  dropped its pipe and its process handle while it waits for the child to exit, so that from
  then on every order and every restart request is refused as if no engine were running.\<close>

theorem oversized_line_disconnects:
  assumes "chan_live (eventChan r)" "starts l"
    and "child_stdout l = unlines ls @ long @ newline # rest" "framed maxLine ls"
    and "newline \<notin> set long" "maxLine \<le> length long"
  shows "\<exists>r'. run l r = Some (wait_err l, r') \<and>
    ch_buf (eventChan r') = ch_buf (eventChan r) @
      take (ch_cap (eventChan r) - length (ch_buf (eventChan r))) (map mk_event ls) \<and>
    SendOrder w ord r' = (Some not_running, r') \<and> Restart sig r' = (Some not_running, r')"
proof -
  have ls: "child_lines l = ls"
    using assms(3-6) by (simp add: child_lines_def scan_stops_at_long_line framed_def)
  obtain ch where "run l r = Some (wait_err l, r\<lparr>eventChan := ch, stdinPipe := None, cmd := None\<rparr>)"
    "ch_buf ch = ch_buf (eventChan r) @
      take (ch_cap (eventChan r) - length (ch_buf (eventChan r))) (map mk_event ls)"
    using run_started [OF assms(1,2)] unfolding ls by blast
  then show ?thesis by (auto simp: runner_ops)
qed

theorem oversized_line_disconnects_witness:
  "\<exists>r'. run (demo_launch (unlines [''a''] @ replicate maxLine CHR ''x'' @ newline # unlines [''b''])) demo_runner = Some (None, r') \<and>
     ch_buf (eventChan r') = [mk_event ''a''] \<and> fst (SendOrder WriteOk ''{}'' r') = Some not_running"
proof -
  have long: "newline \<notin> set (replicate maxLine CHR ''x'')" "maxLine \<le> length (replicate maxLine CHR ''x'')"
    by (simp_all add: newline_def)
  show ?thesis
    using oversized_line_disconnects [OF demo_ready(1,2,3) framed_letters(1) long, of "unlines [''b'']" WriteOk "''{}''" None]
    by (fastforce simp: demo_ready numeral_2_eq_2)
qed

section \<open>Interleaved behaviour\<close>

fun is_reading :: "phase \<Rightarrow> bool" where
  "is_reading (Reading _) = True"
| "is_reading _ = False"

text \<open>What every reachable state satisfies: pipe and process exist exactly while the stdout loop
  runs, the channel stays open and within its capacity, everything taken or queued is a
  subsequence of the lines read, and the child's input is the accepted orders, one per line.\<close>

definition engine_ok :: "nat \<Rightarrow> engine_sys \<Rightarrow> bool" where
  "engine_ok n s \<longleftrightarrow>
     (stdinPipe (rn s) \<noteq> None \<longleftrightarrow> is_reading (phase s)) \<and>
     (cmd (rn s) \<noteq> None \<longleftrightarrow> is_reading (phase s)) \<and>
     (\<forall>c. cmd (rn s) = Some c \<longrightarrow> cmd_Process c \<noteq> None) \<and>
     chan_live (eventChan (rn s)) \<and> ch_cap (eventChan (rn s)) = n \<and>
     subseq (consumed s @ ch_buf (eventChan (rn s))) (map mk_event (scanned s)) \<and>
     (\<forall>p. stdinPipe (rn s) = Some p \<longrightarrow> \<not> write_failed s \<longrightarrow> p = unlines (accepted s))"

lemma SendOrder_cases:
  assumes "SendOrder w ord r = (res, r')"
  obtains "stdinPipe r = None" "res = Some not_running" "r' = r"
  | p where "stdinPipe r = Some p" "w = WriteOk" "res = None" "r' = r\<lparr>stdinPipe := Some (p @ ord @ [newline])\<rparr>"
  | p n e where "stdinPipe r = Some p" "w = WriteErr n e" "res = Some e"
      "r' = r\<lparr>stdinPipe := Some (p @ take n (ord @ [newline]))\<rparr>"
  using assms by (auto simp: SendOrder_def Let_def split: option.splits write_result.splits)

lemma Restart_cases:
  assumes "Restart sig r = (res, r')"
  obtains "r' = r" | c where "cmd r = Some c" "r' = r\<lparr>cmd := Some (c\<lparr>cmd_sigterms := Suc (cmd_sigterms c)\<rparr>)\<rparr>"
  using assms by (auto simp: Restart_def split: option.splits if_splits)

lemma forward_cases:
  assumes "forward raw r = Some r'"
  obtains "length (ch_buf (eventChan r)) < ch_cap (eventChan r)"
      "r' = r\<lparr>eventChan := (eventChan r)\<lparr>ch_buf := ch_buf (eventChan r) @ [mk_event raw]\<rparr>\<rparr>"
  | "r' = r"
  using assms by (auto simp: forward_def chan_defs split: if_splits)

lemma subseq_snoc_right: "subseq xs ys \<Longrightarrow> subseq xs (ys @ [y])"
  by (metis list_emb_append2 append_Nil2 subseq_append' subseq_rev_drop_many)

lemma unlines_snoc: "unlines (ls @ [l]) = unlines ls @ l @ [newline]"
  by (simp add: unlines_def)

lemma split_on_unlines: "\<forall>x \<in> set xs. newline \<notin> set x \<Longrightarrow> split_on newline (unlines xs) = xs @ [[]]"
  by (induction xs) (simp_all add: unlines_def split_on_append_sep split_on_no_sep)

lemma engine_ok_init:
  "engine_ok n (engine_init (NewRunner path as (make_chan n)))"
  by (simp add: engine_ok_def engine_init_def NewRunner_def)

lemma engine_ok_step: "runner_step s t \<Longrightarrow> engine_ok n s \<Longrightarrow> engine_ok n t"
proof (induction rule: runner_step.cases)
  case (launch_ok s as l r)
  then show ?case by (auto simp: engine_ok_def unlines_def dest!: run_launch_InrD)
next
  case (read_line s raw raws r)
  from read_line(4) show ?case
    by (rule forward_cases)
       (use read_line in \<open>auto simp: engine_ok_def chan_defs list_emb_append_mono subseq_snoc_right
          simp flip: append_assoc\<close>)
next
  case (restart sig s res r)
  from restart(3) show ?case by (rule Restart_cases) (use restart in \<open>auto simp: engine_ok_def\<close>)
next
  case (send_order w ord s res r)
  from send_order(3) show ?case
    by (rule SendOrder_cases) (use send_order in \<open>auto simp: engine_ok_def unlines_snoc\<close>)
next
  case (consume s ev ch)
  then show ?case by (auto simp: engine_ok_def chan_defs split: list.splits if_splits)
qed (auto simp: engine_ok_def SetArgs_def run_clear_def)

interpretation engine: guarded_system
  "\<lambda>s. \<exists>path as. s = engine_init (NewRunner path as (make_chan n))" runner_step "engine_ok n" for n
  by unfold_locales (auto intro: engine_ok_init engine_ok_step)

text \<open>Property C18. In every interleaving of the runner's loop with argument changes, restarts, orders,
  the event receiver and cancellation: an order is accepted exactly while the stdout loop of
  the current child runs (and the write succeeds); the events received so far followed by those
  still queued are a subsequence, in order, of the lines the children printed; the queue never
  exceeds its capacity; and as long as no write failed, the bytes on the child's standard input split at newlines into exactly the
  accepted orders, provided no order contains a newline.\<close>

theorem runner_interleavings:
  assumes "runner_step\<^sup>*\<^sup>* (engine_init (NewRunner path as (make_chan n))) s"
  shows "(fst (SendOrder WriteOk ord (rn s)) = None \<longleftrightarrow> (\<exists>ls. phase s = Reading ls)) \<and>
    subseq (consumed s @ ch_buf (eventChan (rn s))) (map mk_event (scanned s)) \<and>
    length (ch_buf (eventChan (rn s))) \<le> n \<and>
    (\<forall>p. stdinPipe (rn s) = Some p \<and> \<not> write_failed s \<and> (\<forall>x \<in> set (accepted s). newline \<notin> set x) \<longrightarrow>
       split_on newline p = accepted s @ [[]])"
proof (intro conjI)
  have ok: "engine_ok n s" using assms by (blast intro: engine.reachable_good)
  then show "fst (SendOrder WriteOk ord (rn s)) = None \<longleftrightarrow> (\<exists>ls. phase s = Reading ls)"
    by (cases "phase s") (auto simp: engine_ok_def SendOrder_def Let_def split: option.splits)
  show "subseq (consumed s @ ch_buf (eventChan (rn s))) (map mk_event (scanned s))"
    "length (ch_buf (eventChan (rn s))) \<le> n"
    using ok by (auto simp: engine_ok_def chan_defs)
  show "\<forall>p. stdinPipe (rn s) = Some p \<and> \<not> write_failed s \<and> (\<forall>x \<in> set (accepted s). newline \<notin> set x) \<longrightarrow>
      split_on newline p = accepted s @ [[]]"
    using ok by (auto simp: engine_ok_def split_on_unlines)
qed

text \<open>A short run: launch, one order, one line printed and received.\<close>

definition demo_state :: "bytes list \<Rightarrow> engine_sys" where
  "demo_state as = (engine_init demo_runner)
     \<lparr>rn := demo_runner\<lparr>args := as, stdinPipe := Some (unlines [''{}'']),
        cmd := Some \<lparr>cmd_path = ''engine'', cmd_args = [], cmd_Process = Some 7, cmd_sigterms = 0\<rparr>\<rparr>,
      phase := Reading [], launches := 1, scanned := [''a''], consumed := [mk_event ''a''], accepted := [''{}'']\<rparr>"

lemma child_lines_demo: "child_lines (demo_launch (unlines [''a''])) = [''a'']"
  using scan_unlines framed_letters(1) by (simp add: child_lines_def demo_ready framed_def)

text \<open>The arguments may be replaced while the child is being launched.\<close>

lemma demo_reachable: "runner_step\<^sup>*\<^sup>* (engine_init demo_runner) (demo_state as)"
proof -
  let ?s0 = "engine_init demo_runner"
  let ?s1 = "?s0\<lparr>phase := Launching []\<rparr>"
  let ?s2 = "?s1\<lparr>rn := SetArgs as (rn ?s1)\<rparr>"
  let ?r3 = "(rn ?s2)\<lparr>stdinPipe := Some [], cmd := Some \<lparr>cmd_path = ''engine'', cmd_args = [], cmd_Process = Some 7, cmd_sigterms = 0\<rparr>\<rparr>"
  let ?s3 = "?s2\<lparr>rn := ?r3, phase := Reading [''a''], launches := Suc (launches ?s2), accepted := [], write_failed := False\<rparr>"
  let ?r4 = "?r3\<lparr>stdinPipe := Some (unlines [''{}''])\<rparr>"
  let ?s4 = "?s3\<lparr>rn := ?r4, accepted := [''{}'']\<rparr>"
  let ?r5 = "?r4\<lparr>eventChan := (eventChan ?r4)\<lparr>ch_buf := [mk_event ''a'']\<rparr>\<rparr>"
  let ?s5 = "?s4\<lparr>rn := ?r5, phase := Reading [], scanned := [''a'']\<rparr>"
  note defs = engine_init_def demo_runner_def NewRunner_def SetArgs_def make_chan_def
  have "runner_step ?s0 ?s1" using runner_step.loop_run [of ?s0] by (simp add: defs)
  moreover have "runner_step ?s1 ?s2" by (rule runner_step.set_args)
  moreover have "runner_step ?s2 ?s3"
    using runner_step.launch_ok [of ?s2 "[]" "demo_launch (unlines [''a''])" ?r3]
    unfolding child_lines_demo by (simp add: defs run_launch_def demo_launch_def)
  moreover have "runner_step ?s3 ?s4"
    using runner_step.send_order [of WriteOk "''{}''" ?s3 None ?r4]
    by (simp add: defs SendOrder_def unlines_def)
  moreover have "runner_step ?s4 ?s5"
    using runner_step.read_line [of ?s4 "''a''" "[]" ?r5]
    by (simp add: defs forward_def chan_defs)
  moreover have "runner_step ?s5 (demo_state as)"
    using runner_step.consume [of ?s5 "mk_event ''a''" "(eventChan ?r4)"]
    by (simp add: defs chan_defs demo_state_def)
  ultimately show ?thesis by (meson rtranclp.rtrancl_into_rtrancl rtranclp.rtrancl_refl)
qed

theorem runner_interleavings_witness:
  "fst (SendOrder WriteOk ''{}'' (rn (demo_state []))) = None \<and>
   split_on newline (unlines [''{}'']) = [''{}'', []]"
proof -
  have run: "runner_step\<^sup>*\<^sup>* (engine_init (NewRunner ''engine'' [] (make_chan 2))) (demo_state [])"
    using demo_reachable by (simp add: demo_runner_def)
  show ?thesis
    using runner_interleavings [OF run, of "''{}''"] by (simp add: demo_state_def engine_init_def newline_def)
qed

section \<open>When new arguments take effect\<close>

definition keeps_args :: "engine_sys \<Rightarrow> engine_sys \<Rightarrow> bool" where
  "keeps_args s t \<longleftrightarrow> runner_step s t \<and> args (rn t) = args (rn s)"

text \<open>A launch begun after \<open>s\<close>, with the arguments of \<open>s\<close> in force.\<close>

definition launch_uses :: "engine_sys \<Rightarrow> engine_sys \<Rightarrow> bool" where
  "launch_uses s t \<longleftrightarrow>
     args (rn t) = args (rn s) \<and> launches s \<le> launches t \<and>
     (\<forall>as. phase t = Launching as \<longrightarrow> as = args (rn s)) \<and>
     (\<forall>c. launches s < launches t \<and> cmd (rn t) = Some c \<longrightarrow> cmd_args c = args (rn s))"

lemma launch_uses_step:
  assumes "keeps_args t u" "launch_uses s t"
  shows "launch_uses s u"
proof -
  from assms(1) have st: "runner_step t u" and same: "args (rn u) = args (rn t)"
    by (simp_all add: keeps_args_def)
  from st show ?thesis
  proof cases
    case (launch_ok as l r)
    then show ?thesis using assms(2) by (auto simp: launch_uses_def dest!: run_launch_InrD)
  next
    case (read_line raw raws r)
    from read_line(3) show ?thesis by (rule forward_cases) (use read_line assms(2) in \<open>auto simp: launch_uses_def\<close>)
  next
    case (restart sig res r)
    from restart(2) show ?thesis by (rule Restart_cases) (use restart assms(2) in \<open>auto simp: launch_uses_def\<close>)
  next
    case (send_order w ord res r)
    from send_order(2) show ?thesis
      by (rule SendOrder_cases) (use send_order assms(2) in \<open>auto simp: launch_uses_def\<close>)
  qed (use same assms(2) in \<open>auto simp: launch_uses_def run_clear_def SetArgs_def\<close>)
qed

lemma launch_uses_steps: "keeps_args\<^sup>*\<^sup>* t u \<Longrightarrow> launch_uses s t \<Longrightarrow> launch_uses s u"
  by (induction rule: rtranclp_induct) (auto intro: launch_uses_step)

text \<open>Arguments set with \<^verbatim>\<open>SetArgs\<close> at a moment when no launch is under way are the arguments
  of every child started later, for as long as nobody sets other arguments.\<close>

theorem set_args_used_by_next_start:
  assumes "\<And>old. phase s \<noteq> Launching old" "keeps_args\<^sup>*\<^sup>* (s\<lparr>rn := SetArgs as (rn s)\<rparr>) t"
    and "launches s < launches t" "cmd (rn t) = Some c"
  shows "cmd_args c = as"
proof -
  let ?s = "s\<lparr>rn := SetArgs as (rn s)\<rparr>"
  have "launch_uses ?s ?s" using assms(1) by (auto simp: launch_uses_def)
  from launch_uses_steps [OF assms(2) this] assms(3,4) show ?thesis
    by (auto simp: launch_uses_def SetArgs_def)
qed

theorem set_args_used_by_next_start_witness:
  "\<exists>t. keeps_args\<^sup>*\<^sup>* ((engine_init demo_runner)\<lparr>rn := SetArgs [''--makers'', ''3''] demo_runner\<rparr>) t \<and>
     (\<exists>c. cmd (rn t) = Some c \<and> cmd_args c = [''--makers'', ''3''])"
proof -
  let ?as = "[''--makers'', ''3'']"
  let ?e = "engine_init demo_runner"
  let ?s0 = "?e\<lparr>rn := SetArgs ?as demo_runner\<rparr>"
  let ?s1 = "?s0\<lparr>phase := Launching ?as\<rparr>"
  let ?c = "\<lparr>cmd_path = ''engine'', cmd_args = ?as, cmd_Process = Some 7, cmd_sigterms = 0\<rparr>"
  let ?r = "(rn ?s1)\<lparr>stdinPipe := Some [], cmd := Some ?c\<rparr>"
  let ?t = "?s1\<lparr>rn := ?r, phase := Reading [''a''], launches := Suc (launches ?s1), accepted := [], write_failed := False\<rparr>"
  note defs = engine_init_def demo_runner_def NewRunner_def SetArgs_def make_chan_def keeps_args_def
  have "keeps_args ?s0 ?s1" using runner_step.loop_run [of ?s0] by (simp add: defs)
  moreover have "keeps_args ?s1 ?t"
    using runner_step.launch_ok [of ?s1 ?as "demo_launch (unlines [''a''])" ?r]
    unfolding child_lines_demo by (simp add: defs run_launch_def demo_launch_def)
  ultimately have run: "keeps_args\<^sup>*\<^sup>* (?e\<lparr>rn := SetArgs ?as (rn ?e)\<rparr>) ?t"
    by (simp add: engine_init_def)
  have "cmd_args ?c = ?as"
    by (rule set_args_used_by_next_start [OF _ run]) (simp_all add: engine_init_def)
  with run show ?thesis by (intro exI [of _ ?t]) (simp add: engine_init_def)
qed

text \<open>The same is not true of arguments set while a launch is under way (after \<^verbatim>\<open>run\<close> copied
  the old ones and before it published the process): the restart request that follows is
  refused as \<^verbatim>\<open>engine not running\<close>, and the child then runs with the old arguments although
  the new ones were set before it was started.\<close>

theorem set_args_lost_during_launch:
  "\<exists>s t. runner_step\<^sup>*\<^sup>* (engine_init demo_runner) s \<and> phase s = Launching [] \<and> args (rn s) = new \<and>
     fst (Restart None (rn s)) = Some not_running \<and> keeps_args\<^sup>*\<^sup>* s t \<and>
     map_option cmd_args (cmd (rn t)) = Some [] \<and> args (rn t) = new"
proof -
  let ?s0 = "engine_init demo_runner"
  let ?s1 = "?s0\<lparr>phase := Launching []\<rparr>"
  let ?s2 = "?s1\<lparr>rn := SetArgs new (rn ?s1)\<rparr>"
  let ?c = "\<lparr>cmd_path = ''engine'', cmd_args = [], cmd_Process = Some 7, cmd_sigterms = 0\<rparr>"
  let ?r = "(rn ?s2)\<lparr>stdinPipe := Some [], cmd := Some ?c\<rparr>"
  let ?t = "?s2\<lparr>rn := ?r, phase := Reading [''a''], launches := Suc (launches ?s2), accepted := [], write_failed := False\<rparr>"
  note defs = engine_init_def demo_runner_def NewRunner_def SetArgs_def make_chan_def keeps_args_def
  have "runner_step ?s0 ?s1" using runner_step.loop_run [of ?s0] by (simp add: defs)
  then have "runner_step\<^sup>*\<^sup>* ?s0 ?s2"
    using runner_step.set_args [of ?s1 new] by (rule converse_rtranclp_into_rtranclp [OF _ r_into_rtranclp])
  moreover have "keeps_args ?s2 ?t"
    using runner_step.launch_ok [of ?s2 "[]" "demo_launch (unlines [''a''])" ?r]
    unfolding child_lines_demo by (simp add: defs run_launch_def demo_launch_def)
  then have "keeps_args\<^sup>*\<^sup>* ?s2 ?t" by blast
  ultimately show ?thesis
    by (intro exI [of _ ?s2] exI [of _ ?t] conjI) (simp_all add: defs Restart_def)
qed

section \<open>The restart loop\<close>

lemma run_keeps_live:
  assumes "chan_live (eventChan r)" "run l r = Some (res, r')"
  shows "chan_live (eventChan r')"
  using run_total [OF assms(1), of l] assms(2) by auto

text \<open>Property C32. The loop of \<^verbatim>\<open>Start\<close> keeps launching the engine, whatever the launches do, and returns
  in the first round in which it finds the context cancelled (what would happen in later rounds
  does not matter); it never returns before and never panics.\<close>

theorem start_returns_iff_cancelled:
  assumes "chan_live (eventChan r)"
  shows "(\<exists>r'. Start xs r = Some (\<exists>x \<in> set xs. done_before x \<or> done_after x, r')) \<and>
    ((\<exists>x \<in> set xs. done_before x \<or> done_after x) \<longrightarrow> Start (xs @ ys) r = Start xs r)"
  using assms
proof (induction xs arbitrary: r)
  case (Cons x xs)
  obtain res r1 where run: "run (launch_env x) r = Some (res, r1)" "chan_live (eventChan r1)"
    using run_total [OF Cons.prems] by blast
  then show ?case using Cons.IH [OF run(2)] by auto
qed simp

theorem start_returns_iff_cancelled_witness:
  "\<exists>r'. Start [\<lparr>done_before = False, launch_env = demo_launch [], done_after = False\<rparr>,
               \<lparr>done_before = True, launch_env = demo_launch [], done_after = True\<rparr>] demo_runner = Some (True, r')"
  using start_returns_iff_cancelled [OF demo_ready(1), where ys = "[]" and xs =
      "[\<lparr>done_before = False, launch_env = demo_launch [], done_after = False\<rparr>,
        \<lparr>done_before = True, launch_env = demo_launch [], done_after = True\<rparr>]"]
  by simp

end
