(* ===== verification/Float64.thy ===== *)
theory Float64
  imports GoText Complex_Main "HOL-Library.Log_Nat"
begin

text \<open>
  IEEE binary64 numbers, as both Go (\<^verbatim>\<open>float64\<close>) and C++ (\<^verbatim>\<open>double\<close>) use them: a finite number is a
  sign and an exact magnitude.  Decimal text is read by rounding its exact value to nearest,
  ties to even, with gradual underflow (\<^verbatim>\<open>strconv.ParseFloat\<close>); it is written with the fewest
  digits that read back to the same number, as \<^verbatim>\<open>encoding/json\<close> does.  The round trip of writing
  and reading is the main fact.
\<close>

section \<open>Numbers and rounding\<close>

datatype float64 = F64 bool rat | F64Inf bool | F64NaN

text \<open>Floor of the logarithm of a positive rational.\<close>

definition flog :: "nat \<Rightarrow> rat \<Rightarrow> int" where
  "flog b q =
     (let (n, d) = quotient_of q;
          k = int (floorlog b (nat n)) - int (floorlog b (nat d))
      in if rat_of_nat b powi k \<le> q then k else k - 1)"

definition round_half_even :: "rat \<Rightarrow> int" where
  "round_half_even q =
     (let f = \<lfloor>q\<rfloor>; r = q - of_int f
      in if r < 1 / 2 then f else if 1 / 2 < r then f + 1 else if even f then f else f + 1)"

text \<open>Exponent of the unit in the last place: 53 significant bits, but not below \<open>2^-1074\<close>.\<close>

definition ulp_exp :: "rat \<Rightarrow> int" where
  "ulp_exp q = max (- 1074) (flog 2 q - 52)"

definition f64_round :: "rat \<Rightarrow> rat" where
  "f64_round q =
     (if q = 0 then 0
      else of_int (round_half_even (q / 2 powi ulp_exp q)) * 2 powi ulp_exp q)"

definition to_f64 :: "bool \<Rightarrow> rat \<Rightarrow> float64" where
  "to_f64 neg q = (let r = f64_round q in if 2 ^ 1024 \<le> r then F64Inf neg else F64 neg r)"

definition f64_mag :: "rat \<Rightarrow> bool" where
  "f64_mag q \<longleftrightarrow> 0 \<le> q \<and> q < 2 ^ 1024 \<and> f64_round q = q"

fun f64_finite :: "float64 \<Rightarrow> bool" where
  "f64_finite (F64 s q) = f64_mag q"
| "f64_finite _ = False"

fun f64_val :: "float64 \<Rightarrow> rat" where
  "f64_val (F64 s q) = (if s then - q else q)"
| "f64_val _ = 0"

text \<open>The comparison \<^verbatim>\<open>x <= 0\<close>; every comparison with a NaN is false.\<close>

fun f64_le0 :: "float64 \<Rightarrow> bool" where
  "f64_le0 (F64 s q) = (s \<or> q = 0)"
| "f64_le0 (F64Inf s) = s"
| "f64_le0 F64NaN = False"

definition f64_zero :: float64 where
  "f64_zero = F64 False 0"

section \<open>Reading decimal text\<close>

fun exp_value :: "string \<Rightarrow> int" where
  "exp_value [] = 0"
| "exp_value (c # cs) =
     (if c = CHR ''-'' then - int (digits_val cs)
      else if c = CHR ''+'' then int (digits_val cs)
      else int (digits_val (c # cs)))"

text \<open>The exact value of an unsigned decimal literal: digits, optional fraction, optional exponent.\<close>

definition frac_part :: "string \<Rightarrow> string \<times> string" where
  "frac_part s =
     (case s of [] \<Rightarrow> ([], [])
      | c # cs \<Rightarrow> if c = CHR ''.'' then (takeWhile is_digit cs, dropWhile is_digit cs) else ([], s))"

definition dec_value :: "string \<Rightarrow> rat" where
  "dec_value s =
     (let ip = takeWhile is_digit s;
          (fp, r) = frac_part (dropWhile is_digit s);
          e = (case r of [] \<Rightarrow> 0 | c # cs \<Rightarrow> exp_value cs)
      in of_nat (digits_val (ip @ fp)) * 10 powi (e - int (length fp)))"

text \<open>\<open>ParseFloat\<close> on a literal that is a JSON number; an overflow is an error.\<close>

definition parse_float :: "string \<Rightarrow> float64 option" where
  "parse_float s =
     (let (neg, u) = (case s of c # cs \<Rightarrow> if c = CHR ''-'' then (True, cs) else (False, s) | [] \<Rightarrow> (False, []))
      in case to_f64 neg (dec_value u) of F64 b q \<Rightarrow> Some (F64 b q) | _ \<Rightarrow> None)"

section \<open>Writing decimal text\<close>

text \<open>The \<open>n\<close>-digit decimal just below \<open>q\<close>: mantissa and exponent of ten.\<close>

definition dec_below :: "nat \<Rightarrow> rat \<Rightarrow> nat \<times> int" where
  "dec_below n q = (let s = flog 10 q + 1 - int n in (nat \<lfloor>q / 10 powi s\<rfloor>, s))"

definition reads_as :: "rat \<Rightarrow> nat \<Rightarrow> int \<Rightarrow> bool" where
  "reads_as q m s = (f64_round (of_nat m * 10 powi s) = q)"

definition max_digits :: nat where "max_digits = 1400"

text \<open>Try one digit, two digits and so on: take the decimal below or above that reads back as
  \<open>q\<close>, the nearer one when both do (ties to an even last digit).\<close>

function shortest :: "nat \<Rightarrow> rat \<Rightarrow> nat \<times> int" where
  "shortest n q =
     (let (t, s) = dec_below n q;
          down = reads_as q t s; up = reads_as q (Suc t) s; d = q / 10 powi s - of_nat t
      in if down \<and> up then (if d < 1 / 2 \<or> d = 1 / 2 \<and> even t then t else Suc t, s)
         else if down then (t, s)
         else if up then (Suc t, s)
         else if n < max_digits then shortest (Suc n) q
         else (t, s))"
  by pat_completeness auto
termination
  by (relation "measure (\<lambda>(n, q). max_digits - n)") auto

declare shortest.simps [simp del]

fun strip_zeros :: "nat \<Rightarrow> int \<Rightarrow> nat \<times> int" where
  "strip_zeros m k = (if m \<noteq> 0 \<and> m mod 10 = 0 then strip_zeros (m div 10) (k + 1) else (m, k))"

declare strip_zeros.simps [simp del]

definition fmt_plain :: "nat \<Rightarrow> int \<Rightarrow> string" where
  "fmt_plain m k =
     (let ds = nat_digits m; p = nat (- k) in
      if 0 \<le> k then ds @ replicate (nat k) CHR ''0''
      else if p < length ds then take (length ds - p) ds @ CHR ''.'' # drop (length ds - p) ds
      else ''0.'' @ replicate (p - length ds) CHR ''0'' @ ds)"

definition fmt_exp :: "nat \<Rightarrow> int \<Rightarrow> string" where
  "fmt_exp m k =
     (let ds = nat_digits m; x = int (length ds) - 1 + k in
      take 1 ds @ (if length ds = 1 then [] else CHR ''.'' # drop 1 ds) @
      CHR ''e'' # (if x < 0 then CHR ''-'' else CHR ''+'') # nat_digits (nat \<bar>x\<bar>))"

definition fmt_mag :: "rat \<Rightarrow> string" where
  "fmt_mag q =
     (if q = 0 then ''0''
      else let (m0, k0) = shortest 1 q; (m, k) = strip_zeros m0 k0
           in if q < 1 / 10 ^ 6 \<or> 10 ^ 21 \<le> q then fmt_exp m k else fmt_plain m k)"

text \<open>The encoder of \<^verbatim>\<open>encoding/json\<close>: infinities and NaN are an error.\<close>

fun format_float :: "float64 \<Rightarrow> string option" where
  "format_float (F64 s q) = Some ((if s then ''-'' else []) @ fmt_mag q)"
| "format_float _ = None"

section \<open>Logarithms and rounding\<close>

lemma quotient_of_pos:
  assumes "0 < q" "quotient_of q = (n, d)"
  shows "0 < n" "0 < d" "q = of_int n / of_int d"
proof -
  show d: "0 < d" using quotient_of_denom_pos [OF assms(2)] .
  show q: "q = of_int n / of_int d" using quotient_of_div [OF assms(2)] .
  show "0 < n" using assms(1) d unfolding q by (simp add: zero_less_divide_iff)
qed

lemma nat_log_bounds:
  assumes "0 < n" "1 < b"
  shows "rat_of_nat b powi (int (floorlog b (nat n)) - 1) \<le> of_int n"
    and "of_int n < rat_of_nat b powi int (floorlog b (nat n))"
proof -
  have pos: "floorlog b (nat n) > 0" using assms by (simp add: floorlog_def)
  from floorlog_bounds [of "nat n" b] assms
  have "b ^ (floorlog b (nat n) - 1) \<le> nat n" "nat n < b ^ floorlog b (nat n)" by simp_all
  then have "rat_of_nat (b ^ (floorlog b (nat n) - 1)) \<le> rat_of_nat (nat n)"
    "rat_of_nat (nat n) < rat_of_nat (b ^ floorlog b (nat n))" by (simp_all only: of_nat_le_iff of_nat_less_iff)
  moreover have "int (floorlog b (nat n)) - 1 = int (floorlog b (nat n) - 1)" using pos by simp
  ultimately show "rat_of_nat b powi (int (floorlog b (nat n)) - 1) \<le> of_int n"
    "of_int n < rat_of_nat b powi int (floorlog b (nat n))"
    using assms(1) by (simp_all only: power_int_of_nat of_nat_power) simp_all
qed

lemma powi_div: "(x::rat) \<noteq> 0 \<Longrightarrow> x powi a / x powi c = x powi (a - c)"
  by (simp add: power_int_diff)

lemma powi_nat: "0 \<le> k \<Longrightarrow> (x::rat) powi k = x ^ nat k"
  by (simp add: power_int_def)

lemma flog_bounds:
  assumes "0 < q" "1 < b"
  shows "rat_of_nat b powi flog b q \<le> q" "q < rat_of_nat b powi (flog b q + 1)"
proof -
  obtain n d where nd: "quotient_of q = (n, d)" by (cases "quotient_of q")
  note p = quotient_of_pos [OF assms(1) nd]
  let ?B = "rat_of_nat b"
  let ?f = "int (floorlog b (nat n))" and ?g = "int (floorlog b (nat d))"
  have B: "0 < ?B" using assms(2) by simp
  note ln = nat_log_bounds [OF p(1) assms(2)] and ld = nat_log_bounds [OF p(2) assms(2)]
  have up: "q < ?B powi (?f - ?g + 1)"
  proof -
    have "q < ?B powi ?f / of_int d" unfolding p(3) using ln(2) p(2) by (simp add: divide_strict_right_mono)
    also have "\<dots> \<le> ?B powi ?f / ?B powi (?g - 1)"
      using ld(1) B p(2) by (intro divide_left_mono) (auto simp: zero_less_mult_iff)
    also have "\<dots> = ?B powi (?f - (?g - 1))" using B by (intro powi_div) simp
    also have "?f - (?g - 1) = ?f - ?g + 1" by simp
    finally show ?thesis .
  qed
  have lo: "?B powi (?f - ?g - 1) \<le> q"
  proof -
    have "?f - ?g - 1 = (?f - 1) - ?g" by simp
    also have "?B powi \<dots> = ?B powi (?f - 1) / ?B powi ?g"
      using B by (intro powi_div [symmetric]) simp
    also have "\<dots> \<le> ?B powi (?f - 1) / of_int d"
      using ld(2) B p(2) by (intro divide_left_mono) (auto simp: zero_less_mult_iff)
    also have "\<dots> \<le> q" unfolding p(3) using ln(1) p(2) by (simp add: divide_right_mono)
    finally show ?thesis .
  qed
  have eq: "flog b q = (if ?B powi (?f - ?g) \<le> q then ?f - ?g else ?f - ?g - 1)"
    by (simp add: flog_def nd Let_def)
  show "?B powi flog b q \<le> q" using lo by (simp add: eq)
  show "q < ?B powi (flog b q + 1)" using up by (simp add: eq)
qed

lemma powi_mono_rev:
  assumes "1 < (x::rat)" "x powi a < x powi b"
  shows "a < b"
  using assms power_int_increasing [of b a x] by (metis linorder_not_less less_imp_le)

lemma flog_unique:
  assumes "0 < q" "1 < b" "rat_of_nat b powi k \<le> q" "q < rat_of_nat b powi (k + 1)"
  shows "flog b q = k"
proof -
  have B: "1 < rat_of_nat b" using assms(2) by simp
  note fb = flog_bounds [OF assms(1,2)]
  have "flog b q < k + 1" by (rule powi_mono_rev [OF B le_less_trans [OF fb(1) assms(4)]])
  moreover have "k < flog b q + 1" by (rule powi_mono_rev [OF B le_less_trans [OF assms(3) fb(2)]])
  ultimately show ?thesis by simp
qed

lemma round_half_even_int [simp]: "round_half_even (of_int i) = i"
  by (simp add: round_half_even_def)

lemma round_half_even_near: "\<bar>of_int (round_half_even q) - q\<bar> \<le> 1 / 2"
proof -
  have "of_int \<lfloor>q\<rfloor> \<le> q" "q < of_int \<lfloor>q\<rfloor> + 1" using floor_correct [of q] by simp_all
  then show ?thesis by (auto simp: round_half_even_def Let_def abs_le_iff)
qed

lemma round_half_even_mono_int:
  "of_int a \<le> q \<Longrightarrow> a \<le> round_half_even q" "q \<le> of_int a \<Longrightarrow> round_half_even q \<le> a"
proof -
  assume "of_int a \<le> q"
  then have "a \<le> \<lfloor>q\<rfloor>" by (simp add: le_floor_iff)
  then show "a \<le> round_half_even q" by (auto simp: round_half_even_def Let_def)
next
  assume q: "q \<le> of_int a"
  show "round_half_even q \<le> a"
  proof (cases "q = of_int a")
    case False
    with q have "q < of_int a" by simp
    then have "\<lfloor>q\<rfloor> + 1 \<le> a" by (simp add: floor_less_iff add1_zle_eq)
    then show ?thesis by (auto simp: round_half_even_def Let_def)
  qed simp
qed

text \<open>An integral multiple of a power of two that the format resolves is not changed.\<close>

lemma f64_round_exact:
  assumes "0 < q" "q = of_int m * 2 powi e" "ulp_exp q \<le> e"
  shows "f64_round q = q"
proof -
  define u where "u = ulp_exp q"
  define i where "i = m * 2 ^ nat (e - u)"
  have "(2::rat) powi e = 2 powi ((e - u) + u)" by simp
  also have "\<dots> = 2 powi (e - u) * 2 powi u" by (subst power_int_add) simp_all
  also have "(2::rat) powi (e - u) = 2 ^ nat (e - u)" using assms(3) by (intro powi_nat) (simp add: u_def)
  finally have q: "q = of_int i * 2 powi u" using assms(2) by (simp add: i_def)
  have "q / 2 powi u = of_int i" by (simp add: q)
  then have "f64_round q = of_int i * 2 powi u"
    using assms(1) by (simp add: f64_round_def u_def [symmetric])
  with q show ?thesis by simp
qed

lemma f64_round_nonneg: "0 \<le> q \<Longrightarrow> 0 \<le> f64_round q"
  using round_half_even_mono_int(1) [of 0 "q / 2 powi ulp_exp q"] by (simp add: f64_round_def)

text \<open>The rounded significand has at most 53 bits.\<close>

lemma round_significand:
  assumes "0 < q"
  shows "0 \<le> round_half_even (q / 2 powi ulp_exp q)"
    and "round_half_even (q / 2 powi ulp_exp q) \<le> 2 ^ 53"
proof -
  let ?u = "ulp_exp q"
  show "0 \<le> round_half_even (q / 2 powi ?u)"
    by (rule round_half_even_mono_int(1)) (use assms in simp)
  have "q < 2 powi (flog 2 q + 1)" using flog_bounds(2) [OF assms, of 2] by simp
  also have "\<dots> \<le> 2 powi (?u + 53)" by (rule power_int_increasing) (auto simp: ulp_exp_def)
  also have "\<dots> = 2 powi ?u * 2 ^ 53" by (subst power_int_add) simp_all
  finally have "q / 2 powi ?u \<le> of_int (2 ^ 53)" by (simp add: field_simps)
  then show "round_half_even (q / 2 powi ?u) \<le> 2 ^ 53" by (rule round_half_even_mono_int(2))
qed

lemma ulp_exp_small:
  assumes "0 < r" "r < 2 powi (e + 53)" "- 1074 \<le> e"
  shows "ulp_exp r \<le> e"
proof -
  have "flog 2 r < e + 53"
    by (rule powi_mono_rev [of 2]) (use flog_bounds(1) [OF assms(1), of 2] assms(2) in simp_all)
  then show ?thesis using assms(3) by (simp add: ulp_exp_def)
qed

lemma f64_round_idem: "0 \<le> q \<Longrightarrow> f64_round (f64_round q) = f64_round q"
proof (cases "q = 0")
  case False
  assume "0 \<le> q"
  with False have q: "0 < q" by simp
  define u where "u = ulp_exp q"
  define m where "m = round_half_even (q / 2 powi u)"
  have r: "f64_round q = of_int m * 2 powi u" using False by (simp add: f64_round_def u_def m_def)
  have m: "0 \<le> m" "m \<le> 2 ^ 53" using round_significand [OF q] by (simp_all add: m_def u_def)
  have u: "- 1074 \<le> u" by (simp add: u_def ulp_exp_def)
  consider "m = 0" | "0 < m" "m < 2 ^ 53" | "m = 2 ^ 53" using m by linarith
  then show ?thesis
  proof cases
    case 1
    then have "f64_round q = 0" by (simp add: r)
    then show ?thesis by (simp add: f64_round_def [of 0])
  next
    case 2
    have "of_int m * 2 powi u < (of_int (2 ^ 53) :: rat) * 2 powi u"
      by (rule mult_strict_right_mono) (simp_all only: of_int_less_iff 2, simp)
    also have "\<dots> = 2 powi (u + 53)" by (subst power_int_add) simp_all
    finally have "ulp_exp (of_int m * 2 powi u) \<le> u" using 2 u by (intro ulp_exp_small) simp_all
    then show ?thesis unfolding r using 2 by (intro f64_round_exact) simp_all
  next
    case 3
    have eq: "(of_int m * 2 powi u :: rat) = of_int (2 ^ 52) * 2 powi (u + 1)"
      by (subst power_int_add) (simp_all add: 3)
    have "(of_int (2 ^ 52) * 2 powi (u + 1) :: rat) = 2 powi (u + 53)"
      by (subst power_int_add, simp, subst power_int_add [of _ u 53]) simp_all
    also have "\<dots> < 2 powi (u + 1 + 53)" by (rule power_int_strict_increasing) simp_all
    finally have "ulp_exp (of_int m * 2 powi u) \<le> u + 1"
      unfolding eq using u by (intro ulp_exp_small) simp_all
    then show ?thesis unfolding r eq by (intro f64_round_exact [where m = "2 ^ 52"]) (simp_all add: eq)
  qed
qed (simp add: f64_round_def)

lemma to_f64_finite: "0 \<le> q \<Longrightarrow> to_f64 neg q = F64 s r \<Longrightarrow> f64_finite (F64 s r)"
  by (auto simp: to_f64_def Let_def f64_mag_def f64_round_idem f64_round_nonneg split: if_splits)

section \<open>Shortest decimals read back\<close>

text \<open>Every finite number is a decimal fraction with at most 1074 places.\<close>

lemma f64_mag_decimal:
  assumes "f64_mag q" "0 < q" "1074 \<le> N"
  obtains i :: nat where "q * 10 ^ N = of_nat i"
proof -
  define u where "u = ulp_exp q"
  define m where "m = round_half_even (q / 2 powi u)"
  have q: "q = of_int m * 2 powi u" using assms by (auto simp: f64_mag_def f64_round_def m_def u_def)
  have m: "0 \<le> m" using round_significand [OF assms(2)] by (simp add: m_def u_def)
  have u: "0 \<le> u + int N" using assms(3) by (simp add: u_def ulp_exp_def)
  have "(2::rat) powi u * 2 ^ N = 2 powi (u + int N)" by (subst power_int_add) simp_all
  also have "\<dots> = 2 ^ nat (u + int N)" by (rule powi_nat [OF u])
  finally have e: "(2::rat) powi u * 2 ^ N = 2 ^ nat (u + int N)" .
  have "q * 10 ^ N = of_int m * (2 powi u * 2 ^ N) * 5 ^ N"
    unfolding q by (simp add: power_mult_distrib [symmetric] mult.assoc)
  also have "\<dots> = of_nat (nat m * 2 ^ nat (u + int N) * 5 ^ N)" unfolding e using m by simp
  finally show thesis by (rule that)
qed

lemma flog10_bound: "0 < q \<Longrightarrow> q < 2 ^ 1024 \<Longrightarrow> flog 10 q < 309"
proof -
  assume q: "0 < q" "q < 2 ^ 1024"
  have "rat_of_nat 10 powi flog 10 q \<le> q" using flog_bounds(1) [OF q(1), of 10] by simp
  also have "q < 2 ^ 1024" by (rule q)
  also have "(2::rat) ^ 1024 \<le> 10 ^ 309" by simp
  also have "\<dots> = 10 powi 309" by simp
  finally show ?thesis by (intro powi_mono_rev [of 10]) simp_all
qed

lemma dec_below_exact:
  assumes "f64_mag q" "0 < q" "dec_below max_digits q = (t, s)"
  shows "of_nat t * 10 powi s = q"
proof -
  have s: "s = flog 10 q + 1 - int max_digits" and t: "t = nat \<lfloor>q / 10 powi s\<rfloor>"
    using assms(3) by (auto simp: dec_below_def Let_def)
  have "flog 10 q < 309" using assms(1,2) by (intro flog10_bound) (simp_all add: f64_mag_def)
  then have N: "1074 \<le> nat (- s)" "0 \<le> - s" by (simp_all add: s max_digits_def)
  obtain i where i: "q * 10 ^ nat (- s) = of_nat i" by (rule f64_mag_decimal [OF assms(1,2) N(1)])
  have "(10::rat) powi s = inverse (10 powi (- s))" by (simp add: power_int_minus)
  also have "\<dots> = inverse (10 ^ nat (- s))" by (simp only: powi_nat [OF N(2)])
  finally have p: "(10::rat) powi s = inverse (10 ^ nat (- s))" .
  have "q / 10 powi s = of_nat i" unfolding p by (simp only: divide_inverse inverse_inverse_eq i)
  then have "t = i" by (simp add: t)
  then show ?thesis unfolding p using i by (simp add: field_simps)
qed

lemma shortest_reads:
  assumes "f64_mag q" "0 < q" "n \<le> max_digits"
  shows "case shortest n q of (m, s) \<Rightarrow> f64_round (of_nat m * 10 powi s) = q"
  using assms
proof (induction n q rule: shortest.induct)
  case (1 n q)
  obtain t s where ts: "dec_below n q = (t, s)" by (cases "dec_below n q")
  show ?case
  proof (cases "reads_as q t s \<or> reads_as q (Suc t) s")
    case True
    then show ?thesis
      by (subst shortest.simps) (auto simp: ts Let_def reads_as_def)
  next
    case False
    have "n < max_digits"
    proof (rule ccontr)
      assume "\<not> n < max_digits"
      then have "of_nat t * 10 powi s = q" using 1(4) ts by (intro dec_below_exact [OF 1(2,3)]) simp
      then have "reads_as q t s" using 1(2) by (simp add: reads_as_def f64_mag_def)
      with False show False by simp
    qed
    then have "shortest n q = shortest (Suc n) q"
      using False by (subst shortest.simps) (simp add: ts)
    moreover have "case shortest (Suc n) q of (m, s) \<Rightarrow> f64_round (of_nat m * 10 powi s) = q"
      by (rule 1(1) [OF ts [symmetric] refl refl refl]) (use False \<open>n < max_digits\<close> 1(2,3) in simp_all)
    ultimately show ?thesis by simp
  qed
qed

lemma strip_zeros_value:
  "strip_zeros m k = (m', k') \<Longrightarrow> of_nat m' * (10::rat) powi k' = of_nat m * 10 powi k"
proof (induction m k rule: strip_zeros.induct)
  case (1 m k)
  show ?case
  proof (cases "m \<noteq> 0 \<and> m mod 10 = 0")
    case True
    then obtain j where m: "m = j * 10" by (metis mod_0_imp_dvd dvd_def mult.commute)
    with True 1 have "of_nat m' * (10::rat) powi k' = of_nat j * 10 powi (k + 1)"
      by (subst (asm) strip_zeros.simps) (simp split: if_splits)
    then show ?thesis by (simp add: m power_int_add)
  next
    case False
    then show ?thesis using 1(2) by (subst (asm) strip_zeros.simps) auto
  qed
qed

section \<open>The value of written text\<close>

lemma digits_val_append: "digits_val (a @ b) = digits_val a * 10 ^ length b + digits_val b"
proof (induction b rule: rev_induct)
  case (snoc c b)
  have "digits_val (a @ b @ [c]) = 10 * digits_val (a @ b) + digit_val c"
    using digits_val_snoc [of "a @ b" c] by simp
  then show ?case using snoc by (simp add: algebra_simps)
qed (simp add: digits_val_def)

lemma zeros_props: "list_all is_digit (replicate n CHR ''0'')" "digits_val (replicate n CHR ''0'') = 0"
proof -
  have "is_digit CHR ''0''" "digit_val CHR ''0'' = 0" by (simp_all add: is_digit_def digit_val_def)
  moreover have "digits_val (replicate (Suc n) CHR ''0'') = 10 * digits_val (replicate n CHR ''0'') + digit_val CHR ''0''" for n
    using digits_val_snoc [of "replicate n CHR ''0''" "CHR ''0''"] by (simp add: replicate_append_same)
  ultimately show "list_all is_digit (replicate n CHR ''0'')" "digits_val (replicate n CHR ''0'') = 0"
    by (simp_all add: list_all_iff, induction n) (simp_all add: digits_val_def)
qed

lemma digits_val_0 [simp]: "digits_val ''0'' = 0"
  by (simp add: digits_val_def digit_val_def)

lemma not_digits [simp]: "\<not> is_digit CHR ''.''" "\<not> is_digit CHR ''e''" "is_digit CHR ''0''"
  by (simp_all add: is_digit_def)

lemma takeWhile_digits:
  assumes "list_all is_digit ds"
  shows "takeWhile is_digit (ds @ r) = ds @ takeWhile is_digit r" "dropWhile is_digit (ds @ r) = dropWhile is_digit r"
    "takeWhile is_digit ds = ds" "dropWhile is_digit ds = []"
  using assms by (auto simp: list_all_iff takeWhile_append2 dropWhile_append2)

lemma dec_value_int: "list_all is_digit ip \<Longrightarrow> dec_value ip = of_nat (digits_val ip)"
  by (simp add: dec_value_def takeWhile_digits frac_part_def)

lemma dec_value_frac:
  "list_all is_digit ip \<Longrightarrow> list_all is_digit fp \<Longrightarrow>
     dec_value (ip @ CHR ''.'' # fp) = of_nat (digits_val (ip @ fp)) * 10 powi (- int (length fp))"
  by (simp add: dec_value_def takeWhile_digits frac_part_def)

lemma dec_value_exp:
  assumes "list_all is_digit ip" "list_all is_digit fp" "list_all is_digit xs" "xs \<noteq> []" "sg = CHR ''-'' \<or> sg = CHR ''+''"
  shows "dec_value (ip @ (if fp = [] then [] else CHR ''.'' # fp) @ CHR ''e'' # sg # xs) =
    of_nat (digits_val (ip @ fp)) * 10 powi ((if sg = CHR ''-'' then - int (digits_val xs) else int (digits_val xs)) - int (length fp))"
  using assms by (auto simp: dec_value_def takeWhile_digits frac_part_def Let_def)

lemma split_digits: "take n ds @ drop n ds = ds" "list_all is_digit ds \<Longrightarrow> list_all is_digit (take n ds)"
  "list_all is_digit ds \<Longrightarrow> list_all is_digit (drop n ds)"
  by (auto simp: list_all_iff dest: in_set_takeD in_set_dropD)

lemma dec_value_fmt_plain: "dec_value (fmt_plain m k) = of_nat m * 10 powi k"
proof -
  let ?ds = "nat_digits m" and ?p = "nat (- k)"
  note d = nat_digits_all_digits [of m]
  consider "0 \<le> k" | "k < 0" "?p < length ?ds" | "k < 0" "length ?ds \<le> ?p" by linarith
  then show ?thesis
  proof cases
    case 1
    then show ?thesis
      using d zeros_props by (simp add: fmt_plain_def dec_value_int digits_val_append powi_nat [OF 1])
  next
    case 2
    let ?n = "length ?ds - ?p"
    have len: "int (length (drop ?n ?ds)) = - k" using 2 by simp
    have "dec_value (fmt_plain m k) = dec_value (take ?n ?ds @ CHR ''.'' # drop ?n ?ds)"
      using 2 by (simp add: fmt_plain_def Let_def)
    also have "\<dots> = of_nat (digits_val ?ds) * 10 powi (- int (length (drop ?n ?ds)))"
      using dec_value_frac [OF split_digits(2,3) [OF d]] by (simp only: split_digits(1))
    finally show ?thesis by (simp only: len digits_val_nat_digits minus_minus)
  next
    case 3
    let ?z = "replicate (?p - length ?ds) CHR ''0''"
    have len: "int (length (?z @ ?ds)) = - k" using 3 by simp
    have f: "list_all is_digit (?z @ ?ds)" using d zeros_props by simp
    have "dec_value (fmt_plain m k) = dec_value (''0'' @ CHR ''.'' # (?z @ ?ds))"
      using 3 by (simp add: fmt_plain_def Let_def)
    also have "\<dots> = of_nat (digits_val (''0'' @ ?z @ ?ds)) * 10 powi (- int (length (?z @ ?ds)))"
      by (rule dec_value_frac [OF _ f]) simp
    also have "digits_val (''0'' @ ?z @ ?ds) = m"
      using zeros_props(2) by (simp only: digits_val_append) simp
    finally show ?thesis by (simp only: len minus_minus)
  qed
qed

lemma dec_value_fmt_exp: "dec_value (fmt_exp m k) = of_nat m * 10 powi k"
proof -
  let ?ds = "nat_digits m"
  define x where "x = int (length ?ds) - 1 + k"
  note d = nat_digits_all_digits [of m]
  have ne: "?ds \<noteq> []" by simp
  then have len: "int (length (drop 1 ?ds)) = int (length ?ds) - 1" by (cases ?ds) auto
  have one: "(length ?ds = 1) = (drop 1 ?ds = [])" using ne by (cases ?ds) auto
  define sg where "sg = (if x < 0 then CHR ''-'' else CHR ''+'')"
  define xs where "xs = nat_digits (nat \<bar>x\<bar>)"
  define ip where "ip = take 1 ?ds"
  define fp where "fp = drop 1 ?ds"
  have ipfp: "ip @ fp = ?ds" by (simp add: ip_def fp_def)
  have fmt: "fmt_exp m k = ip @ (if fp = [] then [] else CHR ''.'' # fp) @ CHR ''e'' # sg # xs"
    unfolding fmt_exp_def Let_def one x_def sg_def xs_def ip_def fp_def by simp
  have "(if sg = CHR ''-'' then - int (digits_val xs) else int (digits_val xs)) = x"
    by (simp add: sg_def xs_def)
  moreover have "list_all is_digit ip" "list_all is_digit fp" "list_all is_digit xs" "xs \<noteq> []" "sg = CHR ''-'' \<or> sg = CHR ''+''"
    using split_digits(2,3) [OF d] nat_digits_all_digits by (simp_all add: ip_def fp_def xs_def sg_def)
  ultimately have "dec_value (fmt_exp m k) = of_nat (digits_val (ip @ fp)) * 10 powi (x - int (length fp))"
    unfolding fmt using dec_value_exp [of ip fp xs sg] by simp
  moreover have "x - int (length fp) = k" unfolding fp_def len by (simp add: x_def)
  ultimately show ?thesis by (simp add: ipfp)
qed

lemma fmt_mag_cases:
  assumes "f64_mag q" "q \<noteq> 0"
  obtains m k where "0 < m" "f64_round (of_nat m * 10 powi k) = q" "fmt_mag q = fmt_exp m k \<or> fmt_mag q = fmt_plain m k"
proof -
  have pos: "0 < q" using assms by (simp add: f64_mag_def)
  obtain m0 k0 m k where mk: "shortest 1 q = (m0, k0)" "strip_zeros m0 k0 = (m, k)" by (metis prod.exhaust)
  have "f64_round (of_nat m0 * 10 powi k0) = q"
    using shortest_reads [OF assms(1) pos, of 1] unfolding mk(1) by (simp add: max_digits_def)
  then have r: "f64_round (of_nat m * 10 powi k) = q" by (simp only: strip_zeros_value [OF mk(2)])
  have "0 < m"
  proof (rule ccontr)
    assume "\<not> 0 < m"
    then have "f64_round 0 = q" using r by simp
    then show False using assms(2) by (simp add: f64_round_def)
  qed
  moreover have "fmt_mag q = fmt_exp m k \<or> fmt_mag q = fmt_plain m k"
    unfolding fmt_mag_def using assms(2) by (simp add: mk del: One_nat_def)
  ultimately show thesis using that r by blast
qed

lemma fmt_mag_reads: "f64_mag q \<Longrightarrow> f64_round (dec_value (fmt_mag q)) = q"
proof (cases "q = 0")
  case True
  then show ?thesis using dec_value_int [of "''0''"] by (simp add: fmt_mag_def f64_round_def)
next
  case False
  assume "f64_mag q"
  then show ?thesis using False
    by (rule fmt_mag_cases) (auto simp: dec_value_fmt_plain dec_value_fmt_exp)
qed

text \<open>The shape of written magnitudes: a number of the JSON grammar.\<close>

definition json_int :: "string \<Rightarrow> bool" where
  "json_int ip \<longleftrightarrow> ip \<noteq> [] \<and> list_all is_digit ip \<and> (hd ip = CHR ''0'' \<longrightarrow> tl ip = [])"

definition num_text :: "string \<Rightarrow> string \<Rightarrow> char \<Rightarrow> string \<Rightarrow> string" where
  "num_text ip fp sg xs =
     ip @ (if fp = [] then [] else CHR ''.'' # fp) @ (if xs = [] then [] else CHR ''e'' # sg # xs)"

definition num_parts :: "string \<Rightarrow> string \<Rightarrow> char \<Rightarrow> string \<Rightarrow> bool" where
  "num_parts ip fp sg xs \<longleftrightarrow> json_int ip \<and> list_all is_digit fp \<and> list_all is_digit xs \<and> (sg = CHR ''-'' \<or> sg = CHR ''+'')"

lemma nat_digits_hd_nonzero: "0 < m \<Longrightarrow> hd (nat_digits m) \<noteq> CHR ''0''"
proof (induction m rule: nat_digits.induct)
  case (1 n)
  show ?case
  proof (cases "n < 10")
    case True
    then have "digit_val (digit_char n) \<noteq> 0" using 1(2) by (simp add: digit_char_props)
    then have "digit_char n \<noteq> CHR ''0''" by (auto simp: digit_val_def)
    then show ?thesis using True by (subst nat_digits.simps) simp
  next
    case False
    then show ?thesis using 1 by (subst nat_digits.simps) (simp add: hd_append)
  qed
qed

lemma fmt_plain_shape:
  assumes "0 < m"
  shows "\<exists>ip fp sg xs. fmt_plain m k = num_text ip fp sg xs \<and> num_parts ip fp sg xs"
proof -
  let ?ds = "nat_digits m" and ?p = "nat (- k)"
  note d = nat_digits_all_digits [of m] and h = nat_digits_hd_nonzero [OF assms]
  consider "0 \<le> k" | "k < 0" "?p < length ?ds" | "k < 0" "length ?ds \<le> ?p" by linarith
  then show ?thesis
  proof cases
    case 1
    then show ?thesis using d h zeros_props
      by (intro exI [of _ "?ds @ replicate (nat k) CHR ''0''"] exI [of _ "[]"] exI [of _ "CHR ''+''"])
         (auto simp: fmt_plain_def num_text_def num_parts_def json_int_def hd_append)
  next
    case 2
    let ?n = "length ?ds - ?p"
    have "take ?n ?ds \<noteq> []" "hd (take ?n ?ds) = hd ?ds" "drop ?n ?ds \<noteq> []" using 2 by (auto simp: hd_take)
    then show ?thesis using d h 2 split_digits(2,3) [OF d]
      by (intro exI [of _ "take ?n ?ds"] exI [of _ "drop ?n ?ds"] exI [of _ "CHR ''+''"] exI [of _ "[]"])
         (auto simp: fmt_plain_def num_text_def num_parts_def json_int_def Let_def)
  next
    case 3
    then show ?thesis using d zeros_props
      by (intro exI [of _ "''0''"] exI [of _ "replicate (?p - length ?ds) CHR ''0'' @ ?ds"] exI [of _ "CHR ''+''"] exI [of _ "[]"])
         (auto simp: fmt_plain_def num_text_def num_parts_def json_int_def Let_def)
  qed
qed

lemma fmt_exp_shape:
  assumes "0 < m"
  shows "\<exists>ip fp sg xs. fmt_exp m k = num_text ip fp sg xs \<and> num_parts ip fp sg xs"
proof -
  obtain c cs where ds: "nat_digits m = c # cs" "is_digit c" using nat_digits_hd by blast
  have "c \<noteq> CHR ''0''" "list_all is_digit cs"
    using nat_digits_hd_nonzero [OF assms] nat_digits_all_digits [of m] by (simp_all add: ds)
  moreover define x where "x = int (length (nat_digits m)) - 1 + k"
  moreover have "list_all is_digit (nat_digits (nat \<bar>x\<bar>))" by (rule nat_digits_all_digits)
  ultimately show ?thesis
    by (intro exI [of _ "[c]"] exI [of _ cs] exI [of _ "if x < 0 then CHR ''-'' else CHR ''+''"] exI [of _ "nat_digits (nat \<bar>x\<bar>)"])
       (auto simp: fmt_exp_def num_text_def num_parts_def json_int_def Let_def ds)
qed

lemma fmt_mag_shape:
  assumes "f64_mag q"
  shows "\<exists>ip fp sg xs. fmt_mag q = num_text ip fp sg xs \<and> num_parts ip fp sg xs"
proof (cases "q = 0")
  case True
  then show ?thesis
    by (intro exI [of _ "''0''"] exI [of _ "[]"] exI [of _ "CHR ''+''"])
       (simp add: fmt_mag_def num_text_def num_parts_def json_int_def)
next
  case False
  with assms show ?thesis
    by (rule fmt_mag_cases) (use fmt_plain_shape fmt_exp_shape in metis)
qed

lemma num_text_hd: "num_parts ip fp sg xs \<Longrightarrow> \<exists>c cs. num_text ip fp sg xs = c # cs \<and> is_digit c"
  by (cases ip) (auto simp: num_parts_def json_int_def num_text_def)

lemma dec_value_nonneg: "0 \<le> dec_value s"
  by (simp add: dec_value_def Let_def split: prod.splits)

text \<open>Writing and reading a finite number gives the number back.\<close>

lemma parse_format:
  assumes "f64_finite x" "format_float x = Some s"
  shows "parse_float s = Some x"
proof -
  obtain neg q where x: "x = F64 neg q" "f64_mag q" using assms by (cases x) auto
  obtain c cs where c: "fmt_mag q = c # cs" "is_digit c"
    using fmt_mag_shape [OF x(2)] num_text_hd by metis
  have "to_f64 neg (dec_value (c # cs)) = F64 neg q"
    using fmt_mag_reads [OF x(2)] x(2) by (simp add: to_f64_def c f64_mag_def)
  moreover have "s = (if neg then CHR ''-'' # c # cs else c # cs)" using assms(2) c by (simp add: x split: if_splits)
  ultimately show ?thesis
    using is_digit_not_sign [OF c(2)] by (cases neg) (simp_all add: parse_float_def x)
qed

lemma parse_float_finite: "parse_float s = Some x \<Longrightarrow> f64_finite x"
proof -
  assume p: "parse_float s = Some x"
  define nu where "nu = (case s of c # cs \<Rightarrow> if c = CHR ''-'' then (True, cs) else (False, s) | [] \<Rightarrow> (False, []))"
  from p have "to_f64 (fst nu) (dec_value (snd nu)) = x \<and> (\<exists>b q. x = F64 b q)"
    by (auto simp: parse_float_def nu_def [symmetric] split: prod.splits float64.splits) metis
  then show "f64_finite x" using to_f64_finite [OF dec_value_nonneg] by metis
qed

interpretation float_text: codec f64_finite "\<lambda>x. the (format_float x)" parse_float
proof
  fix x assume f: "f64_finite x"
  then obtain s where "format_float x = Some s" by (cases x) auto
  with f show "parse_float (the (format_float x)) = Some x" by (simp add: parse_format)
qed

text \<open>Numbers with at most 53 significant bits are read exactly.\<close>

lemma f64_round_dyadic:
  assumes "0 < m" "m < 2 ^ 53" "- 1074 \<le> e"
  shows "f64_round (of_int m * 2 powi e) = of_int m * 2 powi e"
proof (rule f64_round_exact [OF _ refl])
  show "ulp_exp (of_int m * 2 powi e) \<le> e"
  proof (rule ulp_exp_small)
    have "rat_of_int m < 2 ^ 53" using assms(2) by (metis of_int_less_iff of_int_numeral of_int_power)
    then have "of_int m * 2 powi e < 2 ^ 53 * (2::rat) powi e" by simp
    also have "\<dots> = 2 powi (e + 53)" by (subst power_int_add) (simp_all add: mult.commute)
    finally show "of_int m * 2 powi e < (2::rat) powi (e + 53)" .
  qed (use assms in simp_all)
qed (use assms in simp)

lemma parse_float_exactI:
  "dec_value (c # cs) = q \<Longrightarrow> c \<noteq> CHR ''-'' \<Longrightarrow> f64_round q = q \<Longrightarrow> q < 2 ^ 1024 \<Longrightarrow> parse_float (c # cs) = Some (F64 False q)"
  by (simp add: parse_float_def to_f64_def)

lemma parse_float_2: "parse_float ''2'' = Some (F64 False 2)"
proof (rule parse_float_exactI)
  show "dec_value ''2'' = 2" by (simp add: dec_value_def is_digit_def digits_val_def digit_val_def frac_part_def)
  show "f64_round 2 = 2" using f64_round_dyadic [of 2 0] by simp
qed simp_all

lemma parse_float_101_5: "parse_float ''101.5'' = Some (F64 False (203 / 2))"
proof (rule parse_float_exactI)
  show "dec_value ''101.5'' = 203 / 2"
    by (simp add: dec_value_def is_digit_def digits_val_def digit_val_def frac_part_def power_int_minus)
  show "f64_round (203 / 2) = 203 / 2" using f64_round_dyadic [of 203 "- 1"] by (simp add: power_int_minus)
qed simp_all

end
