(* ===== verification/Json.thy ===== *)
theory Json
  imports Float64
begin

text \<open>
  The part of \<^verbatim>\<open>encoding/json\<close> the server uses.  Reading: a tokenizer and a pushdown scanner (the
  stack of open arrays and objects, limited to 10000), string unescaping with UTF-8 repair,
  and the assignment of object members to struct fields with Go's rules: names match up to
  simple case folding, the last member wins, \<^verbatim>\<open>null\<close> leaves the field alone, and a value of the
  wrong kind is an error that does not stop the other members.  Writing: the escaping of strings
  (with HTML escaping, the default) and flat objects.
\<close>

section \<open>Bytes and UTF-8\<close>

abbreviation byte :: "char \<Rightarrow> nat" where
  "byte c \<equiv> of_char c"

definition is_cont :: "char \<Rightarrow> bool" where
  "is_cont c \<longleftrightarrow> 128 \<le> byte c \<and> byte c \<le> 191"

definition second_ok :: "char \<Rightarrow> char \<Rightarrow> bool" where
  "second_ok a b \<longleftrightarrow>
     (if byte a = 224 then 160 \<le> byte b \<and> byte b \<le> 191
      else if byte a = 237 then 128 \<le> byte b \<and> byte b \<le> 159
      else if byte a = 240 then 144 \<le> byte b \<and> byte b \<le> 191
      else if byte a = 244 then 128 \<le> byte b \<and> byte b \<le> 143
      else is_cont b)"

text \<open>Length of the well-formed multi-byte sequence at the head of a string, 0 if there is none
  (\<^verbatim>\<open>utf8.DecodeRune\<close> reports an encoding error of width one).\<close>

fun utf8_len :: "string \<Rightarrow> nat" where
  "utf8_len (a # b # r) =
     (if 194 \<le> byte a \<and> byte a \<le> 223 then (if is_cont b then 2 else 0)
      else (case r of
        [] \<Rightarrow> 0
      | c # r' \<Rightarrow>
          if 224 \<le> byte a \<and> byte a \<le> 239 then (if second_ok a b \<and> is_cont c then 3 else 0)
          else (case r' of
            [] \<Rightarrow> 0
          | d # _ \<Rightarrow>
              if 240 \<le> byte a \<and> byte a \<le> 244 \<and> second_ok a b \<and> is_cont c \<and> is_cont d then 4 else 0)))"
| "utf8_len _ = 0"

definition encode_rune :: "nat \<Rightarrow> string" where
  "encode_rune r =
     (if r < 128 then [char_of r]
      else if r < 2048 then [char_of (192 + r div 64), char_of (128 + r mod 64)]
      else if r < 65536 then
        [char_of (224 + r div 4096), char_of (128 + r div 64 mod 64), char_of (128 + r mod 64)]
      else [char_of (240 + r div 262144), char_of (128 + r div 4096 mod 64),
            char_of (128 + r div 64 mod 64), char_of (128 + r mod 64)])"

definition rune_error :: string where
  "rune_error = [CHR 0xEF, CHR 0xBF, CHR 0xBD]"

section \<open>Values and tokens\<close>

datatype json =
    JNull
  | JBool bool
  | JNum string
  | JStr string
  | JArr "json list"
  | JObj "(string \<times> json) list"

datatype token = TLBrace | TRBrace | TLBrack | TRBrack | TColon | TComma | TVal json

definition is_space :: "char \<Rightarrow> bool" where
  "is_space c \<longleftrightarrow> c = CHR '' '' \<or> byte c = 9 \<or> byte c = 10 \<or> byte c = 13"

definition hex_val :: "char \<Rightarrow> nat option" where
  "hex_val c =
     (let n = byte c in
      if 48 \<le> n \<and> n \<le> 57 then Some (n - 48)
      else if 97 \<le> n \<and> n \<le> 102 then Some (n - 87)
      else if 65 \<le> n \<and> n \<le> 70 then Some (n - 55)
      else None)"

fun hex4 :: "string \<Rightarrow> (nat \<times> string) option" where
  "hex4 (a # b # c # d # r) =
     (case (hex_val a, hex_val b, hex_val c, hex_val d) of
        (Some w, Some x, Some y, Some z) \<Rightarrow> Some (4096 * w + 256 * x + 16 * y + z, r)
      | _ \<Rightarrow> None)"
| "hex4 _ = None"

text \<open>One piece of a string literal: the end, a decoded chunk, or a syntax error.\<close>

datatype piece = StrEnd string | StrChunk string string | StrBad

definition simple_escape :: "char \<Rightarrow> char option" where
  "simple_escape e =
     (if e = CHR 0x22 \<or> e = CHR 0x5C \<or> e = CHR ''/'' then Some e
      else if e = CHR ''b'' then Some CHR 0x08
      else if e = CHR ''f'' then Some CHR 0x0C
      else if e = CHR ''n'' then Some CHR 0x0A
      else if e = CHR ''r'' then Some CHR 0x0D
      else if e = CHR ''t'' then Some CHR 0x09
      else None)"

text \<open>\<open>\uXXXX\<close>, with surrogate pairs; a lone surrogate becomes the replacement character.\<close>

definition unicode_escape :: "nat \<Rightarrow> string \<Rightarrow> piece" where
  "unicode_escape u r =
     (if u < 55296 \<or> 57343 < u then StrChunk (encode_rune u) r
      else case r of
        CHR 0x5C # CHR ''u'' # r' \<Rightarrow>
          (case hex4 r' of
             Some (v, r'') \<Rightarrow>
               if u < 56320 \<and> 56320 \<le> v \<and> v \<le> 57343
               then StrChunk (encode_rune ((u - 55296) * 1024 + (v - 56320) + 65536)) r''
               else StrChunk rune_error r
           | None \<Rightarrow> StrChunk rune_error r)
      | _ \<Rightarrow> StrChunk rune_error r)"

fun str_piece :: "string \<Rightarrow> piece" where
  "str_piece [] = StrBad"
| "str_piece (c # cs) =
     (if c = CHR 0x22 then StrEnd cs
      else if c = CHR 0x5C then
        (case cs of
           [] \<Rightarrow> StrBad
         | e # r \<Rightarrow>
             if e = CHR ''u'' then (case hex4 r of None \<Rightarrow> StrBad | Some (u, r') \<Rightarrow> unicode_escape u r')
             else (case simple_escape e of None \<Rightarrow> StrBad | Some x \<Rightarrow> StrChunk [x] r))
      else if byte c < 32 then StrBad
      else if byte c < 128 then StrChunk [c] cs
      else let n = utf8_len (c # cs) in
           if n = 0 then StrChunk rune_error cs else StrChunk (take n (c # cs)) (drop n (c # cs)))"

lemma hex4_shorter: "hex4 s = Some (u, r) \<Longrightarrow> length r < length s"
  by (cases s rule: hex4.cases) (auto split: option.splits)

lemma unicode_escape_shorter: "unicode_escape u r = StrChunk out r' \<Longrightarrow> length r' \<le> length r"
  by (auto simp: unicode_escape_def dest!: hex4_shorter split: if_splits list.splits char.splits bool.splits option.splits)

lemma str_piece_shorter: "str_piece s = StrChunk out r \<Longrightarrow> length r < length s"
  by (cases s) (auto dest!: unicode_escape_shorter hex4_shorter simp: Let_def split: if_splits list.splits option.splits)

function parse_str :: "string \<Rightarrow> (string \<times> string) option" where
  "parse_str s =
     (case str_piece s of
        StrBad \<Rightarrow> None
      | StrEnd r \<Rightarrow> Some ([], r)
      | StrChunk out r \<Rightarrow> map_option (\<lambda>(t, r'). (out @ t, r')) (parse_str r))"
  by pat_completeness auto
termination
  by (relation "measure length") (auto dest: str_piece_shorter)

declare parse_str.simps [simp del]

section \<open>Numbers\<close>

definition num_int :: "string \<Rightarrow> (string \<times> string) option" where
  "num_int s =
     (case s of
        [] \<Rightarrow> None
      | c # cs \<Rightarrow>
          if c = CHR ''0'' then Some ([c], cs)
          else if is_digit c then Some (takeWhile is_digit s, dropWhile is_digit s)
          else None)"

definition num_frac :: "string \<Rightarrow> (string \<times> string) option" where
  "num_frac s =
     (case s of
        [] \<Rightarrow> Some ([], s)
      | c # cs \<Rightarrow>
          if c \<noteq> CHR ''.'' then Some ([], s)
          else let ds = takeWhile is_digit cs in if ds = [] then None else Some (c # ds, dropWhile is_digit cs))"

definition num_exp :: "string \<Rightarrow> (string \<times> string) option" where
  "num_exp s =
     (case s of
        [] \<Rightarrow> Some ([], s)
      | c # cs \<Rightarrow>
          if c \<noteq> CHR ''e'' \<and> c \<noteq> CHR ''E'' then Some ([], s)
          else let (sg, r) = (case cs of x # xs \<Rightarrow> if x = CHR ''+'' \<or> x = CHR ''-'' then ([x], xs) else ([], cs) | [] \<Rightarrow> ([], []));
                   ds = takeWhile is_digit r
               in if ds = [] then None else Some (c # sg @ ds, dropWhile is_digit r))"

definition parse_unsigned :: "string \<Rightarrow> (string \<times> string) option" where
  "parse_unsigned s =
     (case num_int s of None \<Rightarrow> None
      | Some (a, r1) \<Rightarrow>
          (case num_frac r1 of None \<Rightarrow> None
          | Some (b, r2) \<Rightarrow>
              (case num_exp r2 of None \<Rightarrow> None
              | Some (c, r3) \<Rightarrow> Some (a @ b @ c, r3))))"

definition parse_num :: "string \<Rightarrow> (string \<times> string) option" where
  "parse_num s =
     (case s of
        [] \<Rightarrow> None
      | c # cs \<Rightarrow>
          if c = CHR ''-'' then map_option (\<lambda>(a, r). (c # a, r)) (parse_unsigned cs)
          else parse_unsigned s)"

section \<open>The scanner\<close>

definition lit_token :: "string \<Rightarrow> json \<Rightarrow> string \<Rightarrow> (token \<times> string) option" where
  "lit_token l v s = (if prefix l s then Some (TVal v, drop (length l) s) else None)"

definition next_token :: "string \<Rightarrow> (token \<times> string) option" where
  "next_token s =
     (case dropWhile is_space s of
        [] \<Rightarrow> None
      | c # cs \<Rightarrow>
          if c = CHR ''{'' then Some (TLBrace, cs)
          else if c = CHR ''}'' then Some (TRBrace, cs)
          else if c = CHR ''['' then Some (TLBrack, cs)
          else if c = CHR '']'' then Some (TRBrack, cs)
          else if c = CHR '':'' then Some (TColon, cs)
          else if c = CHR '','' then Some (TComma, cs)
          else if c = CHR 0x22 then map_option (\<lambda>(t, r). (TVal (JStr t), r)) (parse_str cs)
          else if c = CHR ''t'' then lit_token ''true'' (JBool True) (c # cs)
          else if c = CHR ''f'' then lit_token ''false'' (JBool False) (c # cs)
          else if c = CHR ''n'' then lit_token ''null'' JNull (c # cs)
          else map_option (\<lambda>(t, r). (TVal (JNum t), r)) (parse_num (c # cs)))"

text \<open>Open containers, innermost first, with the members read so far in reverse; an object
  remembers the key whose value is being read.\<close>

datatype frame = FArr "json list" | FObj "(string \<times> json) list" string

datatype expect = WantValue | WantElemOrEnd | WantKey | WantKeyOrEnd | WantColon | WantCommaOrEnd

datatype scan_result = Continue "frame list" expect | Finished json | SyntaxError

fun complete :: "frame list \<Rightarrow> json \<Rightarrow> scan_result" where
  "complete [] v = Finished v"
| "complete (FArr vs # fs) v = Continue (FArr (v # vs) # fs) WantCommaOrEnd"
| "complete (FObj ms k # fs) v = Continue (FObj ((k, v) # ms) k # fs) WantCommaOrEnd"

definition maxNestingDepth :: nat where "maxNestingDepth = 10000"

definition open_frame :: "frame \<Rightarrow> expect \<Rightarrow> frame list \<Rightarrow> scan_result" where
  "open_frame f e fs = (if maxNestingDepth < length (f # fs) then SyntaxError else Continue (f # fs) e)"

fun start_value :: "frame list \<Rightarrow> token \<Rightarrow> scan_result" where
  "start_value fs (TVal v) = complete fs v"
| "start_value fs TLBrace = open_frame (FObj [] []) WantKeyOrEnd fs"
| "start_value fs TLBrack = open_frame (FArr []) WantElemOrEnd fs"
| "start_value fs _ = SyntaxError"

fun close_frame :: "frame list \<Rightarrow> token \<Rightarrow> scan_result" where
  "close_frame (FArr vs # fs) TRBrack = complete fs (JArr (rev vs))"
| "close_frame (FObj ms k # fs) TRBrace = complete fs (JObj (rev ms))"
| "close_frame _ _ = SyntaxError"

fun read_key :: "frame list \<Rightarrow> token \<Rightarrow> scan_result" where
  "read_key (FObj ms k # fs) (TVal (JStr k')) = Continue (FObj ms k' # fs) WantColon"
| "read_key _ _ = SyntaxError"

fun scan_step :: "frame list \<Rightarrow> expect \<Rightarrow> token \<Rightarrow> scan_result" where
  "scan_step fs WantValue t = start_value fs t"
| "scan_step fs WantElemOrEnd t = (if t = TRBrack then close_frame fs t else start_value fs t)"
| "scan_step fs WantKey t = read_key fs t"
| "scan_step fs WantKeyOrEnd t = (if t = TRBrace then close_frame fs t else read_key fs t)"
| "scan_step fs WantColon t = (if t = TColon then Continue fs WantValue else SyntaxError)"
| "scan_step fs WantCommaOrEnd t =
     (if t = TComma then (case fs of FArr _ # _ \<Rightarrow> Continue fs WantValue | FObj _ _ # _ \<Rightarrow> Continue fs WantKey | [] \<Rightarrow> SyntaxError)
      else close_frame fs t)"

lemma parse_str_shorter: "parse_str s = Some (t, r) \<Longrightarrow> length r < length s"
proof (induction s arbitrary: t rule: parse_str.induct)
  case (1 s)
  show ?case
  proof (cases "str_piece s")
    case (StrEnd r')
    then have "\<exists>c. s = c # r'" by (cases s) (auto simp: Let_def unicode_escape_def split: if_splits list.splits option.splits char.splits bool.splits)
    then show ?thesis using 1(2) StrEnd by (subst (asm) parse_str.simps) auto
  next
    case (StrChunk out r')
    then obtain t' where "parse_str r' = Some (t', r)" using 1(2) by (subst (asm) parse_str.simps) auto
    then show ?thesis using 1(1) [OF StrChunk] str_piece_shorter [OF StrChunk] by fastforce
  qed (use 1(2) in \<open>subst (asm) parse_str.simps, simp\<close>)
qed

lemma drop_shorter: "length (dropWhile P s) \<le> length s"
  by (rule length_dropWhile_le)

lemma num_int_shorter: "num_int s = Some (a, r) \<Longrightarrow> length r < length s"
  by (auto simp: num_int_def less_Suc_eq_le drop_shorter split: list.splits if_splits)

lemma num_frac_shorter: "num_frac s = Some (a, r) \<Longrightarrow> length r \<le> length s"
  using drop_shorter [of is_digit "tl s"] by (auto simp: num_frac_def Let_def split: list.splits if_splits)

lemma num_exp_shorter: "num_exp s = Some (a, r) \<Longrightarrow> length r \<le> length s"
  using drop_shorter [of is_digit "tl s"] drop_shorter [of is_digit "tl (tl s)"]
  by (auto simp: num_exp_def Let_def split: list.splits if_splits prod.splits)

lemma parse_unsigned_shorter: "parse_unsigned s = Some (a, r) \<Longrightarrow> length r < length s"
  by (auto simp: parse_unsigned_def dest!: num_int_shorter num_frac_shorter num_exp_shorter split: option.splits)

lemma parse_num_shorter: "parse_num s = Some (a, r) \<Longrightarrow> length r < length s"
  by (auto simp: parse_num_def dest!: parse_unsigned_shorter split: list.splits if_splits)

lemma next_token_shorter: "next_token s = Some (t, r) \<Longrightarrow> length r < length s"
proof -
  assume a: "next_token s = Some (t, r)"
  have le: "length (dropWhile is_space s) \<le> length s" by (rule drop_shorter)
  have "length r < length (dropWhile is_space s)"
    using a by (auto simp: next_token_def lit_token_def dest!: parse_str_shorter parse_num_shorter
        split: list.splits if_splits)
  with le show ?thesis by simp
qed

function scan :: "frame list \<Rightarrow> expect \<Rightarrow> string \<Rightarrow> (json \<times> string) option" where
  "scan fs e s =
     (case next_token s of
        None \<Rightarrow> None
      | Some (t, r) \<Rightarrow>
          (case scan_step fs e t of
             SyntaxError \<Rightarrow> None
           | Finished v \<Rightarrow> Some (v, r)
           | Continue fs' e' \<Rightarrow> scan fs' e' r))"
  by pat_completeness auto
termination
  by (relation "measure (\<lambda>(fs, e, s). length s)") (auto dest: next_token_shorter)

declare scan.simps [simp del]

text \<open>The first JSON value of the input and what follows it.\<close>

definition json_value :: "string \<Rightarrow> (json \<times> string) option" where
  "json_value s = scan [] WantValue s"

section \<open>Struct fields\<close>

text \<open>Case folding of member names: ASCII letters, and the two non-ASCII characters whose simple
  folding is an ASCII letter (the long s, U+017F, and the Kelvin sign, U+212A).\<close>

definition upper :: "char \<Rightarrow> char" where
  "upper c = (if 97 \<le> byte c \<and> byte c \<le> 122 then char_of (byte c - 32) else c)"

fun fold_name :: "string \<Rightarrow> string" where
  "fold_name (a # b # c # s) =
     (if a = CHR 0xC5 \<and> b = CHR 0xBF then CHR ''S'' # fold_name (c # s)
      else if a = CHR 0xE2 \<and> b = CHR 0x84 \<and> c = CHR 0xAA then CHR ''K'' # fold_name s
      else upper a # fold_name (b # c # s))"
| "fold_name [a, b] = (if a = CHR 0xC5 \<and> b = CHR 0xBF then ''S'' else [upper a, upper b])"
| "fold_name [a] = [upper a]"
| "fold_name [] = []"

text \<open>A field: its name and how a JSON value is assigned; the flag reports a type error.\<close>

type_synonym 'r field = "string \<times> (json \<Rightarrow> 'r \<Rightarrow> bool \<times> 'r)"

definition str_field :: "string \<Rightarrow> (string \<Rightarrow> 'r \<Rightarrow> 'r) \<Rightarrow> 'r field" where
  "str_field name upd =
     (name, \<lambda>v r. case v of JStr s \<Rightarrow> (False, upd s r) | JNull \<Rightarrow> (False, r) | _ \<Rightarrow> (True, r))"

definition float_field :: "string \<Rightarrow> (float64 \<Rightarrow> 'r \<Rightarrow> 'r) \<Rightarrow> 'r field" where
  "float_field name upd =
     (name, \<lambda>v r. case v of
        JNum t \<Rightarrow> (case parse_float t of Some x \<Rightarrow> (False, upd x r) | None \<Rightarrow> (True, r))
      | JNull \<Rightarrow> (False, r) | _ \<Rightarrow> (True, r))"

definition int_field :: "string \<Rightarrow> (int \<Rightarrow> 'r \<Rightarrow> 'r) \<Rightarrow> 'r field" where
  "int_field name upd =
     (name, \<lambda>v r. case v of
        JNum t \<Rightarrow> (case atoi t of Some x \<Rightarrow> (False, upd x r) | None \<Rightarrow> (True, r))
      | JNull \<Rightarrow> (False, r) | _ \<Rightarrow> (True, r))"

definition find_field :: "'r field list \<Rightarrow> string \<Rightarrow> (json \<Rightarrow> 'r \<Rightarrow> bool \<times> 'r) option" where
  "find_field fields key =
     (case map_of fields key of
        Some f \<Rightarrow> Some f
      | None \<Rightarrow> map_option snd (find (\<lambda>(n, _). fold_name n = fold_name key) fields))"

fun set_members :: "'r field list \<Rightarrow> (string \<times> json) list \<Rightarrow> bool \<times> 'r \<Rightarrow> bool \<times> 'r" where
  "set_members fields [] (err, r) = (err, r)"
| "set_members fields ((k, v) # ms) (err, r) =
     (case find_field fields k of
        None \<Rightarrow> set_members fields ms (err, r)
      | Some f \<Rightarrow> (case f v r of (e, r') \<Rightarrow> set_members fields ms (err \<or> e, r')))"

fun decode_into :: "'r field list \<Rightarrow> json \<Rightarrow> 'r \<Rightarrow> bool \<times> 'r" where
  "decode_into fields (JObj ms) r = set_members fields ms (False, r)"
| "decode_into fields JNull r = (False, r)"
| "decode_into fields _ r = (True, r)"

text \<open>\<^verbatim>\<open>json.Unmarshal(data, &r)\<close>: whether it returns an error, and the struct afterwards.  A syntax
  error leaves the struct alone; a type error does not.\<close>

definition unmarshal :: "'r field list \<Rightarrow> string \<Rightarrow> 'r \<Rightarrow> bool \<times> 'r" where
  "unmarshal fields s r =
     (case json_value s of
        Some (v, rest) \<Rightarrow> if list_all is_space rest then decode_into fields v r else (True, r)
      | None \<Rightarrow> (True, r))"

text \<open>\<^verbatim>\<open>json.NewDecoder(body).Decode(&r)\<close>: only the first value of the stream matters.\<close>

definition decode_stream :: "'r field list \<Rightarrow> string \<Rightarrow> 'r \<Rightarrow> bool \<times> 'r" where
  "decode_stream fields s r =
     (case json_value s of Some (v, rest) \<Rightarrow> decode_into fields v r | None \<Rightarrow> (True, r))"

section \<open>Writing\<close>

definition hex_digit :: "nat \<Rightarrow> char" where
  "hex_digit n = (if n < 10 then char_of (48 + n) else char_of (87 + n))"

definition html_special :: "char \<Rightarrow> bool" where
  "html_special c \<longleftrightarrow> c = CHR ''<'' \<or> c = CHR ''>'' \<or> c = CHR ''&''"

text \<open>The encoding of one ASCII byte.\<close>

definition escape_ascii :: "char \<Rightarrow> string" where
  "escape_ascii c =
     (if c = CHR 0x22 \<or> c = CHR 0x5C then [CHR 0x5C, c]
      else if 32 \<le> byte c \<and> \<not> html_special c then [c]
      else if byte c = 8 then [CHR 0x5C, CHR ''b'']
      else if byte c = 12 then [CHR 0x5C, CHR ''f'']
      else if byte c = 10 then [CHR 0x5C, CHR ''n'']
      else if byte c = 13 then [CHR 0x5C, CHR ''r'']
      else if byte c = 9 then [CHR 0x5C, CHR ''t'']
      else [CHR 0x5C, CHR ''u'', CHR ''0'', CHR ''0'', hex_digit (byte c div 16), hex_digit (byte c mod 16)])"

text \<open>Non-ASCII text is copied, except the two line separators and ill-formed bytes.\<close>

function json_escape :: "string \<Rightarrow> string" where
  "json_escape [] = []"
| "json_escape (c # cs) =
     (if byte c < 128 then escape_ascii c @ json_escape cs
      else let n = utf8_len (c # cs) in
           if n = 0 then CHR 0x5C # ''ufffd'' @ json_escape cs
           else if take n (c # cs) = [CHR 0xE2, CHR 0x80, CHR 0xA8] then CHR 0x5C # ''u2028'' @ json_escape (drop n (c # cs))
           else if take n (c # cs) = [CHR 0xE2, CHR 0x80, CHR 0xA9] then CHR 0x5C # ''u2029'' @ json_escape (drop n (c # cs))
           else take n (c # cs) @ json_escape (drop n (c # cs)))"
  by pat_completeness auto
termination
  by (relation "measure length") auto

declare json_escape.simps(2) [simp del]

definition json_string :: "string \<Rightarrow> string" where
  "json_string s = CHR 0x22 # json_escape s @ [CHR 0x22]"

fun json_members :: "(string \<times> string) list \<Rightarrow> string" where
  "json_members [] = []"
| "json_members [(k, v)] = CHR 0x22 # k @ CHR 0x22 # CHR '':'' # v"
| "json_members ((k, v) # m # ms) = CHR 0x22 # k @ CHR 0x22 # CHR '':'' # v @ CHR '','' # json_members (m # ms)"

text \<open>An object with plain member names and already encoded values.\<close>

definition json_object :: "(string \<times> string) list \<Rightarrow> string" where
  "json_object ms = CHR ''{'' # json_members ms @ ''}''"

text \<open>An array of already encoded values.\<close>

fun comma_sep :: "string list \<Rightarrow> string" where
  "comma_sep [] = []"
| "comma_sep [t] = t"
| "comma_sep (t # u # ts) = t @ CHR '','' # comma_sep (u # ts)"

definition json_array :: "string list \<Rightarrow> string" where
  "json_array ts = CHR ''['' # comma_sep ts @ '']''"

fun valid_utf8 :: "string \<Rightarrow> bool" where
  "valid_utf8 [] = True"
| "valid_utf8 (c # cs) =
     (if byte c < 128 then valid_utf8 cs
      else let n = utf8_len (c # cs) in n \<noteq> 0 \<and> valid_utf8 (drop (n - 1) cs))"

section \<open>Written strings are read back\<close>

lemma byte_bound: "byte c < 256"
  using of_char_eq_iff nat_of_char_less_256 by simp

lemma byte_inject: "byte c = byte d \<longleftrightarrow> c = d"
  by simp

lemma hex_val_digit: "n < 16 \<Longrightarrow> hex_val (hex_digit n) = Some n"
  by (auto simp: hex_val_def hex_digit_def Let_def)

lemma hex4_byte: "hex4 (CHR ''0'' # CHR ''0'' # hex_digit (byte c div 16) # hex_digit (byte c mod 16) # r) = Some (byte c, r)"
proof -
  have "hex_val (hex_digit (byte c div 16)) = Some (byte c div 16)" "hex_val (hex_digit (byte c mod 16)) = Some (byte c mod 16)"
    using byte_bound [of c] by (auto intro!: hex_val_digit simp: less_mult_imp_div_less)
  then show ?thesis by (simp add: hex_val_def)
qed

lemma str_piece_escape_ascii:
  assumes "byte c < 128"
  shows "str_piece (escape_ascii c @ r) = StrChunk [c] r"
proof -
  consider "c = CHR 0x22 \<or> c = CHR 0x5C" | "c \<noteq> CHR 0x22" "c \<noteq> CHR 0x5C" "32 \<le> byte c" "\<not> html_special c"
    | "byte c = 8" | "byte c = 12" | "byte c = 10" | "byte c = 13" | "byte c = 9"
    | "c \<noteq> CHR 0x22" "c \<noteq> CHR 0x5C" "byte c < 32 \<or> html_special c" "byte c \<noteq> 8" "byte c \<noteq> 12" "byte c \<noteq> 10" "byte c \<noteq> 13" "byte c \<noteq> 9"
    by linarith
  then show ?thesis
  proof cases
    case 8
    then have "escape_ascii c @ r = CHR 0x5C # CHR ''u'' # CHR ''0'' # CHR ''0'' # hex_digit (byte c div 16) # hex_digit (byte c mod 16) # r"
      by (auto simp: escape_ascii_def)
    moreover have "unicode_escape (byte c) r = StrChunk [c] r"
      using assms by (simp add: unicode_escape_def encode_rune_def)
    ultimately show ?thesis using hex4_byte [of c r] by simp
  qed (use assms byte_inject [of c "CHR 0x08"] byte_inject [of c "CHR 0x0C"] byte_inject [of c "CHR 0x0A"]
        byte_inject [of c "CHR 0x0D"] byte_inject [of c "CHR 0x09"]
       in \<open>auto simp: escape_ascii_def simple_escape_def html_special_def\<close>)
qed

lemma parse_str_chunk: "str_piece s = StrChunk out r \<Longrightarrow> parse_str s = map_option (\<lambda>(t, r'). (out @ t, r')) (parse_str r)"
  by (subst parse_str.simps) simp

lemma parse_str_end: "parse_str (CHR 0x22 # r) = Some ([], r)"
  by (subst parse_str.simps) simp

lemma utf8_len_take:
  assumes "utf8_len s \<noteq> 0"
  shows "utf8_len (take (utf8_len s) s @ t) = utf8_len s \<and> utf8_len s \<le> length s"
  using assms by (cases s rule: utf8_len.cases) (auto split: if_splits list.splits)

lemma utf8_len_high: "utf8_len (c # cs) \<noteq> 0 \<Longrightarrow> 128 \<le> byte c"
  by (cases cs) (auto split: if_splits list.splits)

lemma str_piece_utf8:
  assumes "utf8_len s \<noteq> 0"
  shows "str_piece (take (utf8_len s) s @ t) = StrChunk (take (utf8_len s) s) t"
proof -
  let ?n = "utf8_len s"
  have n: "utf8_len (take ?n s @ t) = ?n" "?n \<le> length s" using utf8_len_take [OF assms] by auto
  obtain c cs where s: "take ?n s @ t = c # cs" using n(1) assms by (cases "take ?n s @ t") auto
  have c: "128 \<le> byte c" using utf8_len_high [of c cs] n(1) assms by (simp add: s)
  then have "c \<noteq> CHR 0x22" "c \<noteq> CHR 0x5C" by auto
  moreover have "take ?n (c # cs) = take ?n s" "drop ?n (c # cs) = t" using n(2) by (simp_all flip: s)
  ultimately show ?thesis using n(1) c assms by (simp add: s)
qed

lemma separator_bytes:
  "char_of (226 :: nat) = CHR 0xE2" "char_of (128 :: nat) = CHR 0x80"
  "char_of (168 :: nat) = CHR 0xA8" "char_of (169 :: nat) = CHR 0xA9"
  by (simp_all add: char_of_def bit_0)

lemma str_piece_line_sep:
  "str_piece (CHR 0x5C # ''u2028'' @ r) = StrChunk [CHR 0xE2, CHR 0x80, CHR 0xA8] r"
  "str_piece (CHR 0x5C # ''u2029'' @ r) = StrChunk [CHR 0xE2, CHR 0x80, CHR 0xA9] r"
  by (simp_all add: hex_val_def unicode_escape_def encode_rune_def separator_bytes)

text \<open>A quoted and escaped text followed by anything is read as that text.\<close>

lemma parse_json_escape:
  "valid_utf8 s \<Longrightarrow> parse_str (json_escape s @ CHR 0x22 # r) = Some (s, r)"
proof (induction s rule: json_escape.induct)
  case 1
  then show ?case by (simp add: parse_str_end)
next
  case (2 c cs)
  let ?n = "utf8_len (c # cs)" and ?q = "CHR 0x22 # r"
  show ?case
  proof (cases "byte c < 128")
    case True
    then have "parse_str (json_escape cs @ ?q) = Some (cs, r)" using 2 by simp
    moreover have "json_escape (c # cs) @ ?q = escape_ascii c @ json_escape cs @ ?q"
      using True by (simp add: json_escape.simps(2))
    ultimately show ?thesis by (simp only: parse_str_chunk [OF str_piece_escape_ascii [OF True]]) simp
  next
    case False
    with 2(6) have n: "?n \<noteq> 0" and v: "valid_utf8 (drop ?n (c # cs))"
      by (auto simp: Let_def drop_Cons' simp del: utf8_len.simps)
    have ih: "parse_str (json_escape (drop ?n (c # cs)) @ ?q) = Some (drop ?n (c # cs), r)"
      using 2 False n v by metis
    have "str_piece (json_escape (c # cs) @ ?q) = StrChunk (take ?n (c # cs)) (json_escape (drop ?n (c # cs)) @ ?q)"
      using False n str_piece_utf8 [OF n] str_piece_line_sep
      by (auto simp: json_escape.simps(2) Let_def simp del: str_piece.simps utf8_len.simps)
    from parse_str_chunk [OF this] ih show ?thesis by simp
  qed
qed

section \<open>Written numbers and objects are read back\<close>

definition ends_value :: "string \<Rightarrow> bool" where
  "ends_value r \<longleftrightarrow> r = [] \<or> hd r = CHR '','' \<or> hd r = CHR ''}'' \<or> hd r = CHR '']''"

lemma ends_value_stop: "ends_value r \<Longrightarrow> r = [] \<or> \<not> is_digit (hd r) \<and> hd r \<noteq> CHR ''.'' \<and> hd r \<noteq> CHR ''e'' \<and> hd r \<noteq> CHR ''E''"
  by (auto simp: ends_value_def is_digit_def)

lemma digits_span:
  assumes "list_all is_digit ds" "r = [] \<or> \<not> is_digit (hd r)"
  shows "takeWhile is_digit (ds @ r) = ds" "dropWhile is_digit (ds @ r) = r"
  using assms by (induction ds; cases r; simp)+

lemma num_int_span:
  assumes "json_int ip" "r = [] \<or> \<not> is_digit (hd r)"
  shows "num_int (ip @ r) = Some (ip, r)"
proof -
  obtain c cs where ip: "ip = c # cs" using assms(1) by (cases ip) (auto simp: json_int_def)
  show ?thesis
  proof (cases "c = CHR ''0''")
    case True
    then show ?thesis using assms(1) by (simp add: ip num_int_def json_int_def)
  next
    case False
    then show ?thesis
      using assms digits_span [of ip r] by (simp add: ip num_int_def json_int_def)
  qed
qed

lemma num_frac_span:
  assumes "list_all is_digit fp" "r = [] \<or> \<not> is_digit (hd r)" "fp = [] \<Longrightarrow> r = [] \<or> hd r \<noteq> CHR ''.''"
  shows "num_frac ((if fp = [] then [] else CHR ''.'' # fp) @ r) = Some (if fp = [] then [] else CHR ''.'' # fp, r)"
  using assms digits_span [of fp r] by (cases r; cases fp) (auto simp: num_frac_def Let_def)

lemma num_exp_span:
  assumes "list_all is_digit xs" "sg = CHR ''-'' \<or> sg = CHR ''+''" "r = [] \<or> \<not> is_digit (hd r)"
    and "r = [] \<or> hd r \<noteq> CHR ''e'' \<and> hd r \<noteq> CHR ''E''"
  shows "num_exp ((if xs = [] then [] else CHR ''e'' # sg # xs) @ r) = Some (if xs = [] then [] else CHR ''e'' # sg # xs, r)"
  using assms digits_span [of xs r] by (cases r; cases xs) (auto simp: num_exp_def Let_def)

lemma parse_unsigned_text:
  assumes "num_parts ip fp sg xs" "ends_value r"
  shows "parse_unsigned (num_text ip fp sg xs @ r) = Some (num_text ip fp sg xs, r)"
proof -
  let ?f = "if fp = [] then [] else CHR ''.'' # fp" and ?x = "if xs = [] then [] else CHR ''e'' # sg # xs"
  note p = assms(1) [unfolded num_parts_def] and r = ends_value_stop [OF assms(2)]
  have 1: "num_int (ip @ ?f @ ?x @ r) = Some (ip, ?f @ ?x @ r)"
    by (rule num_int_span) (use p r in auto)
  have 2: "num_frac (?f @ ?x @ r) = Some (?f, ?x @ r)"
    by (rule num_frac_span) (use p r in auto)
  have 3: "num_exp (?x @ r) = Some (?x, r)"
    by (rule num_exp_span) (use p r in auto)
  show ?thesis unfolding num_text_def parse_unsigned_def append_assoc 1 option.case prod.case 2 3 by simp
qed

lemma parse_num_format:
  assumes "f64_finite x" "format_float x = Some t" "ends_value r"
  shows "parse_num (t @ r) = Some (t, r)" "\<exists>c cs. t = c # cs \<and> (c = CHR ''-'' \<or> is_digit c)"
proof -
  obtain neg q where x: "x = F64 neg q" "f64_mag q" using assms(1) by (cases x) auto
  obtain ip fp sg xs where m: "fmt_mag q = num_text ip fp sg xs" "num_parts ip fp sg xs"
    using fmt_mag_shape [OF x(2)] by blast
  obtain c cs where c: "fmt_mag q = c # cs" "is_digit c" using m num_text_hd by metis
  have t: "t = (if neg then CHR ''-'' # fmt_mag q else fmt_mag q)" using assms(2) by (simp add: x split: if_splits)
  note u = parse_unsigned_text [OF m(2) assms(3)]
  show "parse_num (t @ r) = Some (t, r)"
    using u is_digit_not_sign [OF c(2)] by (auto simp: t parse_num_def c simp flip: m(1))
  show "\<exists>c cs. t = c # cs \<and> (c = CHR ''-'' \<or> is_digit c)" using c by (auto simp: t)
qed

text \<open>A text that the tokenizer reads as one value.\<close>

definition encodes :: "string \<Rightarrow> json \<Rightarrow> bool" where
  "encodes t v \<longleftrightarrow> (\<forall>r. ends_value r \<longrightarrow> next_token (t @ r) = Some (TVal v, r))"

lemma encodes_string: "valid_utf8 s \<Longrightarrow> encodes (json_string s) (JStr s)"
  by (simp add: encodes_def json_string_def next_token_def is_space_def parse_json_escape)

lemma encodes_float:
  assumes "f64_finite x" "format_float x = Some t"
  shows "encodes t (JNum t)"
proof -
  have "next_token (t @ r) = Some (TVal (JNum t), r)" if "ends_value r" for r
  proof -
    note p = parse_num_format [OF assms that]
    from p(2) obtain c cs where c: "t = c # cs" "c = CHR ''-'' \<or> is_digit c" by blast
    from c(2) have ns: "\<not> is_space c" "c \<notin> set [CHR ''{'', CHR ''}'', CHR ''['', CHR '']'', CHR '':'', CHR '','', CHR 0x22, CHR ''t'', CHR ''f'', CHR ''n'']"
      by (auto simp: is_space_def is_digit_def)
    with p(1) show ?thesis by (simp add: c(1) next_token_def)
  qed
  then show ?thesis by (simp add: encodes_def)
qed

lemma encodes_true: "encodes ''true'' (JBool True)"
  by (simp add: encodes_def next_token_def is_space_def lit_token_def)

text \<open>Member names of the server's messages need no escaping.\<close>

definition plain_key :: "string \<Rightarrow> bool" where
  "plain_key k = list_all (\<lambda>c. 32 \<le> byte c \<and> byte c < 128 \<and> c \<noteq> CHR 0x22 \<and> c \<noteq> CHR 0x5C) k"

lemma parse_plain_key: "plain_key k \<Longrightarrow> parse_str (k @ CHR 0x22 # r) = Some (k, r)"
proof (induction k)
  case (Cons c k)
  then have "str_piece (c # k @ CHR 0x22 # r) = StrChunk [c] (k @ CHR 0x22 # r)" by (simp add: plain_key_def)
  from parse_str_chunk [OF this] Cons show ?case by (simp add: plain_key_def)
qed (simp add: parse_str_end)

lemma next_token_key: "plain_key k \<Longrightarrow> next_token (CHR 0x22 # k @ CHR 0x22 # r) = Some (TVal (JStr k), r)"
  by (simp add: next_token_def is_space_def parse_plain_key)

lemma next_token_punct:
  "next_token (CHR ''{'' # r) = Some (TLBrace, r)" "next_token (CHR ''}'' # r) = Some (TRBrace, r)"
  "next_token (CHR '':'' # r) = Some (TColon, r)" "next_token (CHR '','' # r) = Some (TComma, r)"
  by (simp_all add: next_token_def is_space_def)

definition member_ok :: "string \<times> string \<times> json \<Rightarrow> bool" where
  "member_ok m \<longleftrightarrow> (case m of (k, t, v) \<Rightarrow> plain_key k \<and> encodes t v)"

lemma scan_token: "next_token s = Some (t, r) \<Longrightarrow>
    scan fs e s = (case scan_step fs e t of SyntaxError \<Rightarrow> None | Finished v \<Rightarrow> Some (v, r) | Continue fs' e' \<Rightarrow> scan fs' e' r)"
  by (subst scan.simps) simp

lemma scan_member:
  assumes "plain_key k" "encodes t v" "ends_value r"
  shows "scan [FObj acc k0] WantKey (CHR 0x22 # k @ CHR 0x22 # CHR '':'' # t @ r) = scan [FObj ((k, v) # acc) k] WantCommaOrEnd r"
proof -
  have "next_token (t @ r) = Some (TVal v, r)" using assms(2,3) by (simp add: encodes_def)
  then show ?thesis
    by (simp add: scan_token [OF next_token_key [OF assms(1)]] scan_token [OF next_token_punct(3)] scan_token)
qed

lemma scan_members:
  assumes "ms \<noteq> []" "list_all member_ok ms"
  shows "scan [FObj acc k0] WantKey (json_members (map (\<lambda>(k, t, v). (k, t)) ms) @ CHR ''}'' # r) =
    Some (JObj (rev acc @ map (\<lambda>(k, t, v). (k, v)) ms), r)"
  using assms
proof (induction ms arbitrary: acc k0)
  case (Cons m ms)
  obtain k t v where m: "m = (k, t, v)" "plain_key k" "encodes t v"
    using Cons.prems by (cases m) (auto simp: member_ok_def)
  show ?case
  proof (cases ms)
    case Nil
    then show ?thesis
      using scan_member [OF m(2,3), of "CHR ''}'' # r" acc k0]
      by (simp add: m(1) ends_value_def scan_token [OF next_token_punct(2)])
  next
    case (Cons m2 ms2)
    obtain k2 t2 v2 where m2: "m2 = (k2, t2, v2)" by (cases m2)
    let ?rest = "json_members (map (\<lambda>(k, t, v). (k, t)) ms) @ CHR ''}'' # r"
    have "scan [FObj acc k0] WantKey (json_members (map (\<lambda>(k, t, v). (k, t)) (m # ms)) @ CHR ''}'' # r) =
        scan [FObj ((k, v) # acc) k] WantKey ?rest"
      using scan_member [OF m(2,3), of "CHR '','' # ?rest" acc k0]
      by (simp add: m(1) m2 Cons ends_value_def scan_token [OF next_token_punct(4)])
    also have "\<dots> = Some (JObj (rev ((k, v) # acc) @ map (\<lambda>(k, t, v). (k, v)) ms), r)"
      using Cons.IH Cons.prems Cons by simp
    finally show ?thesis by (simp add: m(1))
  qed
qed simp

lemma json_members_hd: "ms \<noteq> [] \<Longrightarrow> \<exists>k s. json_members ms = CHR 0x22 # k @ CHR 0x22 # s"
  by (cases ms rule: json_members.cases) auto

text \<open>A flat object is read back as the list of its members.\<close>

lemma json_value_object:
  assumes "ms \<noteq> []" "list_all member_ok ms"
  shows "json_value (json_object (map (\<lambda>(k, t, v). (k, t)) ms) @ r) = Some (JObj (map (\<lambda>(k, t, v). (k, v)) ms), r)"
proof -
  obtain k t v ms' where ms: "ms = (k, t, v) # ms'" using assms(1) by (cases ms) auto
  have key: "plain_key k" using assms(2) by (simp add: ms member_ok_def)
  obtain s where s: "json_members (map (\<lambda>(k, t, v). (k, t)) ms) = CHR 0x22 # k @ CHR 0x22 # s"
    by (cases ms') (auto simp: ms)
  have "scan [FObj [] []] WantKeyOrEnd (json_members (map (\<lambda>(k, t, v). (k, t)) ms) @ CHR ''}'' # r) =
      scan [FObj [] []] WantKey (json_members (map (\<lambda>(k, t, v). (k, t)) ms) @ CHR ''}'' # r)"
    unfolding s by (simp add: scan_token [OF next_token_key [OF key]])
  then show ?thesis
    using scan_members [OF assms, of "[]" "[]" r]
    by (simp add: json_value_def json_object_def scan_token [OF next_token_punct(1)] open_frame_def maxNestingDepth_def)
qed

lemma unmarshal_object:
  assumes "ms \<noteq> []" "list_all member_ok ms"
  shows "unmarshal fields (json_object (map (\<lambda>(k, t, v). (k, t)) ms)) x =
    set_members fields (map (\<lambda>(k, t, v). (k, v)) ms) (False, x)"
  using json_value_object [OF assms, of "[]"] by (simp add: unmarshal_def)

definition read_json_string :: "string \<Rightarrow> string option" where
  "read_json_string t = (case json_value t of Some (JStr s, []) \<Rightarrow> Some s | _ \<Rightarrow> None)"

interpretation json_text: codec valid_utf8 json_string read_json_string
proof
  fix s assume "valid_utf8 s"
  then have "next_token (json_string s) = Some (TVal (JStr s), [])"
    using encodes_string [of s] by (simp add: encodes_def ends_value_def)
  then show "read_json_string (json_string s) = Some s"
    by (simp add: read_json_string_def json_value_def scan_token)
qed

section \<open>What written text never contains\<close>

lemma hex_digit_byte: "n < 16 \<Longrightarrow> 48 \<le> byte (hex_digit n) \<and> byte (hex_digit n) < 128"
  by (auto simp: hex_digit_def)

lemma hex_digit_printable: "32 \<le> byte (hex_digit (byte c div 16))" "32 \<le> byte (hex_digit (byte c mod 16))"
  using hex_digit_byte [of "byte c div 16"] hex_digit_byte [of "byte c mod 16"] byte_bound [of c]
  by (simp_all add: less_mult_imp_div_less)

lemma escape_ascii_printable: "x \<in> set (escape_ascii c) \<Longrightarrow> 32 \<le> byte x"
  using hex_digit_printable [of c] by (auto simp: escape_ascii_def split: if_splits)

lemma cont_high: "is_cont c \<Longrightarrow> 128 \<le> byte c" "second_ok a b \<Longrightarrow> 128 \<le> byte b"
  by (auto simp: is_cont_def second_ok_def split: if_splits)

lemma utf8_len_bytes: "utf8_len s \<noteq> 0 \<Longrightarrow> x \<in> set (take (utf8_len s) s) \<Longrightarrow> 128 \<le> byte x"
  by (cases s rule: utf8_len.cases) (auto split: if_splits list.splits dest: cont_high)

text \<open>The four ways a byte of the text is written.\<close>

lemma json_escape_step:
  obtains (ascii) "byte c < 128" "json_escape (c # cs) = escape_ascii c @ json_escape cs"
  | (bad) "128 \<le> byte c" "utf8_len (c # cs) = 0" "json_escape (c # cs) = CHR 0x5C # ''ufffd'' @ json_escape cs"
  | (sep) d where "128 \<le> byte c" "utf8_len (c # cs) \<noteq> 0" "d = CHR ''8'' \<or> d = CHR ''9''"
      "json_escape (c # cs) = CHR 0x5C # ''u202'' @ d # json_escape (drop (utf8_len (c # cs)) (c # cs))"
  | (copy) "128 \<le> byte c" "utf8_len (c # cs) \<noteq> 0"
      "json_escape (c # cs) = take (utf8_len (c # cs)) (c # cs) @ json_escape (drop (utf8_len (c # cs)) (c # cs))"
proof -
  let ?n = "utf8_len (c # cs)"
  note esc = json_escape.simps(2) [of c cs, unfolded Let_def]
  consider "byte c < 128" | "128 \<le> byte c" "?n = 0"
    | "128 \<le> byte c" "?n \<noteq> 0" "take ?n (c # cs) = [CHR 0xE2, CHR 0x80, CHR 0xA8]"
    | "128 \<le> byte c" "?n \<noteq> 0" "take ?n (c # cs) = [CHR 0xE2, CHR 0x80, CHR 0xA9]"
    | "128 \<le> byte c" "?n \<noteq> 0" "take ?n (c # cs) \<noteq> [CHR 0xE2, CHR 0x80, CHR 0xA8]" "take ?n (c # cs) \<noteq> [CHR 0xE2, CHR 0x80, CHR 0xA9]"
    by linarith
  then show thesis
  proof cases
    case 3
    then show ?thesis using that(3) [of "CHR ''8''"] esc by (simp del: utf8_len.simps)
  next
    case 4
    then show ?thesis using that(3) [of "CHR ''9''"] esc by (simp del: utf8_len.simps)
  next
    case 5
    then show ?thesis using that(4) esc by (simp del: utf8_len.simps take_Suc_Cons)
  qed (use that(1,2) esc in \<open>simp_all del: utf8_len.simps\<close>)
qed

text \<open>Induction along the way texts are written.\<close>

lemma json_escape_all:
  assumes "\<And>c x. byte c < 128 \<Longrightarrow> x \<in> set (escape_ascii c) \<Longrightarrow> P x" "\<And>x. 128 \<le> byte x \<Longrightarrow> P x"
    and "\<And>x. x \<in> set (CHR 0x5C # ''ufd20289'') \<Longrightarrow> P x"
  shows "x \<in> set (json_escape s) \<Longrightarrow> P x"
proof (induction s rule: length_induct)
  case (1 s)
  show ?case
  proof (cases s)
    case Nil
    then show ?thesis using 1 by simp
  next
    case (Cons c cs)
    have ih: "length r < length s \<Longrightarrow> x \<in> set (json_escape r) \<Longrightarrow> P x" for r using 1(1) by blast
    have dr: "length (drop (utf8_len (c # cs)) (c # cs)) < length s" if "utf8_len (c # cs) \<noteq> 0"
      using that by (simp add: Cons del: utf8_len.simps)
    show ?thesis
    proof (rule json_escape_step [of c cs])
      assume "128 \<le> byte c" "utf8_len (c # cs) \<noteq> 0"
        "json_escape (c # cs) = take (utf8_len (c # cs)) (c # cs) @ json_escape (drop (utf8_len (c # cs)) (c # cs))"
      then show ?thesis using 1(2) ih dr assms(2) utf8_len_bytes by (metis Cons Un_iff set_append)
    next
      fix d
      assume "utf8_len (c # cs) \<noteq> 0" "d = CHR ''8'' \<or> d = CHR ''9''"
        "json_escape (c # cs) = CHR 0x5C # ''u202'' @ d # json_escape (drop (utf8_len (c # cs)) (c # cs))"
      then have "x \<in> set (CHR 0x5C # ''u202'' @ [d]) \<or> x \<in> set (json_escape (drop (utf8_len (c # cs)) (c # cs)))"
        using 1(2) by (auto simp: Cons simp del: utf8_len.simps)
      then show ?thesis
      proof
        assume "x \<in> set (CHR 0x5C # ''u202'' @ [d])"
        then show ?thesis using \<open>d = CHR ''8'' \<or> d = CHR ''9''\<close> by (intro assms(3)) auto
      qed (rule ih [OF dr [OF \<open>utf8_len (c # cs) \<noteq> 0\<close>]])
    qed (use 1(2) ih assms(1,3) in \<open>auto simp: Cons simp del: utf8_len.simps\<close>)
  qed
qed

lemma json_escape_printable: "x \<in> set (json_escape s) \<Longrightarrow> 32 \<le> byte x"
  by (rule json_escape_all [where P = "\<lambda>x. 32 \<le> byte x"]) (auto dest: escape_ascii_printable)

lemma format_float_bytes:
  assumes "f64_finite x" "format_float x = Some t" "c \<in> set t"
  shows "is_digit c \<or> c \<in> set ''.e+-''"
proof -
  obtain neg q where x: "x = F64 neg q" "f64_mag q" using assms(1) by (cases x) auto
  obtain ip fp sg xs where m: "fmt_mag q = num_text ip fp sg xs" "num_parts ip fp sg xs"
    using fmt_mag_shape [OF x(2)] by blast
  have "t = (if neg then CHR ''-'' # fmt_mag q else fmt_mag q)" using assms(2) by (simp add: x split: if_splits)
  with assms(3) m show ?thesis
    by (auto simp: num_text_def num_parts_def json_int_def list_all_iff split: if_splits)
qed

section \<open>Decoded strings are well-formed UTF-8\<close>

lemma utf8_len_append: "utf8_len s \<noteq> 0 \<Longrightarrow> utf8_len (s @ t) = utf8_len s"
  by (cases s rule: utf8_len.cases) (auto split: if_splits list.splits)

lemma utf8_len_le: "utf8_len s \<noteq> 0 \<Longrightarrow> utf8_len s \<le> length s"
  using utf8_len_take by blast

lemma valid_utf8_append: "valid_utf8 a \<Longrightarrow> valid_utf8 b \<Longrightarrow> valid_utf8 (a @ b)"
proof (induction a rule: valid_utf8.induct)
  case (2 c cs)
  show ?case
  proof (cases "byte c < 128")
    case False
    let ?n = "utf8_len (c # cs)"
    have n: "?n \<noteq> 0" "valid_utf8 (drop (?n - 1) cs)" using False 2(3) by (simp_all add: Let_def del: utf8_len.simps)
    have "valid_utf8 (drop (?n - 1) cs @ b)" using 2 False n by metis
    moreover have "utf8_len (c # cs @ b) = ?n" using utf8_len_append [OF n(1), of b] by simp
    moreover have "?n - 1 \<le> length cs" using utf8_len_le [OF n(1)] by simp
    ultimately show ?thesis using False n by (simp add: Let_def del: utf8_len.simps)
  qed (use 2 in simp)
qed simp

lemma valid_utf8_one: "utf8_len s \<noteq> 0 \<Longrightarrow> valid_utf8 (take (utf8_len s) s)"
proof -
  assume n: "utf8_len s \<noteq> 0"
  have t: "utf8_len (take (utf8_len s) s) = utf8_len s" "utf8_len s \<le> length s" using utf8_len_take [OF n, of "[]"] by auto
  then obtain c cs where s: "take (utf8_len s) s = c # cs" using n by (cases "take (utf8_len s) s") auto
  have "length (c # cs) = utf8_len s" using t(2) by (simp flip: s)
  then show ?thesis
    using t(1) n utf8_len_high [of c cs] unfolding s by (auto simp: Let_def simp del: utf8_len.simps)
qed

lemma hex_val_bound: "hex_val c = Some n \<Longrightarrow> n < 16"
  by (auto simp: hex_val_def Let_def split: if_splits)

lemma hex4_bound: "hex4 s = Some (u, r) \<Longrightarrow> u < 65536"
  by (cases s rule: hex4.cases) (auto dest!: hex_val_bound split: option.splits)

lemma encode_rune_len:
  assumes "128 \<le> r" "r < 1114112" "r < 55296 \<or> 57343 < r"
  shows "utf8_len (encode_rune r) = length (encode_rune r)"
proof -
  consider "r < 2048" | "2048 \<le> r" "r < 65536" | "65536 \<le> r" by linarith
  then show ?thesis
  proof cases
    case 1
    then have "194 \<le> 192 + r div 64" "192 + r div 64 \<le> 223" using assms(1) by auto
    then show ?thesis using assms 1 by (simp add: encode_rune_def is_cont_def)
  next
    case 2
    define a b where "a = r div 4096" and "b = r div 64 mod 64"
    have r64: "r div 64 = 64 * a + b" by (simp add: a_def b_def div_mult2_eq [of r 64 64, simplified])
    have r: "64 * (64 * a + b) \<le> r" "r < 64 * (64 * a + b) + 64" by (simp_all flip: r64)
    have ab: "a \<le> 15" "b < 64" using 2 by (auto simp: a_def b_def)
    have "a = 0 \<Longrightarrow> 32 \<le> b" "a = 13 \<Longrightarrow> b < 32" using r 2 assms(3) ab by auto
    then have "second_ok (char_of (224 + a)) (char_of (128 + b))"
      using ab by (auto simp: second_ok_def is_cont_def)
    then show ?thesis
      using ab 2 assms by (simp add: encode_rune_def is_cont_def flip: a_def b_def)
  next
    case 3
    define a b where "a = r div 262144" and "b = r div 4096 mod 64"
    have r64: "r div 4096 = 64 * a + b" by (simp add: a_def b_def div_mult2_eq [of r 4096 64, simplified])
    have r: "4096 * (64 * a + b) \<le> r" "r < 4096 * (64 * a + b) + 4096" by (simp_all flip: r64)
    have ab: "a \<le> 4" "b < 64" using 3 assms(2) by (auto simp: a_def b_def)
    have "a = 0 \<Longrightarrow> 16 \<le> b" "a = 4 \<Longrightarrow> b < 16" using r 3 assms(2) by auto
    then have "second_ok (char_of (240 + a)) (char_of (128 + b))"
      using ab by (auto simp: second_ok_def is_cont_def)
    moreover have "is_cont (char_of (128 + r div 64 mod 64))" "is_cont (char_of (128 + r mod 64))"
      by (simp_all add: is_cont_def)
    ultimately show ?thesis
      using ab 3 assms by (simp add: encode_rune_def flip: a_def b_def)
  qed
qed

lemma valid_encode_rune: "r < 1114112 \<Longrightarrow> r < 55296 \<or> 57343 < r \<Longrightarrow> valid_utf8 (encode_rune r)"
proof (cases "r < 128")
  case False
  assume a: "r < 1114112" "r < 55296 \<or> 57343 < r"
  have "utf8_len (encode_rune r) = length (encode_rune r)" using False a by (intro encode_rune_len) auto
  moreover have "encode_rune r \<noteq> []" by (simp add: encode_rune_def)
  ultimately show ?thesis using valid_utf8_one [of "encode_rune r"] by simp
qed (simp add: encode_rune_def)

lemma valid_rune_error: "valid_utf8 rune_error"
  by (simp add: rune_error_def second_ok_def is_cont_def)

lemma unicode_escape_valid:
  assumes "u < 65536" "unicode_escape u r = StrChunk out r'"
  shows "valid_utf8 out"
  using assms valid_rune_error valid_encode_rune
  by (auto simp: unicode_escape_def dest!: hex4_bound split: if_splits list.splits char.splits bool.splits option.splits)

lemma str_piece_valid: "str_piece s = StrChunk out r \<Longrightarrow> valid_utf8 out"
proof (cases s)
  case (Cons c cs)
  assume p: "str_piece s = StrChunk out r"
  consider "c = CHR 0x5C" | "c \<noteq> CHR 0x5C" "byte c < 128" | "c \<noteq> CHR 0x5C" "128 \<le> byte c" by linarith
  then show ?thesis
  proof cases
    case 1
    then show ?thesis using p
      by (auto simp: Cons simple_escape_def dest!: hex4_bound intro: unicode_escape_valid split: list.splits if_splits option.splits)
  next
    case 2
    then show ?thesis using p by (auto simp: Cons split: if_splits)
  next
    case 3
    then have "out = rune_error \<or> utf8_len s \<noteq> 0 \<and> out = take (utf8_len s) s"
      using p by (auto simp: Cons Let_def simp del: utf8_len.simps split: if_splits)
    then show ?thesis using valid_rune_error valid_utf8_one by auto
  qed
qed simp

lemma parse_str_valid: "parse_str s = Some (t, r) \<Longrightarrow> valid_utf8 t"
proof (induction s arbitrary: t rule: parse_str.induct)
  case (1 s)
  show ?case
  proof (cases "str_piece s")
    case (StrChunk out r')
    then obtain t' where "parse_str r' = Some (t', r)" "t = out @ t'" using 1(2) by (auto simp: parse_str_chunk)
    then show ?thesis using 1(1) [OF StrChunk] str_piece_valid [OF StrChunk] valid_utf8_append by blast
  qed (use 1(2) in \<open>subst (asm) parse_str.simps, simp\<close>)+
qed

text \<open>Every string value the scanner produces is well-formed.\<close>

fun json_utf8 :: "json \<Rightarrow> bool" where
  "json_utf8 (JStr s) = valid_utf8 s"
| "json_utf8 (JArr vs) = (\<forall>v \<in> set vs. json_utf8 v)"
| "json_utf8 (JObj ms) = (\<forall>m \<in> set ms. json_utf8 (snd m))"
| "json_utf8 _ = True"

fun frame_utf8 :: "frame \<Rightarrow> bool" where
  "frame_utf8 (FArr vs) = (\<forall>v \<in> set vs. json_utf8 v)"
| "frame_utf8 (FObj ms k) = (\<forall>m \<in> set ms. json_utf8 (snd m))"

fun token_utf8 :: "token \<Rightarrow> bool" where
  "token_utf8 (TVal v) = json_utf8 v"
| "token_utf8 _ = True"

fun result_utf8 :: "scan_result \<Rightarrow> bool" where
  "result_utf8 (Continue fs e) = list_all frame_utf8 fs"
| "result_utf8 (Finished v) = json_utf8 v"
| "result_utf8 SyntaxError = True"

lemma next_token_utf8: "next_token s = Some (t, r) \<Longrightarrow> token_utf8 t"
  by (auto simp: next_token_def lit_token_def dest: parse_str_valid split: list.splits if_splits)

lemma complete_utf8: "list_all frame_utf8 fs \<Longrightarrow> json_utf8 v \<Longrightarrow> result_utf8 (complete fs v)"
  by (cases "(fs, v)" rule: complete.cases) auto

lemma start_value_utf8: "list_all frame_utf8 fs \<Longrightarrow> token_utf8 t \<Longrightarrow> result_utf8 (start_value fs t)"
  by (cases "(fs, t)" rule: start_value.cases) (auto simp: open_frame_def intro: complete_utf8)

lemma close_frame_utf8: "list_all frame_utf8 fs \<Longrightarrow> result_utf8 (close_frame fs t)"
  by (cases "(fs, t)" rule: close_frame.cases) (auto intro!: complete_utf8)

lemma read_key_utf8: "list_all frame_utf8 fs \<Longrightarrow> result_utf8 (read_key fs t)"
  by (cases "(fs, t)" rule: read_key.cases) auto

lemma scan_step_utf8: "list_all frame_utf8 fs \<Longrightarrow> token_utf8 t \<Longrightarrow> result_utf8 (scan_step fs e t)"
  by (cases e) (fastforce intro: start_value_utf8 close_frame_utf8 read_key_utf8 split: list.splits frame.splits)+

lemma scan_utf8: "scan fs e s = Some (v, r) \<Longrightarrow> list_all frame_utf8 fs \<Longrightarrow> json_utf8 v"
proof (induction fs e s rule: scan.induct)
  case (1 fs e s)
  from 1(2) obtain t r' where t: "next_token s = Some (t, r')" by (subst (asm) scan.simps) (auto split: option.splits)
  have ok: "result_utf8 (scan_step fs e t)" by (rule scan_step_utf8 [OF 1(3) next_token_utf8 [OF t]])
  show ?case
  proof (cases "scan_step fs e t")
    case (Continue fs' e')
    with 1(1) [OF t refl Continue] 1(2) ok show ?thesis by (simp add: scan_token [OF t])
  qed (use 1(2) ok in \<open>simp_all add: scan_token [OF t]\<close>)
qed

lemma json_value_utf8: "json_value s = Some (v, r) \<Longrightarrow> json_utf8 v"
  by (auto simp: json_value_def dest: scan_utf8)

text \<open>A property of structs that every well-formed assignment keeps holds after decoding.\<close>

lemma set_members_keeps:
  assumes "\<And>k f v x. find_field fields k = Some f \<Longrightarrow> json_utf8 v \<Longrightarrow> P x \<Longrightarrow> P (snd (f v x))"
  shows "P x \<Longrightarrow> (\<forall>m \<in> set ms. json_utf8 (snd m)) \<Longrightarrow> P (snd (set_members fields ms (e, x)))"
proof (induction ms arbitrary: e x)
  case (Cons m ms)
  obtain k v where m: "m = (k, v)" by (cases m)
  show ?case
  proof (cases "find_field fields k")
    case (Some f)
    have "P (snd (f v x))" using assms [OF Some] Cons.prems by (simp add: m)
    then show ?thesis using Cons by (auto simp: m Some split: prod.splits)
  qed (use Cons in \<open>simp add: m\<close>)
qed simp

lemma unmarshal_keeps:
  assumes "\<And>k f v x. find_field fields k = Some f \<Longrightarrow> json_utf8 v \<Longrightarrow> P x \<Longrightarrow> P (snd (f v x))" "P x"
  shows "P (snd (unmarshal fields s x))"
proof (cases "json_value s")
  case (Some a)
  obtain v r where v: "json_value s = Some (v, r)" using Some by (cases a) auto
  have u: "json_utf8 v" by (rule json_value_utf8 [OF v])
  have "P (snd (decode_into fields v x))"
  proof (cases v)
    case (JObj ms)
    have "P (snd (set_members fields ms (False, x)))"
      by (rule set_members_keeps) (use assms u JObj in auto)
    then show ?thesis by (simp add: JObj)
  qed (use assms(2) in simp_all)
  then show ?thesis using assms(2) by (simp add: unmarshal_def v)
qed (use assms in \<open>simp add: unmarshal_def\<close>)

text \<open>The fields that can be found are the declared ones.\<close>

lemma find_field_in: "find_field fields k = Some f \<Longrightarrow> \<exists>n. (n, f) \<in> set fields"
proof (cases "map_of fields k")
  case None
  assume "find_field fields k = Some f"
  with None obtain m where "find (\<lambda>(n, _). fold_name n = fold_name k) fields = Some m" "f = snd m"
    by (auto simp: find_field_def)
  then show ?thesis by (cases m) (metis find_Some_iff nth_mem snd_conv)
next
  case (Some g)
  assume "find_field fields k = Some f"
  with Some show ?thesis by (auto simp: find_field_def dest: map_of_SomeD)
qed

section \<open>Lines of JSON\<close>

lemma zero_finite: "f64_finite f64_zero"
  by (simp add: f64_zero_def f64_mag_def f64_round_def)

lemma finite_formats: "f64_finite x \<Longrightarrow> \<exists>t. format_float x = Some t"
  by (cases x) auto

lemma no_newline_object:
  assumes "list_all (\<lambda>(k, t). newline \<notin> set k \<and> newline \<notin> set t) ms"
  shows "newline \<notin> set (json_object ms)"
proof -
  have "newline \<notin> set (json_members ms)"
    using assms by (induction ms rule: json_members.induct) (auto simp: newline_def)
  then show ?thesis by (simp add: json_object_def newline_def)
qed

lemma no_newline_string: "newline \<notin> set (json_string s)"
  using json_escape_printable [of newline s] by (auto simp: json_string_def newline_def)

lemma no_newline_float: "f64_finite x \<Longrightarrow> format_float x = Some t \<Longrightarrow> newline \<notin> set t"
  using format_float_bytes [of x t newline] by (auto simp: newline_def is_digit_def)

lemma encodes_digits: "encodes ''101.5'' (JNum ''101.5'')" "encodes ''2'' (JNum ''2'')"
proof -
  have parts: "num_parts ''101'' ''5'' CHR ''+'' []" "num_parts ''2'' [] CHR ''+'' []"
    by (simp_all add: num_parts_def json_int_def is_digit_def)
  have shape: "num_text ''101'' ''5'' CHR ''+'' [] = ''101.5''" "num_text ''2'' [] CHR ''+'' [] = ''2''"
    by (simp_all add: num_text_def)
  show "encodes ''101.5'' (JNum ''101.5'')" "encodes ''2'' (JNum ''2'')"
    using parse_unsigned_text [OF parts(1)] parse_unsigned_text [OF parts(2)]
    by (auto simp: shape encodes_def next_token_def is_space_def parse_num_def)
qed

end
