(* ===== verification/Hub.thy ===== *)
theory Hub
  imports Runner Json
begin

text \<open>
  The WebSocket hub (\<^verbatim>\<open>server/ws/hub.go\<close>).  Clients are pointers (numbers) into a heap of client
  records; the hub keeps the set of registered ones.  \<open>hub_register\<close>, \<open>hub_unregister\<close> and
  \<open>hub_broadcast\<close> are the three cases of the loop of \<^verbatim>\<open>Run\<close>, with the iteration order over the
  map of clients as an argument; \<open>handle_inbound\<close> is one turn of \<^verbatim>\<open>readPump\<close>.  The step relation
  \<open>hub_step\<close> interleaves the loop with the pumps of all clients and with the publisher; \<open>None\<close>
  as the result of an operation is a run-time panic.  \<^verbatim>\<open>readPump\<close> runs on the goroutine of the HTTP handler, where
  \<^verbatim>\<open>net/http\<close> recovers panics after the deferred calls have run: the reader leaves (rule \<open>handle_panic\<close>).
\<close>

section \<open>Messages\<close>

record inboundMsg =
  im_Type :: bytes
  im_TraderID :: bytes
  im_OrderID :: bytes
  im_Side :: bytes
  im_OrderType :: bytes
  im_Price :: float64
  im_Qty :: float64

record engineOrder =
  eo_TraderID :: bytes
  eo_OrderID :: bytes
  eo_Side :: bytes
  eo_Type :: bytes
  eo_Price :: float64
  eo_Qty :: float64

definition zero_msg :: inboundMsg where
  "zero_msg = \<lparr>im_Type = [], im_TraderID = [], im_OrderID = [], im_Side = [], im_OrderType = [],
     im_Price = f64_zero, im_Qty = f64_zero\<rparr>"

definition inbound_fields :: "inboundMsg field list" where
  "inbound_fields =
     [str_field ''type'' (\<lambda>v. im_Type_update (\<lambda>_. v)),
      str_field ''trader_id'' (\<lambda>v. im_TraderID_update (\<lambda>_. v)),
      str_field ''order_id'' (\<lambda>v. im_OrderID_update (\<lambda>_. v)),
      str_field ''side'' (\<lambda>v. im_Side_update (\<lambda>_. v)),
      str_field ''order_type'' (\<lambda>v. im_OrderType_update (\<lambda>_. v)),
      float_field ''price'' (\<lambda>v. im_Price_update (\<lambda>_. v)),
      float_field ''qty'' (\<lambda>v. im_Qty_update (\<lambda>_. v))]"

definition validateOrder :: "inboundMsg \<Rightarrow> bool" where
  "validateOrder m =
     (if im_TraderID m = [] \<or> im_OrderID m = [] then False
      else if im_Side m \<noteq> ''BUY'' \<and> im_Side m \<noteq> ''SELL'' then False
      else if f64_le0 (im_Qty m) then False
      else True)"

definition to_engineOrder :: "inboundMsg \<Rightarrow> engineOrder" where
  "to_engineOrder m =
     \<lparr>eo_TraderID = im_TraderID m, eo_OrderID = im_OrderID m, eo_Side = im_Side m,
      eo_Type = (if im_OrderType m = [] then ''LIMIT'' else im_OrderType m),
      eo_Price = im_Price m, eo_Qty = im_Qty m\<rparr>"

text \<open>\<^verbatim>\<open>json.Marshal\<close> of the struct: members in the order of its fields; infinities and NaN are errors.\<close>

definition marshal_engineOrder :: "engineOrder \<Rightarrow> bytes option" where
  "marshal_engineOrder ord =
     (case (format_float (eo_Price ord), format_float (eo_Qty ord)) of
        (Some p, Some q) \<Rightarrow>
          Some (json_object
            [(''trader_id'', json_string (eo_TraderID ord)), (''order_id'', json_string (eo_OrderID ord)),
             (''side'', json_string (eo_Side ord)), (''type'', json_string (eo_Type ord)),
             (''price'', p), (''qty'', q)])
      | _ \<Rightarrow> None)"

definition pong :: bytes where
  "pong = json_object [(''type'', json_string ''pong'')]"

section \<open>State\<close>

datatype reader_state = RConnecting | RReading | RHandling bytes | RLeaving | RLeft

text \<open>The last three fields record history: what the writer took from the channel, the broadcasts
  put into it, and how many broadcasts preceded the registration.\<close>

record client =
  send :: "bytes chan"
  conn_closed :: bool
  writer_done :: bool
  reader :: reader_state
  taken :: "bytes list"
  got :: "bytes list"
  joined :: nat

record hub =
  clients :: "nat list"
  broadcast :: "bytes chan"
  hub_runner :: runner
  heap :: "(nat, client) gomap"
  history :: "bytes list"

definition NewHub :: "runner \<Rightarrow> hub" where
  "NewHub r = \<lparr>clients = [], broadcast = make_chan 256, hub_runner = r, heap = [], history = []\<rparr>"

definition new_client :: client where
  "new_client = \<lparr>send = make_chan 256, conn_closed = False, writer_done = False, reader = RConnecting,
     taken = [], got = [], joined = 0\<rparr>"

section \<open>The event loop\<close>

definition hub_register :: "nat \<Rightarrow> hub \<Rightarrow> hub" where
  "hub_register c h = h\<lparr>clients := List.insert c (clients h)\<rparr>"

definition hub_unregister :: "nat \<Rightarrow> hub \<Rightarrow> hub option" where
  "hub_unregister c h =
     (if c \<in> set (clients h) then
        (case map_of (heap h) c of
           None \<Rightarrow> None
         | Some cl \<Rightarrow>
             (case close_chan (send cl) of
                None \<Rightarrow> None
              | Some ch \<Rightarrow> Some (h\<lparr>clients := remove1 c (clients h),
                                   heap := adjust c (send_update (\<lambda>_. ch)) (heap h)\<rparr>)))
      else Some h)"

text \<open>One turn of the loop over the clients; a client whose buffer is full is dropped.\<close>

definition deliver :: "bytes \<Rightarrow> nat \<Rightarrow> hub \<Rightarrow> hub option" where
  "deliver msg c h =
     (case map_of (heap h) c of
        None \<Rightarrow> None
      | Some cl \<Rightarrow>
          (case try_send (send cl) msg of
             Sent ch \<Rightarrow> Some (h\<lparr>heap := adjust c (\<lambda>cl. cl\<lparr>send := ch, got := got cl @ [msg]\<rparr>) (heap h)\<rparr>)
           | WouldBlock \<Rightarrow>
               (case close_chan (send cl) of
                  None \<Rightarrow> None
                | Some ch \<Rightarrow> Some (h\<lparr>heap := adjust c (send_update (\<lambda>_. ch)) (heap h),
                                     clients := remove1 c (clients h)\<rparr>))
           | SendPanic \<Rightarrow> None))"

fun hub_broadcast :: "nat list \<Rightarrow> bytes \<Rightarrow> hub \<Rightarrow> hub option" where
  "hub_broadcast [] msg h = Some h"
| "hub_broadcast (c # cs) msg h =
     (case deliver msg c h of None \<Rightarrow> None | Some h' \<Rightarrow> hub_broadcast cs msg h')"

definition Broadcast :: "bytes \<Rightarrow> hub \<Rightarrow> hub option" where
  "Broadcast msg h = map_option (\<lambda>ch. h\<lparr>broadcast := ch\<rparr>) (offer (broadcast h) msg)"

section \<open>The pumps\<close>

definition handle_inbound :: "write_result \<Rightarrow> bytes \<Rightarrow> bytes chan \<Rightarrow> runner \<Rightarrow> (bytes chan \<times> runner) option" where
  "handle_inbound w raw ch r =
     (case unmarshal inbound_fields raw zero_msg of
        (err, msg) \<Rightarrow>
          if err then Some (ch, r)
          else if im_Type msg = ''order'' then
            (if \<not> validateOrder msg then Some (ch, r)
             else (case marshal_engineOrder (to_engineOrder msg) of
                     None \<Rightarrow> Some (ch, r)
                   | Some orderJSON \<Rightarrow> Some (ch, snd (SendOrder w orderJSON r))))
          else if im_Type msg = ''ping'' then map_option (\<lambda>ch'. (ch', r)) (offer ch pong)
          else Some (ch, r))"

text \<open>\<^verbatim>\<open>ServeWS\<close> after a successful upgrade, up to the point where it waits for the loop to take the
  registration.\<close>

definition ServeWS :: "nat \<Rightarrow> hub \<Rightarrow> hub" where
  "ServeWS c h = h\<lparr>heap := put c new_client (heap h)\<rparr>"

text \<open>One turn of \<^verbatim>\<open>writePump\<close>; the flag says that the write to the socket fails.  The pump ends, and
  closes the connection, on a failed write and when the channel is closed and drained; \<open>None\<close>
  means that it waits.\<close>

definition writePump :: "bool \<Rightarrow> client \<Rightarrow> client option" where
  "writePump failed cl =
     (case try_recv (send cl) of
        Received m ch \<Rightarrow>
          Some (cl\<lparr>send := ch, taken := taken cl @ [m], writer_done := failed,
                   conn_closed := (conn_closed cl \<or> failed)\<rparr>)
      | RecvClosed \<Rightarrow> Some (cl\<lparr>writer_done := True, conn_closed := True\<rparr>)
      | RecvBlocks \<Rightarrow> None)"

definition at_client :: "nat \<Rightarrow> (client \<Rightarrow> client) \<Rightarrow> hub \<Rightarrow> hub" where
  "at_client c f h = h\<lparr>heap := adjust c f (heap h)\<rparr>"

inductive hub_step :: "hub \<Rightarrow> hub \<Rightarrow> bool" where
  connect: "map_of (heap h) c = None \<Longrightarrow> hub_step h (ServeWS c h)"
| register:
    "map_of (heap h) c = Some cl \<Longrightarrow> reader cl = RConnecting \<Longrightarrow>
     hub_step h (at_client c (\<lambda>cl. cl\<lparr>reader := RReading, joined := length (history h)\<rparr>) (hub_register c h))"
| read_message:
    "map_of (heap h) c = Some cl \<Longrightarrow> reader cl = RReading \<Longrightarrow> \<not> conn_closed cl \<Longrightarrow>
     hub_step h (at_client c (reader_update (\<lambda>_. RHandling raw)) h)"
| read_error:
    "map_of (heap h) c = Some cl \<Longrightarrow> reader cl = RReading \<Longrightarrow>
     hub_step h (at_client c (reader_update (\<lambda>_. RLeaving)) h)"
| handle_message:
    "map_of (heap h) c = Some cl \<Longrightarrow> reader cl = RHandling raw \<Longrightarrow>
     handle_inbound w raw (send cl) (hub_runner h) = Some (ch, r) \<Longrightarrow>
     hub_step h (at_client c (\<lambda>cl. cl\<lparr>send := ch, reader := RReading\<rparr>) (h\<lparr>hub_runner := r\<rparr>))"
| handle_panic:
    "map_of (heap h) c = Some cl \<Longrightarrow> reader cl = RHandling raw \<Longrightarrow>
     handle_inbound w raw (send cl) (hub_runner h) = None \<Longrightarrow>
     hub_step h (at_client c (reader_update (\<lambda>_. RLeaving)) h)"
| unregister:
    "map_of (heap h) c = Some cl \<Longrightarrow> reader cl = RLeaving \<Longrightarrow> hub_unregister c h = Some h' \<Longrightarrow>
     hub_step h (at_client c (\<lambda>cl. cl\<lparr>reader := RLeft, conn_closed := True\<rparr>) h')"
| write_pump:
    "map_of (heap h) c = Some cl \<Longrightarrow> reader cl \<noteq> RConnecting \<Longrightarrow> \<not> writer_done cl \<Longrightarrow>
     writePump failed cl = Some cl' \<Longrightarrow> hub_step h (at_client c (\<lambda>_. cl') h)"
| publish: "Broadcast msg h = Some h' \<Longrightarrow> hub_step h h'"
| run_broadcast:
    "try_recv (broadcast h) = Received msg ch \<Longrightarrow> distinct order \<Longrightarrow> set order = set (clients h) \<Longrightarrow>
     hub_broadcast order msg (h\<lparr>broadcast := ch, history := history h @ [msg]\<rparr>) = Some h' \<Longrightarrow>
     hub_step h h'"
| runner_moves: "hub_step h (h\<lparr>hub_runner := r\<rparr>)"

section \<open>Broadcasting to all clients\<close>

declare map_of_eq_Some_iff [simp del]

definition has_room :: "client \<Rightarrow> bool" where
  "has_room cl \<longleftrightarrow> length (ch_buf (send cl)) < ch_cap (send cl)"

text \<open>What one broadcast does to one client.\<close>

definition deliver_client :: "bytes \<Rightarrow> client \<Rightarrow> client" where
  "deliver_client msg cl =
     (if has_room cl then cl\<lparr>send := (send cl)\<lparr>ch_buf := ch_buf (send cl) @ [msg]\<rparr>, got := got cl @ [msg]\<rparr>
      else cl\<lparr>send := (send cl)\<lparr>ch_closed := True\<rparr>\<rparr>)"

lemma adjust_cong: "map_of m k = Some v \<Longrightarrow> f v = g v \<Longrightarrow> adjust k f m = adjust k g m"
  by (induction m) (auto split: if_splits)

lemma deliver_open:
  assumes "map_of (heap h) c = Some cl" "\<not> ch_closed (send cl)"
  shows "deliver msg c h = Some (h\<lparr>heap := adjust c (deliver_client msg) (heap h),
    clients := (if has_room cl then clients h else remove1 c (clients h))\<rparr>)"
  using assms
  by (auto simp: deliver_def chan_defs has_room_def deliver_client_def
      intro!: adjust_cong [OF assms(1)] hub.equality)

definition after_broadcast :: "nat list \<Rightarrow> bytes \<Rightarrow> hub \<Rightarrow> hub \<Rightarrow> bool" where
  "after_broadcast cs msg h h' \<longleftrightarrow>
     keys (heap h') = keys (heap h) \<and>
     (\<forall>c. map_of (heap h') c =
        (if c \<in> set cs then map_option (deliver_client msg) (map_of (heap h) c) else map_of (heap h) c)) \<and>
     clients h' = filter (\<lambda>c. c \<in> set cs \<longrightarrow> (\<exists>cl. map_of (heap h) c = Some cl \<and> has_room cl)) (clients h) \<and>
     broadcast h' = broadcast h \<and> hub_runner h' = hub_runner h \<and> history h' = history h"

lemma hub_broadcast_spec:
  assumes "distinct cs" "distinct (clients h)"
    and "\<forall>c \<in> set cs. \<exists>cl. map_of (heap h) c = Some cl \<and> \<not> ch_closed (send cl)"
  shows "\<exists>h'. hub_broadcast cs msg h = Some h' \<and> after_broadcast cs msg h h'"
  using assms
proof (induction cs arbitrary: h)
  case Nil
  then show ?case by (simp add: after_broadcast_def)
next
  case (Cons c cs)
  obtain cl where cl: "map_of (heap h) c = Some cl" "\<not> ch_closed (send cl)" using Cons.prems by auto
  let ?h1 = "h\<lparr>heap := adjust c (deliver_client msg) (heap h),
    clients := (if has_room cl then clients h else remove1 c (clients h))\<rparr>"
  have d: "deliver msg c h = Some ?h1" by (rule deliver_open [OF cl])
  have "\<exists>h'. hub_broadcast cs msg ?h1 = Some h' \<and> after_broadcast cs msg ?h1 h'"
    using Cons.prems by (intro Cons.IH) (auto simp: map_of_adjust)
  then obtain h' where h': "hub_broadcast cs msg ?h1 = Some h'" "after_broadcast cs msg ?h1 h'" by blast
  have "after_broadcast (c # cs) msg h h'"
    using h'(2) cl Cons.prems(1,2)
    by (auto simp: after_broadcast_def map_of_adjust distinct_remove1_removeAll removeAll_filter_not_eq intro!: filter_cong)
  then show ?case using d h'(1) by simp
qed

section \<open>The invariant\<close>

text \<open>What holds of one client: its channel is open exactly while it is registered (once it is
  connected), and what the channel carried is the broadcasts since it joined, without gaps,
  with pongs in between.\<close>

definition client_ok :: "bytes list \<Rightarrow> bool \<Rightarrow> client \<Rightarrow> bool" where
  "client_ok hist reg cl \<longleftrightarrow>
     chan_ok (send cl) \<and> ch_cap (send cl) = 256 \<and>
     (reader cl = RConnecting \<longrightarrow> \<not> reg \<and> \<not> ch_closed (send cl) \<and> taken cl = [] \<and> ch_buf (send cl) = [] \<and> got cl = []) \<and>
     (reader cl \<noteq> RConnecting \<longrightarrow> (reg \<longleftrightarrow> \<not> ch_closed (send cl))) \<and>
     (reader cl = RLeft \<longrightarrow> \<not> reg) \<and>
     joined cl \<le> length hist \<and> prefix (got cl) (drop (joined cl) hist) \<and>
     (reg \<longrightarrow> got cl = drop (joined cl) hist) \<and>
     (\<exists>k. taken cl @ ch_buf (send cl) \<in> shuffles (got cl) (replicate k pong))"

definition hub_ok :: "hub \<Rightarrow> bool" where
  "hub_ok h \<longleftrightarrow>
     wf_map (heap h) \<and> distinct (clients h) \<and> chan_live (broadcast h) \<and>
     (\<forall>c \<in> set (clients h). map_of (heap h) c \<noteq> None) \<and>
     (\<forall>c cl. map_of (heap h) c = Some cl \<longrightarrow> client_ok (history h) (c \<in> set (clients h)) cl)"

lemma shuffles_snoc_left: "zs \<in> shuffles xs ys \<Longrightarrow> zs @ [x] \<in> shuffles (xs @ [x]) ys"
proof (induction xs ys arbitrary: zs rule: shuffles.induct)
  case (1 ys)
  then show ?case
  proof (induction ys arbitrary: zs)
    case (Cons y ys)
    then show ?case using Cons by (auto simp: Cons_in_shuffles_iff)
  qed simp
next
  case (2 xs)
  then show ?case by simp
next
  case (3 a xs b ys)
  then show ?case by auto
qed

lemma shuffles_snoc_right: "zs \<in> shuffles xs ys \<Longrightarrow> zs @ [y] \<in> shuffles xs (ys @ [y])"
  using shuffles_snoc_left [of zs ys xs y] by (simp add: shuffles_commutes)

lemma shuffles_pong:
  "\<exists>k. zs \<in> shuffles xs (replicate k pong) \<Longrightarrow> \<exists>k. zs @ [pong] \<in> shuffles xs (replicate k pong)"
  by (metis replicate_Suc replicate_append_same shuffles_snoc_right)

lemma shuffles_got:
  "\<exists>k. zs \<in> shuffles xs (replicate k pong) \<Longrightarrow> \<exists>k. zs @ [x] \<in> shuffles (xs @ [x]) (replicate k pong)"
  by (blast intro: shuffles_snoc_left)

lemma client_ok_new: "client_ok hist False new_client"
  by (auto simp: client_ok_def new_client_def chan_defs)

lemma client_ok_deliver:
  assumes "client_ok hist True cl"
  shows "client_ok (hist @ [msg]) (has_room cl) (deliver_client msg cl)"
proof -
  have "\<exists>k. (taken cl @ ch_buf (send cl)) @ [msg] \<in> shuffles (got cl @ [msg]) (replicate k pong)"
    by (rule shuffles_got) (use assms in \<open>unfold client_ok_def, blast\<close>)
  with assms show ?thesis
    by (auto simp: client_ok_def deliver_client_def has_room_def chan_defs)
qed

lemma client_ok_unreg_hist: "client_ok hist False cl \<Longrightarrow> client_ok (hist @ [msg]) False cl"
  by (auto simp: client_ok_def intro: prefix_prefix)

lemma client_ok_close: "client_ok hist True cl \<Longrightarrow> client_ok hist False (cl\<lparr>send := (send cl)\<lparr>ch_closed := True\<rparr>\<rparr>)"
  by (auto simp: client_ok_def chan_defs)

lemma hub_ok_new: "hub_ok (NewHub r)"
  by (simp add: hub_ok_def NewHub_def)

lemma hub_ok_at:
  assumes "hub_ok h" "map_of (heap h) c = Some cl" "client_ok (history h) (c \<in> set (clients h)) (f cl)"
  shows "hub_ok (at_client c f h)"
  using assms by (auto simp: hub_ok_def at_client_def map_of_adjust)

lemma hub_ok_client: "hub_ok h \<Longrightarrow> map_of (heap h) c = Some cl \<Longrightarrow> client_ok (history h) (c \<in> set (clients h)) cl"
  by (simp add: hub_ok_def)

lemma hub_ok_registered:
  assumes "hub_ok h" "c \<in> set (clients h)"
  obtains cl where "map_of (heap h) c = Some cl" "\<not> ch_closed (send cl)" "client_ok (history h) True cl"
proof -
  obtain cl where cl: "map_of (heap h) c = Some cl" using assms by (auto simp: hub_ok_def)
  have ok: "client_ok (history h) True cl" using hub_ok_client [OF assms(1) cl] assms(2) by simp
  then have "\<not> ch_closed (send cl)" by (auto simp: client_ok_def)
  with cl ok show thesis using that by blast
qed

lemma hub_ok_runner: "hub_ok h \<Longrightarrow> hub_ok (h\<lparr>hub_runner := r\<rparr>)"
  by (simp add: hub_ok_def)

lemma hub_unregister_ok:
  assumes "hub_ok h" "map_of (heap h) c = Some cl" "reader cl = RLeaving"
  shows "\<exists>h' cl'. hub_unregister c h = Some h' \<and> hub_ok h' \<and> history h' = history h \<and> map_of (heap h') c = Some cl' \<and>
    client_ok (history h) False cl' \<and> c \<notin> set (clients h') \<and> reader cl' = RLeaving"
proof (cases "c \<in> set (clients h)")
  case True
  then obtain cl2 where "map_of (heap h) c = Some cl2" "\<not> ch_closed (send cl2)" "client_ok (history h) True cl2"
    using hub_ok_registered [OF assms(1)] by blast
  with assms have cl: "\<not> ch_closed (send cl)" "client_ok (history h) True cl" by auto
  let ?h = "h\<lparr>clients := remove1 c (clients h), heap := adjust c (send_update (\<lambda>_. (send cl)\<lparr>ch_closed := True\<rparr>)) (heap h)\<rparr>"
  have "hub_unregister c h = Some ?h" using True assms(2) cl by (simp add: hub_unregister_def chan_defs)
  moreover have "hub_ok ?h"
    using assms(1,2) client_ok_close [OF cl(2)] by (auto simp: hub_ok_def map_of_adjust dest: notin_set_remove1)
  ultimately show ?thesis
    using assms client_ok_close [OF cl(2)] by (auto simp: hub_ok_def)
next
  case False
  then show ?thesis using assms hub_ok_client by (fastforce simp: hub_unregister_def)
qed

lemma handle_inbound_chan:
  assumes "handle_inbound w raw ch r = Some (ch', r')"
  shows "ch' = ch \<or> offer ch pong = Some ch'"
  using assms by (auto simp: handle_inbound_def split: prod.splits if_splits option.splits)

lemma client_ok_handle:
  assumes "client_ok hist reg cl" "ch = send cl \<or> offer (send cl) pong = Some ch" "reader cl = RHandling raw"
  shows "client_ok hist reg (cl\<lparr>send := ch, reader := RReading\<rparr>)"
proof -
  have "\<exists>k. (taken cl @ ch_buf (send cl)) @ [pong] \<in> shuffles (got cl) (replicate k pong)"
    by (rule shuffles_pong) (use assms in \<open>unfold client_ok_def, blast\<close>)
  then show ?thesis using assms by (auto simp: client_ok_def chan_defs split: if_splits)
qed

lemma client_ok_write:
  assumes "client_ok hist reg cl" "writePump failed cl = Some cl'" "reader cl \<noteq> RConnecting"
  shows "client_ok hist reg cl'"
  using assms by (auto simp: writePump_def client_ok_def chan_defs split: list.splits if_splits)

lemma hub_ok_broadcast:
  assumes "hub_ok h" "chan_live ch" "distinct order" "set order = set (clients h)"
  shows "\<exists>h'. hub_broadcast order msg (h\<lparr>broadcast := ch, history := history h @ [msg]\<rparr>) = Some h' \<and> hub_ok h'"
proof -
  let ?h = "h\<lparr>broadcast := ch, history := history h @ [msg]\<rparr>"
  have "\<forall>c \<in> set order. \<exists>cl. map_of (heap ?h) c = Some cl \<and> \<not> ch_closed (send cl)"
    using assms(1,4) hub_ok_registered by (metis hub.select_convs(4) hub.surjective hub.update_convs(2,5))
  then obtain h' where h': "hub_broadcast order msg ?h = Some h'" "after_broadcast order msg ?h h'"
    using hub_broadcast_spec [of order ?h msg] assms(1,3) by (auto simp: hub_ok_def)
  have "client_ok (history h') (c \<in> set (clients h')) cl'" if cl': "map_of (heap h') c = Some cl'" for c cl'
  proof (cases "c \<in> set (clients h)")
    case True
    then obtain cl where cl: "map_of (heap h) c = Some cl" "client_ok (history h) True cl"
      using assms(1) by (blast elim: hub_ok_registered)
    then show ?thesis
      using client_ok_deliver [OF cl(2), of msg] True cl' h'(2) assms(4) by (auto simp: after_broadcast_def)
  next
    case False
    then have "map_of (heap h) c = Some cl'" using cl' h'(2) assms(4) by (simp add: after_broadcast_def)
    then show ?thesis
      using client_ok_unreg_hist hub_ok_client [OF assms(1)] False h'(2) by (fastforce simp: after_broadcast_def)
  qed
  then have "hub_ok h'"
    using h'(2) assms(1,2,4) by (auto simp: hub_ok_def after_broadcast_def)
  with h' show ?thesis by blast
qed

lemma hub_ok_step: "hub_step h h' \<Longrightarrow> hub_ok h \<Longrightarrow> hub_ok h'"
proof (induction rule: hub_step.cases)
  case (connect h c)
  then have "c \<notin> set (clients h)" by (auto simp: hub_ok_def)
  with connect show ?case using client_ok_new by (auto simp: hub_ok_def ServeWS_def update_conv' distinct_update)
next
  case (register h c cl)
  then have ok: "client_ok (history h) False cl" "c \<notin> set (clients h)"
    using hub_ok_client [of h c cl] by (auto simp: client_ok_def)
  then have "client_ok (history h) True (cl\<lparr>reader := RReading, joined := length (history h)\<rparr>)"
    using register by (auto simp: client_ok_def)
  then show ?case using register ok
    by (auto simp: hub_ok_def at_client_def hub_register_def map_of_adjust)
next
  case (read_message h c cl raw)
  then show ?case using hub_ok_client [of h c cl] by (auto intro!: hub_ok_at simp: client_ok_def)
next
  case (read_error h c cl)
  then show ?case using hub_ok_client [of h c cl] by (auto intro!: hub_ok_at simp: client_ok_def)
next
  case (handle_message h c cl raw w ch r)
  then have "client_ok (history h) (c \<in> set (clients h)) (cl\<lparr>send := ch, reader := RReading\<rparr>)"
    using hub_ok_client handle_inbound_chan by (blast intro: client_ok_handle)
  with handle_message show ?case by (auto intro!: hub_ok_at hub_ok_runner)
next
  case (handle_panic h c cl raw w)
  then show ?case using hub_ok_client [of h c cl] by (auto intro!: hub_ok_at simp: client_ok_def)
next
  case (unregister h c cl h1)
  then obtain cl' where "hub_ok h1" "history h1 = history h" "map_of (heap h1) c = Some cl'" "client_ok (history h) False cl'"
    "c \<notin> set (clients h1)" "reader cl' = RLeaving"
    using hub_unregister_ok [of h c cl] by auto
  then show ?case using unregister by (auto intro!: hub_ok_at simp: client_ok_def)
next
  case (write_pump h c cl failed cl')
  then show ?case using hub_ok_client [of h c cl] by (auto intro!: hub_ok_at intro: client_ok_write)
next
  case (publish msg h h1)
  then show ?case by (auto simp: hub_ok_def Broadcast_def dest: offer_live)
next
  case (run_broadcast h msg ch order h1)
  then have "chan_live ch" by (auto simp: hub_ok_def intro: recv_keeps_live)
  then show ?case using run_broadcast hub_ok_broadcast [of h ch order msg] by auto
qed (simp add: hub_ok_runner)

interpretation ws_hub: guarded_system "\<lambda>h. \<exists>r. h = NewHub r" hub_step hub_ok
  by unfold_locales (auto intro: hub_ok_step hub_ok_new)

section \<open>Correctness of the hub\<close>

text \<open>Property C33. In every interleaving of the hub's loop with any number of connecting, reading,
  writing and leaving clients, the loop never panics: unregistering a leaving client and
  broadcasting to the registered ones always succeed, whatever order the map is iterated in.
  The reason is the invariant that a connected client's channel is open exactly while
  it is registered, so no channel is closed twice or sent on after it was closed by the loop.\<close>

theorem hub_loop_never_panics:
  assumes "hub_step\<^sup>*\<^sup>* (NewHub r) h"
  shows "(\<forall>c cl. map_of (heap h) c = Some cl \<and> reader cl = RLeaving \<longrightarrow> hub_unregister c h \<noteq> None) \<and>
    (\<forall>order msg. distinct order \<and> set order = set (clients h) \<longrightarrow> hub_broadcast order msg h \<noteq> None) \<and>
    (\<forall>c cl. map_of (heap h) c = Some cl \<and> reader cl \<noteq> RConnecting \<longrightarrow>
       (c \<in> set (clients h) \<longleftrightarrow> \<not> ch_closed (send cl)))"
proof (intro conjI allI impI; (elim conjE)?)
  have ok: "hub_ok h" using assms by (blast intro: ws_hub.reachable_good)
  show "hub_unregister c h \<noteq> None" if "map_of (heap h) c = Some cl" "reader cl = RLeaving" for c cl
    using hub_unregister_ok [OF ok that] by auto
  show "hub_broadcast order msg h \<noteq> None" if "distinct order" "set order = set (clients h)" for order msg
  proof -
    have "\<forall>c \<in> set order. \<exists>cl. map_of (heap h) c = Some cl \<and> \<not> ch_closed (send cl)"
      using hub_ok_registered [OF ok] that(2) by metis
    then show ?thesis using hub_broadcast_spec [of order h msg] that(1) ok by (auto simp: hub_ok_def)
  qed
  show "c \<in> set (clients h) \<longleftrightarrow> \<not> ch_closed (send cl)" if "map_of (heap h) c = Some cl" "reader cl \<noteq> RConnecting" for c cl
    using hub_ok_client [OF ok that(1)] that(2) by (auto simp: client_ok_def)
qed

text \<open>Property C12. A client never misses a broadcast silently: as long as it is registered, the messages
  its writer took followed by those still queued are all the messages broadcast since it
  registered, in order and without gaps, with only replies to its own pings in between; a client that was
  dropped got an unbroken initial part of them.\<close>

theorem hub_delivers_without_gaps:
  assumes "hub_step\<^sup>*\<^sup>* (NewHub r) h" "map_of (heap h) c = Some cl"
  shows "\<exists>seen k. taken cl @ ch_buf (send cl) \<in> shuffles seen (replicate k pong) \<and>
    prefix seen (drop (joined cl) (history h)) \<and>
    (c \<in> set (clients h) \<longrightarrow> seen = drop (joined cl) (history h))"
proof -
  have "hub_ok h" using assms by (blast intro: ws_hub.reachable_good)
  from hub_ok_client [OF this assms(2)] show ?thesis unfolding client_ok_def by blast
qed

text \<open>Property C34. The outcome of a broadcast does not depend on the order in which Go happens to iterate
  over the map of clients.\<close>

theorem broadcast_order_irrelevant:
  assumes "hub_step\<^sup>*\<^sup>* (NewHub r) h" "distinct o1" "set o1 = set (clients h)" "distinct o2" "set o2 = set (clients h)"
  shows "hub_broadcast o1 msg h = hub_broadcast o2 msg h"
proof -
  have ok: "hub_ok h" using assms by (blast intro: ws_hub.reachable_good)
  have open_cl: "\<forall>c \<in> set (clients h). \<exists>cl. map_of (heap h) c = Some cl \<and> \<not> ch_closed (send cl)"
    using hub_ok_registered [OF ok] by metis
  obtain h1 where h1: "hub_broadcast o1 msg h = Some h1" "after_broadcast o1 msg h h1"
    using hub_broadcast_spec [of o1 h msg] assms(2,3) ok open_cl by (auto simp: hub_ok_def)
  obtain h2 where h2: "hub_broadcast o2 msg h = Some h2" "after_broadcast o2 msg h h2"
    using hub_broadcast_spec [of o2 h msg] assms(4,5) ok open_cl by (auto simp: hub_ok_def)
  have "heap h1 = heap h2"
    by (rule gomap_eqI) (use h1(2) h2(2) ok assms(3,5) in \<open>auto simp: after_broadcast_def hub_ok_def\<close>)
  then show ?thesis
    using h1 h2 assms(3,5) by (auto simp: after_broadcast_def intro!: hub.equality)
qed

section \<open>Slow clients and pings\<close>

definition ping_msg :: bytes where
  "ping_msg = json_object [(''type'', json_string ''ping'')]"

text \<open>A client that has sent a ping and reads nothing, after some broadcasts.\<close>

definition stuck_client :: "nat \<Rightarrow> client" where
  "stuck_client n = \<lparr>send = \<lparr>ch_buf = replicate n ''x'', ch_cap = 256, ch_closed = False\<rparr>, conn_closed = False,
     writer_done = False, reader = RHandling ping_msg, taken = [], got = replicate n ''x'', joined = 0\<rparr>"

definition flooded :: "runner \<Rightarrow> nat \<Rightarrow> hub" where
  "flooded r n = \<lparr>clients = [0], broadcast = make_chan 256, hub_runner = r, heap = [(0, stuck_client n)],
     history = replicate n ''x''\<rparr>"

definition evicted :: "runner \<Rightarrow> hub" where
  "evicted r = (flooded r 256)\<lparr>clients := [], history := replicate 257 ''x'',
     heap := [(0, (stuck_client 256)\<lparr>send := \<lparr>ch_buf = replicate 256 ''x'', ch_cap = 256, ch_closed = True\<rparr>\<rparr>)]\<rparr>"

lemma flooded_start: "hub_step\<^sup>*\<^sup>* (NewHub r) (flooded r 0)"
proof -
  let ?h1 = "ServeWS 0 (NewHub r)"
  let ?h2 = "at_client 0 (\<lambda>cl. cl\<lparr>reader := RReading, joined := length (history ?h1)\<rparr>) (hub_register 0 ?h1)"
  have "hub_step (NewHub r) ?h1" by (rule hub_step.connect) (simp add: NewHub_def)
  moreover have "hub_step ?h1 ?h2" by (rule hub_step.register [of _ _ new_client]) (simp_all add: ServeWS_def NewHub_def new_client_def)
  moreover have "hub_step ?h2 (at_client 0 (reader_update (\<lambda>_. RHandling ping_msg)) ?h2)"
    by (rule hub_step.read_message [of _ _ "new_client\<lparr>reader := RReading, joined := 0\<rparr>"])
       (simp_all add: ServeWS_def NewHub_def new_client_def at_client_def hub_register_def)
  moreover have "at_client 0 (reader_update (\<lambda>_. RHandling ping_msg)) ?h2 = flooded r 0"
    by (simp add: ServeWS_def NewHub_def new_client_def at_client_def hub_register_def flooded_def stuck_client_def make_chan_def)
  ultimately show ?thesis by (metis (no_types, lifting) rtranclp.rtrancl_into_rtrancl rtranclp.rtrancl_refl)
qed

text \<open>Publishing one message and broadcasting it to the only client.\<close>

lemma one_broadcast:
  assumes "hub_broadcast [0] ''x'' ((flooded r n)\<lparr>history := replicate (Suc n) ''x''\<rparr>) = Some h"
  shows "hub_step\<^sup>*\<^sup>* (flooded r n) h"
proof -
  let ?h1 = "(flooded r n)\<lparr>broadcast := \<lparr>ch_buf = [''x''], ch_cap = 256, ch_closed = False\<rparr>\<rparr>"
  have same: "?h1\<lparr>broadcast := make_chan 256, history := replicate n ''x'' @ [''x'']\<rparr> = (flooded r n)\<lparr>history := replicate (Suc n) ''x''\<rparr>"
    by (simp add: flooded_def replicate_append_same)
  have "hub_step (flooded r n) ?h1"
    by (rule hub_step.publish [of "''x''"]) (simp add: Broadcast_def flooded_def go_eval)
  moreover have "hub_step ?h1 h"
    by (rule hub_step.run_broadcast [of _ "''x''" "make_chan 256" "[0]"])
       (use assms same in \<open>simp_all add: flooded_def go_eval\<close>)
  ultimately show ?thesis by simp
qed

lemma flooded_reachable: "n \<le> 256 \<Longrightarrow> hub_step\<^sup>*\<^sup>* (NewHub r) (flooded r n)"
proof (induction n)
  case (Suc n)
  have "hub_broadcast [0] ''x'' ((flooded r n)\<lparr>history := replicate (Suc n) ''x''\<rparr>) = Some (flooded r (Suc n))"
    using Suc.prems by (simp add: deliver_def flooded_def stuck_client_def chan_defs replicate_append_same)
  from one_broadcast [OF this] Suc show ?case by simp
qed (rule flooded_start)

lemma evicted_reachable: "hub_step\<^sup>*\<^sup>* (NewHub r) (evicted r)"
proof -
  have "hub_broadcast [0] ''x'' ((flooded r 256)\<lparr>history := replicate (Suc 256) ''x''\<rparr>) = Some (evicted r)"
    by (simp add: deliver_def flooded_def stuck_client_def evicted_def chan_defs del: replicate.simps)
  from one_broadcast [OF this] flooded_reachable [of 256 r] show ?thesis by simp
qed

lemma ping_decoded: "unmarshal inbound_fields ping_msg zero_msg = (False, zero_msg\<lparr>im_Type := ''ping''\<rparr>)"
proof -
  have "list_all member_ok [(''type'', json_string ''ping'', JStr ''ping'')]"
    using encodes_string [of "''ping''"] by (simp add: member_ok_def plain_key_def)
  from unmarshal_object [OF _ this, of inbound_fields zero_msg] show ?thesis
    by (simp add: ping_msg_def inbound_fields_def find_field_def str_field_def)
qed

lemma handle_ping: "handle_inbound w ping_msg ch r = map_option (\<lambda>ch'. (ch', r)) (offer ch pong)"
  by (simp add: handle_inbound_def ping_decoded)

theorem hub_loop_never_panics_witness:
  "hub_broadcast [0] ''y'' (flooded demo_runner 256) \<noteq> None \<and> hub_broadcast [] ''y'' (evicted demo_runner) \<noteq> None"
proof -
  have "distinct [0]" "set [0] = set (clients (flooded demo_runner 256))" "set [] = set (clients (evicted demo_runner))"
    by (simp_all add: flooded_def evicted_def)
  then show ?thesis
    using hub_loop_never_panics [OF flooded_reachable [OF order_refl], of demo_runner]
      hub_loop_never_panics [OF evicted_reachable, of demo_runner] by (metis distinct.simps(1))
qed

theorem hub_delivers_without_gaps_witness:
  "\<exists>seen k. replicate 256 ''x'' \<in> shuffles seen (replicate k pong) \<and> seen = replicate 256 ''x''"
proof -
  have "map_of (heap (flooded demo_runner 256)) 0 = Some (stuck_client 256)" by (simp add: flooded_def)
  from hub_delivers_without_gaps [OF flooded_reachable [OF order_refl] this] show ?thesis
    by (auto simp: flooded_def stuck_client_def simp del: replicate.simps)
qed

text \<open>A second client joins while the first is stuck with a full buffer; whichever the next broadcast meets first, it drops the one
  and reaches the other.\<close>

definition fresh_client :: client where
  "fresh_client = new_client\<lparr>reader := RReading, joined := 256\<rparr>"

definition joined_hub :: "runner \<Rightarrow> hub" where
  "joined_hub r = (flooded r 256)\<lparr>clients := [1, 0], heap := put 1 fresh_client (heap (flooded r 256))\<rparr>"

lemma joined_reachable: "hub_step\<^sup>*\<^sup>* (NewHub r) (joined_hub r)"
proof -
  let ?h = "ServeWS 1 (flooded r 256)"
  have "hub_step (flooded r 256) ?h" by (rule hub_step.connect) (simp add: flooded_def)
  moreover have "hub_step ?h (at_client 1 (\<lambda>cl. cl\<lparr>reader := RReading, joined := length (history ?h)\<rparr>) (hub_register 1 ?h))"
    by (rule hub_step.register [of _ _ new_client]) (simp_all add: ServeWS_def flooded_def new_client_def)
  moreover have "at_client 1 (\<lambda>cl. cl\<lparr>reader := RReading, joined := length (history ?h)\<rparr>) (hub_register 1 ?h) = joined_hub r"
    by (simp add: joined_hub_def flooded_def ServeWS_def at_client_def hub_register_def new_client_def fresh_client_def)
  ultimately show ?thesis using flooded_reachable [OF order_refl, of r] by (metis rtranclp.rtrancl_into_rtrancl)
qed

theorem broadcast_order_irrelevant_witness:
  "\<exists>h cl. hub_broadcast [0, 1] ''y'' (joined_hub demo_runner) = Some h \<and> hub_broadcast [1, 0] ''y'' (joined_hub demo_runner) = Some h \<and>
     clients h = [1] \<and> map_of (heap h) 1 = Some cl \<and> got cl = [''y'']"
proof -
  have eq: "hub_broadcast [0, 1] ''y'' (joined_hub demo_runner) = hub_broadcast [1, 0] ''y'' (joined_hub demo_runner)"
    by (rule broadcast_order_irrelevant [OF joined_reachable]) (simp_all add: joined_hub_def insert_commute)
  show ?thesis
    unfolding eq
    by (simp add: joined_hub_def flooded_def stuck_client_def fresh_client_def new_client_def deliver_def chan_defs del: replicate.simps)
qed

text \<open>Property C36. A reader panics on exactly one occasion: its client sends a ping after the hub has dropped it for being slow
  (the handler then sends on the closed channel).  The panic stays with that connection: the deferred calls
  unregister the client and close its connection, and neither the registered clients nor the state of any
  other client nor the broadcasts still queued change.\<close>

theorem reader_panic_confined:
  assumes "hub_step\<^sup>*\<^sup>* (NewHub r) h" "map_of (heap h) c = Some cl" "reader cl = RHandling raw"
    and "unmarshal inbound_fields raw zero_msg = (err, msg)"
  shows "(handle_inbound w raw (send cl) (hub_runner h) = None \<longleftrightarrow> \<not> err \<and> im_Type msg = ''ping'' \<and> c \<notin> set (clients h)) \<and>
    (handle_inbound w raw (send cl) (hub_runner h) = None \<longrightarrow>
      (\<exists>h'. hub_step\<^sup>*\<^sup>* h h' \<and> map_of (heap h') c = Some (cl\<lparr>reader := RLeft, conn_closed := True\<rparr>) \<and>
         clients h' = clients h \<and> broadcast h' = broadcast h \<and> hub_runner h' = hub_runner h \<and>
         (\<forall>c'. c' \<noteq> c \<longrightarrow> map_of (heap h') c' = map_of (heap h) c')))"
proof (intro conjI impI)
  have "hub_ok h" using assms(1) by (blast intro: ws_hub.reachable_good)
  then have "client_ok (history h) (c \<in> set (clients h)) cl" by (rule hub_ok_client [OF _ assms(2)])
  then have reg: "c \<in> set (clients h) \<longleftrightarrow> \<not> ch_closed (send cl)" using assms(3) by (simp add: client_ok_def)
  show iff: "handle_inbound w raw (send cl) (hub_runner h) = None \<longleftrightarrow> \<not> err \<and> im_Type msg = ''ping'' \<and> c \<notin> set (clients h)"
    by (auto simp: handle_inbound_def assms(4) reg offer_None_iff split: option.splits)
  assume panic: "handle_inbound w raw (send cl) (hub_runner h) = None"
  let ?h1 = "at_client c (reader_update (\<lambda>_. RLeaving)) h"
  let ?h2 = "at_client c (\<lambda>cl. cl\<lparr>reader := RLeft, conn_closed := True\<rparr>) ?h1"
  have "hub_step h ?h1" by (rule hub_step.handle_panic [OF assms(2,3) panic])
  moreover have "hub_step ?h1 ?h2"
    by (rule hub_step.unregister [of _ _ "cl\<lparr>reader := RLeaving\<rparr>"])
       (use assms(2) iff panic in \<open>auto simp: at_client_def hub_unregister_def\<close>)
  ultimately have "hub_step\<^sup>*\<^sup>* h ?h2" by (rule two_steps)
  moreover have "map_of (heap ?h2) c = Some (cl\<lparr>reader := RLeft, conn_closed := True\<rparr>)"
    using assms(2) by (simp add: at_client_def)
  ultimately show "\<exists>h'. hub_step\<^sup>*\<^sup>* h h' \<and> map_of (heap h') c = Some (cl\<lparr>reader := RLeft, conn_closed := True\<rparr>) \<and>
         clients h' = clients h \<and> broadcast h' = broadcast h \<and> hub_runner h' = hub_runner h \<and>
         (\<forall>c'. c' \<noteq> c \<longrightarrow> map_of (heap h') c' = map_of (heap h) c')"
    by (intro exI [of _ ?h2]) (simp add: at_client_def)
qed

text \<open>It does happen: a client that reads nothing is dropped at the 257th broadcast with a ping still to be handled.\<close>

theorem reader_panic_confined_witness:
  "\<exists>cl h'. map_of (heap (evicted demo_runner)) 0 = Some cl \<and> reader cl = RHandling ping_msg \<and> \<not> conn_closed cl \<and>
     handle_inbound WriteOk ping_msg (send cl) demo_runner = None \<and>
     hub_step\<^sup>*\<^sup>* (evicted demo_runner) h' \<and> map_of (heap h') 0 = Some (cl\<lparr>reader := RLeft, conn_closed := True\<rparr>)"
proof -
  obtain cl where cl: "map_of (heap (evicted demo_runner)) 0 = Some cl" "reader cl = RHandling ping_msg" "\<not> conn_closed cl"
    by (simp add: evicted_def stuck_client_def del: replicate.simps)
  have "hub_runner (evicted demo_runner) = demo_runner" "clients (evicted demo_runner) = []" by (simp_all add: evicted_def flooded_def)
  then show ?thesis
    using reader_panic_confined [OF evicted_reachable cl(1,2) ping_decoded, of WriteOk] cl by auto
qed

section \<open>Forwarding orders\<close>

text \<open>Decoded messages carry well-formed text and finite numbers.\<close>

definition msg_clean :: "inboundMsg \<Rightarrow> bool" where
  "msg_clean m \<longleftrightarrow> valid_utf8 (im_TraderID m) \<and> valid_utf8 (im_OrderID m) \<and> valid_utf8 (im_Side m) \<and>
     valid_utf8 (im_OrderType m) \<and> f64_finite (im_Price m) \<and> f64_finite (im_Qty m)"

lemma msg_clean_assign:
  assumes "find_field inbound_fields k = Some f" "json_utf8 v" "msg_clean m"
  shows "msg_clean (snd (f v m))"
proof -
  obtain n where "(n, f) \<in> set inbound_fields" using find_field_in [OF assms(1)] by blast
  with assms(2,3) show ?thesis
    by (cases v) (auto simp: inbound_fields_def str_field_def float_field_def msg_clean_def
        dest: parse_float_finite split: option.splits)
qed

lemma inbound_clean:
  assumes "unmarshal inbound_fields raw zero_msg = (e, m)"
  shows "msg_clean m"
proof -
  have "msg_clean (snd (unmarshal inbound_fields raw zero_msg))"
  proof (rule unmarshal_keeps)
    show "msg_clean zero_msg" by (simp add: msg_clean_def zero_msg_def zero_finite)
  qed (rule msg_clean_assign)
  then show ?thesis by (simp add: assms)
qed

definition order_clean :: "engineOrder \<Rightarrow> bool" where
  "order_clean ord \<longleftrightarrow> valid_utf8 (eo_TraderID ord) \<and> valid_utf8 (eo_OrderID ord) \<and> valid_utf8 (eo_Side ord) \<and>
     valid_utf8 (eo_Type ord) \<and> f64_finite (eo_Price ord) \<and> f64_finite (eo_Qty ord)"

lemma to_engineOrder_clean: "msg_clean m \<Longrightarrow> order_clean (to_engineOrder m)"
  by (simp add: msg_clean_def order_clean_def to_engineOrder_def)

text \<open>A clean order is written as one line that reads back as the order.\<close>

lemma marshal_engineOrder_reads:
  assumes "order_clean ord"
  obtains t p q where "marshal_engineOrder ord = Some t" "newline \<notin> set t"
    "json_value t = Some (JObj [(''trader_id'', JStr (eo_TraderID ord)), (''order_id'', JStr (eo_OrderID ord)),
       (''side'', JStr (eo_Side ord)), (''type'', JStr (eo_Type ord)), (''price'', JNum p), (''qty'', JNum q)], [])"
    "parse_float p = Some (eo_Price ord)" "parse_float q = Some (eo_Qty ord)"
proof -
  have fin: "f64_finite (eo_Price ord)" "f64_finite (eo_Qty ord)" using assms by (simp_all add: order_clean_def)
  obtain p q where pq: "format_float (eo_Price ord) = Some p" "format_float (eo_Qty ord) = Some q"
    using fin finite_formats by meson
  let ?ms = "[(''trader_id'', json_string (eo_TraderID ord), JStr (eo_TraderID ord)),
    (''order_id'', json_string (eo_OrderID ord), JStr (eo_OrderID ord)), (''side'', json_string (eo_Side ord), JStr (eo_Side ord)),
    (''type'', json_string (eo_Type ord), JStr (eo_Type ord)), (''price'', p, JNum p), (''qty'', q, JNum q)]"
  let ?t = "json_object (map (\<lambda>(k, t, v). (k, t)) ?ms)"
  have "list_all member_ok ?ms"
    using assms encodes_string encodes_float [OF fin(1) pq(1)] encodes_float [OF fin(2) pq(2)]
    by (simp add: member_ok_def plain_key_def order_clean_def)
  from json_value_object [OF _ this, of "[]"]
  have "json_value ?t = Some (JObj [(''trader_id'', JStr (eo_TraderID ord)), (''order_id'', JStr (eo_OrderID ord)),
       (''side'', JStr (eo_Side ord)), (''type'', JStr (eo_Type ord)), (''price'', JNum p), (''qty'', JNum q)], [])"
    by simp
  moreover have "marshal_engineOrder ord = Some ?t" by (simp add: marshal_engineOrder_def pq)
  moreover have "newline \<notin> set ?t"
    by (rule no_newline_object)
       (use no_newline_string no_newline_float [OF fin(1) pq(1)] no_newline_float [OF fin(2) pq(2)] in \<open>simp add: newline_def\<close>)
  ultimately show thesis using parse_format fin pq that by blast
qed

text \<open>Property C35. Every valid order a browser sends reaches the engine unchanged: while the engine runs, a
  message that decodes to an order with ids, a side and a positive quantity appends exactly
  one line to the engine's input, and that line is a JSON object with the sender's trader id,
  order id and side, the order type (LIMIT when none was given), and numbers that read back as exactly
  the given price and quantity.\<close>

theorem hub_forwards_order:
  assumes "unmarshal inbound_fields raw zero_msg = (False, m)" "im_Type m = ''order''" "validateOrder m"
    and "stdinPipe r = Some p"
  shows "\<exists>t pt qt. handle_inbound WriteOk raw ch r = Some (ch, r\<lparr>stdinPipe := Some (p @ t @ [newline])\<rparr>) \<and>
    newline \<notin> set t \<and>
    json_value t = Some (JObj [(''trader_id'', JStr (im_TraderID m)), (''order_id'', JStr (im_OrderID m)),
       (''side'', JStr (im_Side m)), (''type'', JStr (if im_OrderType m = [] then ''LIMIT'' else im_OrderType m)),
       (''price'', JNum pt), (''qty'', JNum qt)], []) \<and>
    parse_float pt = Some (im_Price m) \<and> parse_float qt = Some (im_Qty m)"
proof -
  have "order_clean (to_engineOrder m)" by (rule to_engineOrder_clean [OF inbound_clean [OF assms(1)]])
  then show ?thesis
    by (rule marshal_engineOrder_reads)
       (use assms in \<open>auto simp: handle_inbound_def SendOrder_def Let_def to_engineOrder_def\<close>)
qed

text \<open>Nothing else a browser sends reaches the engine: a message that does not decode, that
  is not an order, or whose order lacks an id, names no side or has no positive quantity leaves the runner unchanged.\<close>

theorem hub_forwards_nothing_else:
  assumes "unmarshal inbound_fields raw zero_msg = (err, m)"
    and "err \<or> im_Type m \<noteq> ''order'' \<or> im_TraderID m = [] \<or> im_OrderID m = [] \<or>
         im_Side m \<notin> {''BUY'', ''SELL''} \<or> f64_le0 (im_Qty m)"
    and "handle_inbound w raw ch r = Some (ch', r')"
  shows "r' = r"
  using assms by (auto simp: handle_inbound_def validateOrder_def split: if_splits option.splits)

text \<open>A browser's order, as it arrives.\<close>

definition demo_order :: bytes where
  "demo_order = json_object [(''type'', json_string ''order''), (''trader_id'', json_string ''u1''),
     (''order_id'', json_string ''o1''), (''side'', json_string ''BUY''), (''price'', ''101.5''), (''qty'', ''2'')]"

definition demo_inbound :: inboundMsg where
  "demo_inbound = \<lparr>im_Type = ''order'', im_TraderID = ''u1'', im_OrderID = ''o1'', im_Side = ''BUY'', im_OrderType = [],
     im_Price = F64 False (203 / 2), im_Qty = F64 False 2\<rparr>"

lemma demo_order_decoded: "unmarshal inbound_fields demo_order zero_msg = (False, demo_inbound)"
proof -
  let ?ms = "[(''type'', json_string ''order'', JStr ''order''), (''trader_id'', json_string ''u1'', JStr ''u1''),
     (''order_id'', json_string ''o1'', JStr ''o1''), (''side'', json_string ''BUY'', JStr ''BUY''),
     (''price'', ''101.5'', JNum ''101.5''), (''qty'', ''2'', JNum ''2'')]"
  have "list_all member_ok ?ms"
    using encodes_string encodes_digits by (simp add: member_ok_def plain_key_def)
  from unmarshal_object [OF _ this, of inbound_fields zero_msg] show ?thesis
    by (simp add: demo_order_def inbound_fields_def find_field_def str_field_def float_field_def
        parse_float_2 parse_float_101_5 zero_msg_def demo_inbound_def)
qed

theorem hub_forwards_order_witness:
  "\<exists>t pt qt. handle_inbound WriteOk demo_order (make_chan 256) (demo_runner\<lparr>stdinPipe := Some []\<rparr>) =
       Some (make_chan 256, demo_runner\<lparr>stdinPipe := Some (t @ [newline])\<rparr>) \<and>
     json_value t = Some (JObj [(''trader_id'', JStr ''u1''), (''order_id'', JStr ''o1''), (''side'', JStr ''BUY''),
       (''type'', JStr ''LIMIT''), (''price'', JNum pt), (''qty'', JNum qt)], []) \<and>
     parse_float qt = Some (F64 False 2)"
  using hub_forwards_order [OF demo_order_decoded, of "demo_runner\<lparr>stdinPipe := Some []\<rparr>" "[]" "make_chan 256"]
  by (auto simp: demo_inbound_def validateOrder_def)

theorem hub_forwards_nothing_else_witness:
  "\<exists>ch'. handle_inbound WriteOk ping_msg (make_chan 256) demo_runner = Some (ch', demo_runner)"
proof -
  obtain ch' r' where h: "handle_inbound WriteOk ping_msg (make_chan 256) demo_runner = Some (ch', r')"
    by (auto simp: handle_ping go_eval)
  have "r' = demo_runner" by (rule hub_forwards_nothing_else [OF ping_decoded _ h]) simp
  with h show ?thesis by blast
qed

end
