(* ===== verification/Relay.thy ===== *)
theory Relay
  imports Runner Json
begin

text \<open>
  The relay between the engine and the sandboxes (\<^verbatim>\<open>server/sandbox/relay.go\<close>).  Outbound channels are
  pointers (numbers) into a heap, because \<^verbatim>\<open>HandleSandbox\<close> compares them for identity.  \<open>fan_event\<close>
  is one turn of \<^verbatim>\<open>fanOut\<close> (the iteration order over the map of connections is an argument);
  \<open>relay_line\<close> is one turn of the stdout loop of \<^verbatim>\<open>HandleSandbox\<close>, with the clock and the result of
  the pipe write as arguments.  \<open>HandleSandbox\<close> composes the sections of one session in order;
  \<open>relay_step\<close> interleaves the sections of all sessions, their writers, the fan-out and the runner.
  Times are integers in nanoseconds; the zero \<^verbatim>\<open>time.Time\<close>, which precedes every clock reading, is
  \<open>None\<close>.
\<close>

section \<open>Messages\<close>

record event_hdr =
  hdr_Type :: bytes
  hdr_TraderID :: bytes

definition zero_hdr :: event_hdr where
  "zero_hdr = \<lparr>hdr_Type = [], hdr_TraderID = []\<rparr>"

definition hdr_fields :: "event_hdr field list" where
  "hdr_fields =
     [str_field ''type'' (\<lambda>v. hdr_Type_update (\<lambda>_. v)),
      str_field ''trader_id'' (\<lambda>v. hdr_TraderID_update (\<lambda>_. v))]"

record order_msg =
  om_Type :: bytes
  om_OrderID :: bytes
  om_Side :: bytes
  om_OrderType :: bytes
  om_Price :: float64
  om_Qty :: float64

definition zero_order :: order_msg where
  "zero_order = \<lparr>om_Type = [], om_OrderID = [], om_Side = [], om_OrderType = [], om_Price = f64_zero, om_Qty = f64_zero\<rparr>"

definition order_fields :: "order_msg field list" where
  "order_fields =
     [str_field ''type'' (\<lambda>v. om_Type_update (\<lambda>_. v)),
      str_field ''order_id'' (\<lambda>v. om_OrderID_update (\<lambda>_. v)),
      str_field ''side'' (\<lambda>v. om_Side_update (\<lambda>_. v)),
      str_field ''order_type'' (\<lambda>v. om_OrderType_update (\<lambda>_. v)),
      float_field ''price'' (\<lambda>v. om_Price_update (\<lambda>_. v)),
      float_field ''qty'' (\<lambda>v. om_Qty_update (\<lambda>_. v))]"

text \<open>\<^verbatim>\<open>json.Marshal\<close> of the map: members sorted by name.\<close>

definition marshal_relay_order :: "bytes \<Rightarrow> order_msg \<Rightarrow> bytes option" where
  "marshal_relay_order traderID m =
     (case (format_float (om_Price m), format_float (om_Qty m)) of
        (Some p, Some q) \<Rightarrow>
          Some (json_object
            [(''order_id'', json_string (om_OrderID m)), (''price'', p), (''qty'', q),
             (''side'', json_string (om_Side m)), (''trader_id'', json_string traderID),
             (''type'', json_string (if om_OrderType m = [] then ''LIMIT'' else om_OrderType m))])
      | _ \<Rightarrow> None)"

definition rate_limited :: bytes where
  "rate_limited = json_object [(''type'', json_string ''reject''), (''reason'', json_string ''rate_limited'')]"

section \<open>The rate limiter\<close>

definition second :: int where "second = 1000000000"

record rl_state =
  rlCount :: nat
  rlWindow :: "int option"

definition rl_init :: rl_state where
  "rl_init = \<lparr>rlCount = 0, rlWindow = None\<rparr>"

definition after_time :: "int \<Rightarrow> int option \<Rightarrow> bool" where
  "after_time now w = (case w of None \<Rightarrow> True | Some t \<Rightarrow> t < now)"

definition rate_limit :: "int \<Rightarrow> rl_state \<Rightarrow> bool \<times> rl_state" where
  "rate_limit now s =
     (let s1 = (if after_time now (rlWindow s) then \<lparr>rlCount = 0, rlWindow = Some (now + second)\<rparr> else s);
          s2 = s1\<lparr>rlCount := Suc (rlCount s1)\<rparr>
      in (\<not> 10 < rlCount s2, s2))"

section \<open>The relay\<close>

record relay =
  rl_runner :: runner
  tickSub :: "bytes chan"
  lastTick :: "bytes option"
  conns :: "(bytes, nat) gomap"
  chans :: "(nat, bytes chan) gomap"

definition NewRelay :: "runner \<Rightarrow> relay" where
  "NewRelay r = \<lparr>rl_runner = r, tickSub = make_chan 256, lastTick = None, conns = [], chans = []\<rparr>"

text \<open>A send with an empty \<open>default\<close> branch on the channel behind a pointer.\<close>

definition offer_to :: "nat \<Rightarrow> bytes \<Rightarrow> relay \<Rightarrow> relay option" where
  "offer_to p msg r =
     (case map_of (chans r) p of
        None \<Rightarrow> None
      | Some ch \<Rightarrow> map_option (\<lambda>ch'. r\<lparr>chans := put p ch' (chans r)\<rparr>) (offer ch msg))"

fun offer_each :: "bytes list \<Rightarrow> bytes \<Rightarrow> relay \<Rightarrow> relay option" where
  "offer_each [] msg r = Some r"
| "offer_each (k # ks) msg r =
     (case map_of (conns r) k of
        None \<Rightarrow> None
      | Some p \<Rightarrow> (case offer_to p msg r of None \<Rightarrow> None | Some r' \<Rightarrow> offer_each ks msg r'))"

text \<open>The error of \<^verbatim>\<open>json.Unmarshal\<close> is ignored: whatever was decoded before it counts.\<close>

definition fan_event :: "bytes list \<Rightarrow> bytes \<Rightarrow> relay \<Rightarrow> relay option" where
  "fan_event order raw r =
     (let hdr = snd (unmarshal hdr_fields raw zero_hdr) in
      if hdr_Type hdr = ''tick'' then offer_each order raw (r\<lparr>lastTick := Some raw\<rparr>)
      else if hdr_Type hdr = ''fill'' \<or> hdr_Type hdr = ''reject'' then
        (if hdr_TraderID hdr = [] then Some r
         else (case map_of (conns r) (hdr_TraderID hdr) of
                 None \<Rightarrow> Some r
               | Some p \<Rightarrow> offer_to p raw r))
      else Some r)"

section \<open>One session\<close>

definition hs_attach :: "bytes \<Rightarrow> nat \<Rightarrow> relay \<Rightarrow> relay" where
  "hs_attach traderID p r = r\<lparr>chans := put p (make_chan 64) (chans r), conns := put traderID p (conns r)\<rparr>"

definition hs_first_tick :: "bytes option \<Rightarrow> nat \<Rightarrow> relay \<Rightarrow> relay option" where
  "hs_first_tick lt p r = (case lt of None \<Rightarrow> Some r | Some msg \<Rightarrow> offer_to p msg r)"

definition hs_detach :: "bytes \<Rightarrow> nat \<Rightarrow> relay \<Rightarrow> relay" where
  "hs_detach traderID p r =
     (if map_of (conns r) traderID = Some p then r\<lparr>conns := del traderID (conns r)\<rparr> else r)"

definition relay_line :: "bytes \<Rightarrow> nat \<Rightarrow> int \<Rightarrow> write_result \<Rightarrow> bytes \<Rightarrow> rl_state \<times> relay \<Rightarrow> (rl_state \<times> relay) option" where
  "relay_line traderID p now w raw st =
     (case st of (rl, r) \<Rightarrow>
      case unmarshal order_fields raw zero_order of
        (err, msg) \<Rightarrow>
          if err \<or> om_Type msg \<noteq> ''order'' then Some (rl, r)
          else (case rate_limit now rl of
                  (ok, rl') \<Rightarrow>
                    if \<not> ok then map_option (Pair rl') (offer_to p rate_limited r)
                    else (case marshal_relay_order traderID msg of
                            None \<Rightarrow> Some (rl', r)
                          | Some engineOrder \<Rightarrow>
                              Some (rl', r\<lparr>rl_runner := snd (SendOrder w engineOrder (rl_runner r))\<rparr>))))"

text \<open>One turn of the writer goroutine: the message it takes from the channel behind \<open>p\<close>; \<open>None\<close> means
  that it waits.  The container's standard input carries the messages one per line.\<close>

definition relay_writer :: "nat \<Rightarrow> relay \<Rightarrow> (bytes \<times> relay) option" where
  "relay_writer p r =
     (case map_of (chans r) p of
        None \<Rightarrow> None
      | Some ch \<Rightarrow>
          (case try_recv ch of
             Received msg ch' \<Rightarrow> Some (msg @ [newline], r\<lparr>chans := put p ch' (chans r)\<rparr>)
           | _ \<Rightarrow> None))"

fun relay_lines :: "bytes \<Rightarrow> nat \<Rightarrow> (int \<times> write_result \<times> bytes) list \<Rightarrow> rl_state \<times> relay \<Rightarrow> (rl_state \<times> relay) option" where
  "relay_lines traderID p [] st = Some st"
| "relay_lines traderID p ((now, w, raw) # ls) st =
     (case relay_line traderID p now w raw st of None \<Rightarrow> None | Some st' \<Rightarrow> relay_lines traderID p ls st')"

text \<open>A whole session without interference: \<open>p\<close> is the new channel, \<open>output\<close> the bytes the container
  prints, and \<open>clock\<close> gives the time and the write result for each line.\<close>

definition HandleSandbox :: "bytes \<Rightarrow> nat \<Rightarrow> bytes \<Rightarrow> (nat \<Rightarrow> int \<times> write_result) \<Rightarrow> relay \<Rightarrow> relay option" where
  "HandleSandbox traderID p output clock r =
     (let r1 = hs_attach traderID p r;
          lines = fst (scan_lines maxLine output)
      in case hs_first_tick (lastTick r1) p r1 of
           None \<Rightarrow> None
         | Some r2 \<Rightarrow>
             (case relay_lines traderID p
                     (map (\<lambda>i. (fst (clock i), snd (clock i), lines ! i)) [0..<length lines]) (rl_init, r2) of
                None \<Rightarrow> None
              | Some (rl, r3) \<Rightarrow> Some (hs_detach traderID p r3)))"

section \<open>Interleaving\<close>

text \<open>Where a session is; \<open>SReadTick\<close> holds the last tick it has read but not yet sent to itself.\<close>

datatype session_phase = SAttached | SReadTick "bytes option" | SRunning | SDone

record session =
  ses_trader :: bytes
  ses_phase :: session_phase
  ses_rl :: rl_state
  ses_written :: "bytes list"

record relay_sys =
  rly :: relay
  sessions :: "(nat, session) gomap"

definition relay_init :: "runner \<Rightarrow> relay_sys" where
  "relay_init r = \<lparr>rly = NewRelay r, sessions = []\<rparr>"

definition at_session :: "nat \<Rightarrow> (session \<Rightarrow> session) \<Rightarrow> relay \<Rightarrow> relay_sys \<Rightarrow> relay_sys" where
  "at_session p f r s = s\<lparr>rly := r, sessions := adjust p f (sessions s)\<rparr>"

inductive relay_step :: "relay_sys \<Rightarrow> relay_sys \<Rightarrow> bool" where
  attach:
    "map_of (sessions s) p = None \<Longrightarrow>
     relay_step s (s\<lparr>rly := hs_attach k p (rly s),
       sessions := put p \<lparr>ses_trader = k, ses_phase = SAttached, ses_rl = rl_init, ses_written = []\<rparr> (sessions s)\<rparr>)"
| read_tick:
    "map_of (sessions s) p = Some x \<Longrightarrow> ses_phase x = SAttached \<Longrightarrow>
     relay_step s (at_session p (ses_phase_update (\<lambda>_. SReadTick (lastTick (rly s)))) (rly s) s)"
| send_tick:
    "map_of (sessions s) p = Some x \<Longrightarrow> ses_phase x = SReadTick lt \<Longrightarrow> hs_first_tick lt p (rly s) = Some r \<Longrightarrow>
     relay_step s (at_session p (ses_phase_update (\<lambda>_. SRunning)) r s)"
| line:
    "map_of (sessions s) p = Some x \<Longrightarrow> ses_phase x = SRunning \<Longrightarrow>
     relay_line (ses_trader x) p now w raw (ses_rl x, rly s) = Some (rl, r) \<Longrightarrow>
     relay_step s (at_session p (ses_rl_update (\<lambda>_. rl)) r s)"
| writer:
    "map_of (sessions s) p = Some x \<Longrightarrow> ses_phase x = SRunning \<Longrightarrow>
     relay_writer p (rly s) = Some (m @ [newline], r) \<Longrightarrow>
     relay_step s (at_session p (\<lambda>x. x\<lparr>ses_written := ses_written x @ [m]\<rparr>) r s)"
| detach:
    "map_of (sessions s) p = Some x \<Longrightarrow> ses_phase x = SRunning \<Longrightarrow>
     relay_step s (at_session p (ses_phase_update (\<lambda>_. SDone)) (hs_detach (ses_trader x) p (rly s)) s)"
| push_event:
    "offer (tickSub (rly s)) raw = Some ch \<Longrightarrow> relay_step s (s\<lparr>rly := (rly s)\<lparr>tickSub := ch\<rparr>\<rparr>)"
| fan_out:
    "try_recv (tickSub (rly s)) = Received raw ch \<Longrightarrow> distinct order \<Longrightarrow> set order = set (keys (conns (rly s))) \<Longrightarrow>
     fan_event order raw ((rly s)\<lparr>tickSub := ch\<rparr>) = Some r \<Longrightarrow> relay_step s (s\<lparr>rly := r\<rparr>)"
| runner_moves: "relay_step s (s\<lparr>rly := (rly s)\<lparr>rl_runner := rn'\<rparr>\<rparr>)"

section \<open>The rate limiter\<close>

text \<open>The clock readings at which an order is let through.\<close>

fun allowed :: "rl_state \<Rightarrow> int list \<Rightarrow> int list" where
  "allowed s [] = []"
| "allowed s (t # ts) = (case rate_limit t s of (ok, s') \<Rightarrow> if ok then t # allowed s' ts else allowed s' ts)"

definition in_second :: "int \<Rightarrow> int list \<Rightarrow> nat" where
  "in_second a ts = length (filter (\<lambda>x. a \<le> x \<and> x \<le> a + second) ts)"

lemma rate_limit_in_window:
  "rlWindow s = Some w \<Longrightarrow> t \<le> w \<Longrightarrow> rate_limit t s = (rlCount s < 10, s\<lparr>rlCount := Suc (rlCount s)\<rparr>)"
  by (auto simp: rate_limit_def after_time_def Let_def)

lemma rate_limit_new_window:
  "after_time t (rlWindow s) \<Longrightarrow> rate_limit t s = (True, \<lparr>rlCount = 1, rlWindow = Some (t + second)\<rparr>)"
  by (auto simp: rate_limit_def Let_def)

text \<open>Up to the end of the current window only what is left of ten orders passes.\<close>

lemma allowed_rest_of_window:
  "rlWindow s = Some w \<Longrightarrow> sorted ts \<Longrightarrow> length (filter (\<lambda>x. x \<le> w) (allowed s ts)) \<le> 10 - rlCount s"
proof (induction ts arbitrary: s)
  case (Cons t ts)
  show ?case
  proof (cases "t \<le> w")
    case True
    let ?s = "s\<lparr>rlCount := Suc (rlCount s)\<rparr>"
    have "length (filter (\<lambda>x. x \<le> w) (allowed ?s ts)) \<le> 10 - Suc (rlCount s)"
      using Cons.IH [of ?s] Cons.prems by simp
    then show ?thesis
      using True by (cases "rlCount s < 10") (auto simp: rate_limit_in_window [OF Cons.prems(1) True])
  next
    case False
    then have "\<forall>x \<in> set (t # ts). w < x" using Cons.prems(2) by auto
    moreover have "set (allowed s us) \<subseteq> set us" for s us
      by (induction us arbitrary: s) (auto split: prod.splits if_splits)
    ultimately have "filter (\<lambda>x. x \<le> w) (allowed s (t # ts)) = []" by (fastforce simp: filter_empty_conv)
    then show ?thesis by simp
  qed
qed simp

lemma in_second_le: "a \<le> t \<Longrightarrow> in_second a xs \<le> length (filter (\<lambda>x. x \<le> t + second) xs)"
  by (induction xs) (auto simp: in_second_def)

lemma allowed_two_windows:
  "rlWindow s = Some w \<Longrightarrow> sorted ts \<Longrightarrow> \<forall>x \<in> set ts. a \<le> x \<Longrightarrow> in_second a (allowed s ts) \<le> (10 - rlCount s) + 10"
proof (induction ts arbitrary: s)
  case (Cons t ts)
  show ?case
  proof (cases "t \<le> w")
    case True
    let ?s = "s\<lparr>rlCount := Suc (rlCount s)\<rparr>"
    have "in_second a (allowed ?s ts) \<le> 10 - Suc (rlCount s) + 10"
      using Cons.IH [of ?s] Cons.prems by simp
    then show ?thesis by (auto simp: rate_limit_in_window [OF Cons.prems(1) True] in_second_def)
  next
    case False
    let ?s = "\<lparr>rlCount = 1, rlWindow = Some (t + second)\<rparr>"
    have t: "after_time t (rlWindow s)" "a \<le> t" using False Cons.prems by (auto simp: after_time_def)
    have "in_second a (allowed ?s ts) \<le> length (filter (\<lambda>x. x \<le> t + second) (allowed ?s ts))" by (rule in_second_le [OF t(2)])
    also have "\<dots> \<le> 9" using allowed_rest_of_window [of ?s "t + second" ts] Cons.prems by simp
    finally show ?thesis by (simp add: rate_limit_new_window [OF t(1)] in_second_def)
  qed
qed (simp add: in_second_def)

lemma allowed_any_second:
  "sorted ts \<Longrightarrow> s = rl_init \<or> (\<exists>w. rlWindow s = Some w) \<and> 1 \<le> rlCount s \<Longrightarrow> in_second a (allowed s ts) \<le> 19"
proof (induction ts arbitrary: s)
  case (Cons t ts)
  obtain ok s' where r: "rate_limit t s = (ok, s')" by (cases "rate_limit t s")
  then have s': "\<exists>w. rlWindow s' = Some w" "1 \<le> rlCount s'"
    by (auto simp: rate_limit_def Let_def after_time_def split: if_splits option.splits)
  show ?case
  proof (cases "a \<le> t")
    case False
    then show ?thesis using Cons.IH [of s'] Cons.prems s' r by (simp add: in_second_def)
  next
    case True
    then have all: "\<forall>x \<in> set (t # ts). a \<le> x" using Cons.prems(1) by auto
    show ?thesis
    proof (cases "s = rl_init")
      case init: True
      let ?s = "\<lparr>rlCount = 1, rlWindow = Some (t + second)\<rparr>"
      have "in_second a (allowed ?s ts) \<le> length (filter (\<lambda>x. x \<le> t + second) (allowed ?s ts))" by (rule in_second_le [OF True])
      also have "\<dots> \<le> 9" using allowed_rest_of_window [of ?s "t + second" ts] Cons.prems by simp
      finally show ?thesis
        using rate_limit_new_window [of t s] by (simp add: init rl_init_def after_time_def in_second_def)
    next
      case False
      then obtain w where "rlWindow s = Some w" "1 \<le> rlCount s" using Cons.prems by blast
      then show ?thesis using allowed_two_windows [of s w "t # ts" a] all Cons.prems(1) by fastforce
    qed
  qed
qed (simp add: in_second_def)

text \<open>The bound is attained, so the limit is not ten orders in any (sliding) second: one
  order opens a window, nine follow at its very end and ten just after it, and all of the last
  nineteen pass within two nanoseconds.\<close>

theorem rate_limit_bound_attained:
  "in_second second (allowed rl_init (0 # replicate 9 second @ replicate 10 (second + 1))) = 19"
  by (simp add: rate_limit_def rl_init_def after_time_def second_def in_second_def Let_def numeral_eq_Suc)

text \<open>Inside a window the counter is the number of orders since it opened.\<close>

lemma rejected_has_burst:
  "allowed s ts \<noteq> ts \<Longrightarrow> sorted (pre @ ts) \<Longrightarrow>
   (rlWindow s = None \<and> rlCount s = 0) \<or>
     (\<exists>a. rlWindow s = Some (a + second) \<and> rlCount s \<le> in_second a pre \<and> (\<forall>x \<in> set ts. a \<le> x)) \<Longrightarrow>
   \<exists>a. 10 < in_second a (pre @ ts)"
proof (induction ts arbitrary: s pre)
  case (Cons t ts)
  show ?case
  proof (cases "after_time t (rlWindow s)")
    case True
    let ?s = "\<lparr>rlCount = 1, rlWindow = Some (t + second)\<rparr>"
    have "allowed ?s ts \<noteq> ts" using Cons.prems(1) by (simp add: rate_limit_new_window [OF True])
    moreover have "1 \<le> in_second t (pre @ [t])" by (simp add: in_second_def second_def)
    ultimately have "\<exists>a. 10 < in_second a ((pre @ [t]) @ ts)"
      using Cons.prems(2) by (intro Cons.IH [of ?s]) (auto simp: sorted_append)
    then show ?thesis by simp
  next
    case False
    then obtain a where a: "rlWindow s = Some (a + second)" "rlCount s \<le> in_second a pre" "\<forall>x \<in> set (t # ts). a \<le> x" "t \<le> a + second"
      using Cons.prems(3) by (auto simp: after_time_def)
    have n: "in_second a (pre @ [t]) = Suc (in_second a pre)" using a by (simp add: in_second_def)
    show ?thesis
    proof (cases "rlCount s < 10")
      case True
      let ?s = "s\<lparr>rlCount := Suc (rlCount s)\<rparr>"
      have "allowed ?s ts \<noteq> ts" using Cons.prems(1) True by (simp add: rate_limit_in_window [OF a(1,4)])
      then have "\<exists>a. 10 < in_second a ((pre @ [t]) @ ts)"
        using Cons.prems(2) a n by (intro Cons.IH [of ?s]) auto
      then show ?thesis by simp
    next
      case False
      then have "10 < in_second a (pre @ [t])" using a n by simp
      moreover have "in_second a (pre @ [t]) \<le> in_second a (pre @ t # ts)" by (simp add: in_second_def)
      ultimately have "10 < in_second a (pre @ t # ts)" by linarith
      then show ?thesis by blast
    qed
  qed
qed simp

text \<open>The limiter never hits a sandbox that keeps to ten orders in every second: an order is
  refused only if more than ten were sent within one second.\<close>

theorem rate_limit_only_bursts:
  assumes "sorted ts" "\<forall>a. in_second a ts \<le> 10"
  shows "allowed rl_init ts = ts"
proof (rule ccontr)
  assume "allowed rl_init ts \<noteq> ts"
  from rejected_has_burst [OF this, of "[]"] assms obtain a where "10 < in_second a ts" by (auto simp: rl_init_def)
  with assms(2) show False by (meson not_le)
qed

theorem rate_limit_only_bursts_witness: "allowed rl_init [1, 2, 3] = [1, 2, 3]"
proof (rule rate_limit_only_bursts)
  show "\<forall>a. in_second a [1, 2, 3] \<le> 10"
    by (auto simp: in_second_def intro: le_trans [OF length_filter_le])
qed simp

text \<open>And it never refuses an order that fewer than ten others preceded within a second, whatever was sent or refused
  before.\<close>

definition rl_after :: "rl_state \<Rightarrow> int list \<Rightarrow> rl_state" where
  "rl_after s ts = fold (\<lambda>t s. snd (rate_limit t s)) ts s"

lemma allowed_append: "allowed s (ts @ us) = allowed s ts @ allowed (rl_after s ts) us"
  by (induction ts arbitrary: s) (auto simp: rl_after_def split: prod.splits)

text \<open>The window in force was opened by an order, and the counter counts the orders since.\<close>

lemma rl_after_window:
  "sorted ts \<Longrightarrow> rlWindow (rl_after rl_init ts) = Some w \<Longrightarrow>
   rlCount (rl_after rl_init ts) \<le> length (filter (\<lambda>x. w - second \<le> x) ts) \<and> (\<exists>x \<in> set ts. w - second \<le> x)"
proof (induction ts arbitrary: w rule: rev_induct)
  case Nil
  then show ?case by (simp add: rl_after_def rl_init_def)
next
  case (snoc t ts)
  let ?s = "rl_after rl_init ts"
  have s': "rl_after rl_init (ts @ [t]) = snd (rate_limit t ?s)" by (simp add: rl_after_def)
  show ?case
  proof (cases "after_time t (rlWindow ?s)")
    case True
    then show ?thesis using snoc.prems(2) by (auto simp: s' rate_limit_new_window)
  next
    case False
    then obtain v where v: "rlWindow ?s = Some v" "t \<le> v" by (auto simp: after_time_def split: option.splits)
    then have "w = v" using snoc.prems(2) by (simp add: s' rate_limit_in_window)
    moreover have n: "rlCount ?s \<le> length (filter (\<lambda>x. v - second \<le> x) ts)" "\<exists>x \<in> set ts. v - second \<le> x"
      using snoc.IH [OF _ v(1)] snoc.prems(1) by (simp_all add: sorted_append)
    moreover have "v - second \<le> t" using n(2) snoc.prems(1) by (auto simp: sorted_append)
    ultimately show ?thesis using v by (simp add: s' rate_limit_in_window)
  qed
qed

lemma allowed_quiet:
  assumes "sorted (ts @ [t])" "in_second (t - second) ts < 10"
  shows "allowed rl_init (ts @ t # us) = allowed rl_init ts @ t # allowed (rl_after rl_init (ts @ [t])) us"
proof -
  let ?s = "rl_after rl_init ts"
  have "fst (rate_limit t ?s)"
  proof (cases "after_time t (rlWindow ?s)")
    case True
    then show ?thesis by (simp add: rate_limit_new_window)
  next
    case False
    then obtain v where v: "rlWindow ?s = Some v" "t \<le> v" by (auto simp: after_time_def split: option.splits)
    have "rlCount ?s \<le> length (filter (\<lambda>x. v - second \<le> x) ts)" using rl_after_window [OF _ v(1)] assms(1) by (simp add: sorted_append)
    also have "\<dots> \<le> in_second (t - second) ts"
      unfolding in_second_def using assms(1) v(2) by (induction ts) (auto simp: sorted_append)
    finally show ?thesis using assms(2) v by (simp add: rate_limit_in_window)
  qed
  then show ?thesis by (cases "rate_limit t ?s") (simp add: allowed_append [of _ ts] rl_after_def)
qed

section \<open>Orders of a sandbox\<close>

definition order_msg_clean :: "order_msg \<Rightarrow> bool" where
  "order_msg_clean m \<longleftrightarrow> valid_utf8 (om_OrderID m) \<and> valid_utf8 (om_Side m) \<and> valid_utf8 (om_OrderType m) \<and>
     f64_finite (om_Price m) \<and> f64_finite (om_Qty m)"

lemma order_msg_assign:
  assumes "find_field order_fields k = Some f" "json_utf8 v" "order_msg_clean m"
  shows "order_msg_clean (snd (f v m))"
proof -
  obtain n where "(n, f) \<in> set order_fields" using find_field_in [OF assms(1)] by blast
  with assms(2,3) show ?thesis
    by (cases v) (auto simp: order_fields_def str_field_def float_field_def order_msg_clean_def
        dest: parse_float_finite split: option.splits)
qed

lemma order_decoded_clean:
  assumes "unmarshal order_fields raw zero_order = (e, m)"
  shows "order_msg_clean m"
proof -
  have "order_msg_clean (snd (unmarshal order_fields raw zero_order))"
  proof (rule unmarshal_keeps)
    show "order_msg_clean zero_order" by (simp add: order_msg_clean_def zero_order_def zero_finite)
  qed (rule order_msg_assign)
  then show ?thesis by (simp add: assms)
qed

text \<open>A line for the engine that carries the given order under the given trader id.\<close>

definition order_line :: "bytes \<Rightarrow> order_msg \<Rightarrow> bytes \<Rightarrow> bool" where
  "order_line traderID m t \<longleftrightarrow> newline \<notin> set t \<and>
     (\<exists>p q. json_value t = Some (JObj [(''order_id'', JStr (om_OrderID m)), (''price'', JNum p), (''qty'', JNum q),
         (''side'', JStr (om_Side m)), (''trader_id'', JStr traderID),
         (''type'', JStr (if om_OrderType m = [] then ''LIMIT'' else om_OrderType m))], []) \<and>
       parse_float p = Some (om_Price m) \<and> parse_float q = Some (om_Qty m))"

lemma marshal_relay_reads:
  assumes "order_msg_clean m" "valid_utf8 traderID"
  obtains t where "marshal_relay_order traderID m = Some t" "order_line traderID m t"
proof -
  have fin: "f64_finite (om_Price m)" "f64_finite (om_Qty m)" using assms by (simp_all add: order_msg_clean_def)
  obtain p q where pq: "format_float (om_Price m) = Some p" "format_float (om_Qty m) = Some q"
    using fin finite_formats by meson
  let ?ty = "if om_OrderType m = [] then ''LIMIT'' else om_OrderType m"
  let ?ms = "[(''order_id'', json_string (om_OrderID m), JStr (om_OrderID m)), (''price'', p, JNum p), (''qty'', q, JNum q),
    (''side'', json_string (om_Side m), JStr (om_Side m)), (''trader_id'', json_string traderID, JStr traderID),
    (''type'', json_string ?ty, JStr ?ty)]"
  let ?t = "json_object (map (\<lambda>(k, t, v). (k, t)) ?ms)"
  have ty: "valid_utf8 ?ty" using assms by (simp add: order_msg_clean_def)
  have "list_all member_ok ?ms"
    using assms encodes_string [OF ty] encodes_string encodes_float [OF fin(1) pq(1)] encodes_float [OF fin(2) pq(2)]
    by (simp add: member_ok_def plain_key_def order_msg_clean_def)
  from json_value_object [OF _ this, of "[]"]
  have "json_value ?t = Some (JObj [(''order_id'', JStr (om_OrderID m)), (''price'', JNum p), (''qty'', JNum q),
      (''side'', JStr (om_Side m)), (''trader_id'', JStr traderID), (''type'', JStr ?ty)], [])"
    by simp
  moreover have "marshal_relay_order traderID m = Some ?t" by (simp add: marshal_relay_order_def pq)
  moreover have "newline \<notin> set ?t"
    by (rule no_newline_object)
       (use no_newline_string no_newline_float [OF fin(1) pq(1)] no_newline_float [OF fin(2) pq(2)] in \<open>simp add: newline_def\<close>)
  ultimately show thesis using that [of ?t] parse_format fin pq unfolding order_line_def by blast
qed

definition is_order :: "bytes \<Rightarrow> bool" where
  "is_order raw \<longleftrightarrow> (case unmarshal order_fields raw zero_order of (err, m) \<Rightarrow> \<not> err \<and> om_Type m = ''order'')"

definition order_of :: "bytes \<Rightarrow> order_msg" where
  "order_of raw = snd (unmarshal order_fields raw zero_order)"

lemma is_order_clean: "is_order raw \<Longrightarrow> order_msg_clean (order_of raw)"
  unfolding is_order_def order_of_def by (auto dest: order_decoded_clean split: prod.splits)

lemma relay_line_cases:
  assumes "relay_line k p now WriteOk raw (rl, r) = Some (rl', r')" "stdinPipe (rl_runner r) = Some q" "valid_utf8 k"
  obtains (ignored) "\<not> is_order raw" "rl' = rl" "r' = r"
  | (limited) "is_order raw" "rate_limit now rl = (False, rl')" "offer_to p rate_limited r = Some r'"
  | (passed) t where "is_order raw" "rate_limit now rl = (True, rl')" "marshal_relay_order k (order_of raw) = Some t" "order_line k (order_of raw) t"
      "r' = r\<lparr>rl_runner := (rl_runner r)\<lparr>stdinPipe := Some (q @ t @ [newline])\<rparr>\<rparr>"
proof -
  obtain err m where m: "unmarshal order_fields raw zero_order = (err, m)" by (cases "unmarshal order_fields raw zero_order")
  obtain ok rl2 where rl2: "rate_limit now rl = (ok, rl2)" by (cases "rate_limit now rl")
  have clean: "order_msg_clean m" by (rule order_decoded_clean [OF m])
  consider "\<not> is_order raw" | "is_order raw" "\<not> ok" | "is_order raw" ok by blast
  then show thesis
  proof cases
    case 1
    then show ?thesis using assms(1) ignored by (auto simp: relay_line_def m is_order_def)
  next
    case 2
    then show ?thesis using assms(1) limited rl2 by (auto simp: relay_line_def m is_order_def split: if_splits)
  next
    case 3
    obtain t where t: "marshal_relay_order k m = Some t" "order_line k m t"
      by (rule marshal_relay_reads [OF clean assms(3)])
    show ?thesis
      by (rule passed [of t]) (use 3 assms t rl2 in \<open>auto simp: relay_line_def m is_order_def order_of_def SendOrder_def Let_def\<close>)
  qed
qed

lemma offer_to_runner: "offer_to p msg r = Some r' \<Longrightarrow> rl_runner r' = rl_runner r"
  by (auto simp: offer_to_def split: option.splits)

text \<open>The orders a session passes on, with their clock readings.\<close>

fun passed :: "rl_state \<Rightarrow> (int \<times> write_result \<times> bytes) list \<Rightarrow> (int \<times> bytes) list" where
  "passed rl [] = []"
| "passed rl ((now, w, raw) # ls) =
     (if is_order raw then
        (case rate_limit now rl of (ok, rl') \<Rightarrow> if ok then (now, raw) # passed rl' ls else passed rl' ls)
      else passed rl ls)"

lemma passed_times: "map fst (passed rl ls) = allowed rl (map fst (filter (\<lambda>(now, w, raw). is_order raw) ls))"
  by (induction rl ls rule: passed.induct) (auto split: prod.splits)

definition order_times :: "(int \<times> write_result \<times> bytes) list \<Rightarrow> int list" where
  "order_times ls = map fst (filter (\<lambda>(now, w, raw). is_order raw) ls)"

lemma passed_append: "passed rl (ls @ ms) = passed rl ls @ passed (rl_after rl (order_times ls)) ms"
  by (induction rl ls rule: passed.induct) (auto simp: rl_after_def order_times_def split: prod.splits)

lemma sorted_order_times: "sorted (map fst ls) \<Longrightarrow> sorted (order_times ls)"
  unfolding order_times_def by (induction ls) auto

lemma passed_quiet:
  assumes "sorted (map fst (ls @ [(now, w, raw)]))" "is_order raw" "in_second (now - second) (order_times ls) < 10"
  shows "\<exists>rest. passed rl_init (ls @ (now, w, raw) # ms) = passed rl_init ls @ (now, raw) # rest"
proof -
  let ?s = "rl_after rl_init (order_times ls)"
  have "sorted (order_times (ls @ [(now, w, raw)]))" by (rule sorted_order_times [OF assms(1)])
  then have "sorted (order_times ls @ [now])" using assms(2) by (simp add: order_times_def)
  from allowed_quiet [OF this assms(3), of "[]"] have "fst (rate_limit now ?s)"
    by (auto simp: allowed_append split: prod.splits if_splits)
  then show ?thesis using assms(2) by (auto simp: passed_append split: prod.splits)
qed

lemma relay_lines_passed:
  assumes "relay_lines k p ls (rl, r) = Some (rl', r')" "stdinPipe (rl_runner r) = Some q" "valid_utf8 k"
    and "\<forall>(now, w, raw) \<in> set ls. w = WriteOk"
  shows "\<exists>ts. stdinPipe (rl_runner r') = Some (q @ unlines ts) \<and>
    list_all2 (\<lambda>(now, raw) t. marshal_relay_order k (order_of raw) = Some t \<and> order_line k (order_of raw) t) (passed rl ls) ts"
  using assms
proof (induction ls arbitrary: rl r q)
  case Nil
  then show ?case by (auto simp: unlines_def)
next
  case (Cons l ls)
  obtain now w raw where l: "l = (now, w, raw)" "w = WriteOk" using Cons.prems(4) by (cases l) auto
  obtain rl1 r1 where step: "relay_line k p now WriteOk raw (rl, r) = Some (rl1, r1)"
    and rest: "relay_lines k p ls (rl1, r1) = Some (rl', r')"
    using Cons.prems(1) by (auto simp: l split: option.splits)
  have ok: "\<forall>(now, w, raw) \<in> set ls. w = WriteOk" using Cons.prems(4) by simp
  from step Cons.prems(2,3) show ?case
  proof (cases rule: relay_line_cases)
    case ignored
    then show ?thesis using Cons.IH [OF rest _ Cons.prems(3) ok] Cons.prems(2) by (simp add: l)
  next
    case limited
    then show ?thesis
      using Cons.IH [OF rest _ Cons.prems(3) ok] Cons.prems(2) offer_to_runner [OF limited(3)] by (simp add: l)
  next
    case (passed t)
    then obtain ts where "stdinPipe (rl_runner r') = Some ((q @ t @ [newline]) @ unlines ts)"
      "list_all2 (\<lambda>(now, raw) t. marshal_relay_order k (order_of raw) = Some t \<and> order_line k (order_of raw) t) (passed rl1 ls) ts"
      using Cons.IH [OF rest _ Cons.prems(3) ok, of "q @ t @ [newline]"] by auto
    then show ?thesis using passed by (intro exI [of _ "t # ts"]) (simp add: l unlines_def)
  qed
qed

lemma passed_subseq: "subseq (passed rl ls) (map (\<lambda>(now, w, raw). (now, raw)) ls)"
  by (induction rl ls rule: passed.induct) (auto split: prod.splits)

lemma passed_are_orders: "(now, raw) \<in> set (passed rl ls) \<Longrightarrow> is_order raw"
  by (induction rl ls rule: passed.induct) (auto split: prod.splits if_splits)

lemma sorted_filter_fst: "sorted (map fst ls) \<Longrightarrow> sorted (map fst (filter P ls))"
  by (induction ls) auto

text \<open>Property C11. What a sandbox's standard output does to the engine: while the engine accepts input and writes to its pipe
  succeed, the lines of a session append to the engine's input exactly one line for each order that the rate limiter lets
  through, in the order they were printed, and nothing else.  Each appended line is a JSON object with
  the order's own id, side, type (LIMIT when none is given), price and quantity, and the trader id of the sandbox, whatever
  trader id the script wrote.  An order is let through whenever fewer than ten other orders preceded it within one
  second, and of the orders let through at most nineteen lie in any interval of one second.\<close>

theorem session_forwards_own_orders:
  assumes "relay_lines k p ls (rl_init, r) = Some (rl', r')" "stdinPipe (rl_runner r) = Some q" "valid_utf8 k"
    and "\<forall>(now, w, raw) \<in> set ls. w = WriteOk" "sorted (map fst ls)"
  shows "\<exists>ts. stdinPipe (rl_runner r') = Some (q @ unlines ts) \<and>
    list_all2 (\<lambda>(now, raw) t. is_order raw \<and> order_line k (order_of raw) t) (passed rl_init ls) ts \<and>
    subseq (passed rl_init ls) (map (\<lambda>(now, w, raw). (now, raw)) ls) \<and>
    (\<forall>a. in_second a (map fst (passed rl_init ls)) \<le> 19) \<and>
    (\<forall>pre now w raw post. ls = pre @ (now, w, raw) # post \<and> is_order raw \<and> in_second (now - second) (order_times pre) < 10 \<longrightarrow>
       (\<exists>rest. passed rl_init ls = passed rl_init pre @ (now, raw) # rest))"
proof -
  obtain ts where ts: "stdinPipe (rl_runner r') = Some (q @ unlines ts)"
    "list_all2 (\<lambda>(now, raw) t. marshal_relay_order k (order_of raw) = Some t \<and> order_line k (order_of raw) t) (passed rl_init ls) ts"
    using relay_lines_passed [OF assms(1-4)] by blast
  have "list_all2 (\<lambda>(now, raw) t. is_order raw \<and> order_line k (order_of raw) t) (passed rl_init ls) ts"
    using ts(2) by (rule list.rel_mono_strong) (auto dest: passed_are_orders)
  moreover have "in_second a (map fst (passed rl_init ls)) \<le> 19" for a
    unfolding passed_times by (rule allowed_any_second) (use assms(5) in \<open>auto intro: sorted_filter_fst\<close>)
  moreover have "\<exists>rest. passed rl_init ls = passed rl_init pre @ (now, raw) # rest"
    if "ls = pre @ (now, w, raw) # post" "is_order raw" "in_second (now - second) (order_times pre) < 10" for pre now w raw post
    using passed_quiet [of pre now w raw post] assms(5) that by (simp add: sorted_append)
  ultimately show ?thesis using ts(1) passed_subseq by blast
qed

text \<open>A script that names another trader in its order.\<close>

definition spoof_line :: bytes where
  "spoof_line = json_object [(''type'', json_string ''order''), (''trader_id'', json_string ''victim''),
     (''order_id'', json_string ''o1''), (''side'', json_string ''SELL''), (''price'', ''101.5''), (''qty'', ''2'')]"

lemma spoof_line_decoded:
  "unmarshal order_fields spoof_line zero_order =
     (False, \<lparr>om_Type = ''order'', om_OrderID = ''o1'', om_Side = ''SELL'', om_OrderType = [],
        om_Price = F64 False (203 / 2), om_Qty = F64 False 2\<rparr>)"
proof -
  let ?ms = "[(''type'', json_string ''order'', JStr ''order''), (''trader_id'', json_string ''victim'', JStr ''victim''),
     (''order_id'', json_string ''o1'', JStr ''o1''), (''side'', json_string ''SELL'', JStr ''SELL''),
     (''price'', ''101.5'', JNum ''101.5''), (''qty'', ''2'', JNum ''2'')]"
  have "list_all member_ok ?ms"
    using encodes_string encodes_digits by (simp add: member_ok_def plain_key_def)
  from unmarshal_object [OF _ this, of order_fields zero_order] show ?thesis
    by (simp add: spoof_line_def order_fields_def find_field_def str_field_def float_field_def upper_def
        parse_float_2 parse_float_101_5 zero_order_def)
qed

definition demo_relay :: relay where
  "demo_relay = hs_attach ''bot'' 1 (NewRelay (demo_runner\<lparr>stdinPipe := Some []\<rparr>))"

theorem session_forwards_own_orders_witness:
  "\<exists>rl' r' t p q. relay_lines ''bot'' 1 [(7, WriteOk, spoof_line)] (rl_init, demo_relay) = Some (rl', r') \<and>
     stdinPipe (rl_runner r') = Some (t @ [newline]) \<and>
     json_value t = Some (JObj [(''order_id'', JStr ''o1''), (''price'', JNum p), (''qty'', JNum q),
       (''side'', JStr ''SELL''), (''trader_id'', JStr ''bot''), (''type'', JStr ''LIMIT'')], [])"
proof -
  let ?ls = "[(7, WriteOk, spoof_line)]"
  have ok: "is_order spoof_line" by (simp add: is_order_def spoof_line_decoded)
  obtain t where m: "marshal_relay_order ''bot'' (order_of spoof_line) = Some t"
    by (rule marshal_relay_reads [OF is_order_clean [OF ok], of "''bot''"]) simp_all
  have lim: "rate_limit 7 rl_init = (True, \<lparr>rlCount = 1, rlWindow = Some (7 + second)\<rparr>)"
    by (rule rate_limit_new_window) (simp add: rl_init_def after_time_def)
  have pipe: "stdinPipe (rl_runner demo_relay) = Some []" by (simp add: demo_relay_def hs_attach_def NewRelay_def)
  let ?r = "demo_relay\<lparr>rl_runner := (rl_runner demo_relay)\<lparr>stdinPipe := Some (t @ [newline])\<rparr>\<rparr>"
  have run: "relay_lines ''bot'' 1 ?ls (rl_init, demo_relay) = Some (\<lparr>rlCount = 1, rlWindow = Some (7 + second)\<rparr>, ?r)"
    using m pipe by (simp add: relay_line_def spoof_line_decoded order_of_def lim SendOrder_def)
  obtain ts where f: "Some (t @ [newline]) = Some (unlines ts)"
    "list_all2 (\<lambda>(now, raw) t. is_order raw \<and> order_line ''bot'' (order_of raw) t) (passed rl_init ?ls) ts"
    using session_forwards_own_orders [OF run pipe] by auto
  have "passed rl_init ?ls = [(7, spoof_line)]" by (simp add: ok lim)
  with f obtain u where "ts = [u]" "order_line ''bot'' (order_of spoof_line) u"
    by (auto simp: list_all2_Cons1 unlines_def)
  moreover from this f(1) have "t = u" by (simp add: unlines_def)
  ultimately obtain pt qt where "json_value t = Some (JObj [(''order_id'', JStr ''o1''), (''price'', JNum pt), (''qty'', JNum qt),
       (''side'', JStr ''SELL''), (''trader_id'', JStr ''bot''), (''type'', JStr ''LIMIT'')], [])"
    by (auto simp: order_line_def order_of_def spoof_line_decoded)
  moreover have "stdinPipe (rl_runner ?r) = Some (t @ [newline])" by simp
  ultimately show ?thesis using run by blast
qed

section \<open>Routing of events\<close>

declare map_of_eq_Some_iff [simp del]

definition hdr_of :: "bytes \<Rightarrow> event_hdr" where
  "hdr_of raw = snd (unmarshal hdr_fields raw zero_hdr)"

text \<open>What a sandbox may be shown: market ticks, its own events, and the notice of the rate limiter.\<close>

definition may_see :: "bytes \<Rightarrow> bytes \<Rightarrow> bool" where
  "may_see k msg \<longleftrightarrow> hdr_Type (hdr_of msg) = ''tick'' \<or> hdr_TraderID (hdr_of msg) = k \<or> msg = rate_limited"

definition session_ok :: "relay \<Rightarrow> nat \<Rightarrow> session \<Rightarrow> bool" where
  "session_ok r p x \<longleftrightarrow>
     (\<exists>ch. map_of (chans r) p = Some ch \<and> chan_live ch \<and> (\<forall>m \<in> set (ses_written x @ ch_buf ch). may_see (ses_trader x) m)) \<and>
     (\<forall>lt. ses_phase x = SReadTick (Some lt) \<longrightarrow> hdr_Type (hdr_of lt) = ''tick'')"

definition relay_ok :: "relay_sys \<Rightarrow> bool" where
  "relay_ok s \<longleftrightarrow>
     chan_live (tickSub (rly s)) \<and>
     (\<forall>t. lastTick (rly s) = Some t \<longrightarrow> hdr_Type (hdr_of t) = ''tick'') \<and>
     (\<forall>p x. map_of (sessions s) p = Some x \<longrightarrow> session_ok (rly s) p x) \<and>
     (\<forall>k p. map_of (conns (rly s)) k = Some p \<longrightarrow>
        (\<exists>x. map_of (sessions s) p = Some x \<and> ses_trader x = k \<and> ses_phase x \<noteq> SDone)) \<and>
     wf_map (conns (rly s))"

lemma offer_members: "offer ch m = Some ch' \<Longrightarrow> set (ch_buf ch') \<subseteq> set (ch_buf ch) \<union> {m}"
  by (auto simp: chan_defs split: if_splits)

text \<open>Sending a message to one session keeps the invariant of all of them if that one may see it.\<close>

lemma offer_to_ok:
  assumes "\<forall>p x. map_of ss p = Some x \<longrightarrow> session_ok r p x" "map_of ss p = Some x" "may_see (ses_trader x) msg"
  shows "\<exists>r'. offer_to p msg r = Some r' \<and> (\<forall>p x. map_of ss p = Some x \<longrightarrow> session_ok r' p x) \<and>
    conns r' = conns r \<and> lastTick r' = lastTick r \<and> tickSub r' = tickSub r \<and> rl_runner r' = rl_runner r"
proof -
  obtain ch where ch: "map_of (chans r) p = Some ch" "chan_live ch" "\<forall>m \<in> set (ses_written x @ ch_buf ch). may_see (ses_trader x) m"
    using assms(1,2) unfolding session_ok_def by blast
  obtain ch' where ch': "offer ch msg = Some ch'" using go_chan.push_total [OF ch(2)] by blast
  let ?r = "r\<lparr>chans := put p ch' (chans r)\<rparr>"
  have live: "chan_live ch'" "set (ch_buf ch') \<subseteq> set (ch_buf ch) \<union> {msg}"
    using offer_live [OF ch(2) ch'] offer_members [OF ch'] by auto
  have "session_ok ?r p' x'" if p': "map_of ss p' = Some x'" for p' x'
  proof (cases "p' = p")
    case True
    then show ?thesis
      using live ch(3) assms(1,2,3) p' by (auto simp: session_ok_def update_conv')
  next
    case False
    then show ?thesis using assms(1) p' by (simp add: session_ok_def update_conv')
  qed
  moreover have "offer_to p msg r = Some ?r" by (simp add: offer_to_def ch ch')
  ultimately show ?thesis by auto
qed

lemma offer_each_ok:
  assumes "\<forall>p x. map_of ss p = Some x \<longrightarrow> session_ok r p x" "hdr_Type (hdr_of msg) = ''tick''"
    and "\<forall>k \<in> set ks. \<exists>p x. map_of (conns r) k = Some p \<and> map_of ss p = Some x"
  shows "\<exists>r'. offer_each ks msg r = Some r' \<and> (\<forall>p x. map_of ss p = Some x \<longrightarrow> session_ok r' p x) \<and>
    conns r' = conns r \<and> lastTick r' = lastTick r \<and> tickSub r' = tickSub r \<and> rl_runner r' = rl_runner r"
  using assms
proof (induction ks arbitrary: r)
  case (Cons k ks)
  obtain p x where p: "map_of (conns r) k = Some p" "map_of ss p = Some x" using Cons.prems(3) by auto
  obtain r1 where r1: "offer_to p msg r = Some r1" "\<forall>p x. map_of ss p = Some x \<longrightarrow> session_ok r1 p x"
    "conns r1 = conns r" "lastTick r1 = lastTick r" "tickSub r1 = tickSub r" "rl_runner r1 = rl_runner r"
    using offer_to_ok [OF Cons.prems(1) p(2), of msg] Cons.prems(2) by (auto simp: may_see_def)
  show ?case using Cons.IH [OF r1(2) Cons.prems(2)] Cons.prems(3) r1 p by auto
qed simp

lemma session_ok_cong: "chans r' = chans r \<Longrightarrow> session_ok r' p x = session_ok r p x"
  by (simp add: session_ok_def)

lemma fan_event_ok:
  assumes "relay_ok s" "chan_live ch" "set order = set (keys (conns (rly s)))"
  shows "\<exists>r. fan_event order raw ((rly s)\<lparr>tickSub := ch\<rparr>) = Some r \<and> relay_ok (s\<lparr>rly := r\<rparr>)"
proof -
  let ?r0 = "(rly s)\<lparr>tickSub := ch\<rparr>" and ?h = "hdr_of raw"
  have s0: "\<forall>p x. map_of (sessions s) p = Some x \<longrightarrow> session_ok ?r0 p x"
    using assms(1) by (auto simp: relay_ok_def session_ok_def)
  have keep: "relay_ok (s\<lparr>rly := r\<rparr>)"
    if "\<forall>p x. map_of (sessions s) p = Some x \<longrightarrow> session_ok r p x" "conns r = conns (rly s)"
      "\<forall>t. lastTick r = Some t \<longrightarrow> hdr_Type (hdr_of t) = ''tick''" "tickSub r = ch" for r
    using assms(1,2) that by (simp add: relay_ok_def)
  have lt: "\<forall>t. lastTick ?r0 = Some t \<longrightarrow> hdr_Type (hdr_of t) = ''tick''" using assms(1) by (simp add: relay_ok_def)
  consider "hdr_Type ?h = ''tick''" | "hdr_Type ?h \<noteq> ''tick''" "hdr_Type ?h = ''fill'' \<or> hdr_Type ?h = ''reject''"
      "hdr_TraderID ?h \<noteq> []" "map_of (conns ?r0) (hdr_TraderID ?h) \<noteq> None"
    | "fan_event order raw ?r0 = Some ?r0"
    by (cases "map_of (conns ?r0) (hdr_TraderID ?h)"; cases "hdr_TraderID ?h = []"; cases "hdr_Type ?h = ''tick''";
        cases "hdr_Type ?h = ''fill'' \<or> hdr_Type ?h = ''reject''") (simp_all add: fan_event_def hdr_of_def Let_def)
  then show ?thesis
  proof cases
    case 1
    let ?r1 = "?r0\<lparr>lastTick := Some raw\<rparr>"
    have s1: "\<forall>p x. map_of (sessions s) p = Some x \<longrightarrow> session_ok ?r1 p x"
      using s0 by (auto simp: session_ok_def)
    have "\<forall>k \<in> set order. \<exists>p x. map_of (conns ?r1) k = Some p \<and> map_of (sessions s) p = Some x"
    proof
      fix k assume "k \<in> set order"
      then have "k \<in> set (keys (conns (rly s)))" by (simp only: assms(3))
      then obtain p where p: "map_of (conns (rly s)) k = Some p" unfolding in_keys_iff by blast
      then obtain x where "map_of (sessions s) p = Some x" using assms(1) unfolding relay_ok_def by blast
      with p show "\<exists>p x. map_of (conns ?r1) k = Some p \<and> map_of (sessions s) p = Some x" by simp
    qed
    from offer_each_ok [OF s1 1 this] show ?thesis
      using 1 keep by (fastforce simp: fan_event_def hdr_of_def Let_def)
  next
    case 2
    then obtain p where p: "map_of (conns (rly s)) (hdr_TraderID ?h) = Some p" by auto
    then obtain x where x: "map_of (sessions s) p = Some x" "ses_trader x = hdr_TraderID ?h"
      using assms(1) unfolding relay_ok_def by blast
    from offer_to_ok [OF s0 x(1), of raw] show ?thesis
      using 2 p x keep lt by (fastforce simp: fan_event_def hdr_of_def Let_def may_see_def)
  next
    case 3
    then show ?thesis using keep [OF s0] lt by auto
  qed
qed

text \<open>Everything but the session pointed to is left alone.\<close>

lemma relay_ok_at:
  assumes "relay_ok s" "map_of (sessions s) p = Some x" "session_ok r p (f x)" "ses_trader (f x) = ses_trader x"
    and "\<And>p' x'. p' \<noteq> p \<Longrightarrow> session_ok (rly s) p' x' \<Longrightarrow> session_ok r p' x'"
    and "\<And>k q. map_of (conns r) k = Some q \<Longrightarrow> map_of (conns (rly s)) k = Some q \<and> (q = p \<longrightarrow> ses_phase (f x) \<noteq> SDone)"
    and "wf_map (conns r)" "lastTick r = lastTick (rly s)" "tickSub r = tickSub (rly s)"
  shows "relay_ok (at_session p f r s)"
proof -
  have "\<exists>y. map_of (adjust p f (sessions s)) q = Some y \<and> ses_trader y = k \<and> ses_phase y \<noteq> SDone"
    if q: "map_of (conns r) k = Some q" for k q
  proof -
    from assms(6) [OF q] have c: "map_of (conns (rly s)) k = Some q" "q = p \<longrightarrow> ses_phase (f x) \<noteq> SDone" by auto
    obtain y where "map_of (sessions s) q = Some y" "ses_trader y = k" "ses_phase y \<noteq> SDone"
      using assms(1) c(1) unfolding relay_ok_def by blast
    then show ?thesis using c(2) assms(2,4) by (cases "q = p") (auto simp: map_of_adjust)
  qed
  then show ?thesis
    using assms by (auto simp: relay_ok_def at_session_def map_of_adjust)
qed

lemma session_ok_phase:
  "session_ok r p x \<Longrightarrow> (\<And>lt. ph = SReadTick (Some lt) \<Longrightarrow> hdr_Type (hdr_of lt) = ''tick'') \<Longrightarrow>
     session_ok r p (x\<lparr>ses_phase := ph\<rparr>)"
  by (auto simp: session_ok_def)

lemma relay_line_ok:
  assumes "relay_ok s" "map_of (sessions s) p = Some x" "relay_line k p now w raw (rl0, rly s) = Some (rl, r)"
  shows "(\<forall>p x. map_of (sessions s) p = Some x \<longrightarrow> session_ok r p x) \<and> conns r = conns (rly s) \<and>
    lastTick r = lastTick (rly s) \<and> tickSub r = tickSub (rly s)"
proof -
  have all: "\<forall>p x. map_of (sessions s) p = Some x \<longrightarrow> session_ok (rly s) p x" using assms(1) by (simp add: relay_ok_def)
  have "r = rly s \<or> offer_to p rate_limited (rly s) = Some r \<or> (\<exists>rn'. r = (rly s)\<lparr>rl_runner := rn'\<rparr>)"
    using assms(3) by (auto simp: relay_line_def split: prod.splits if_splits option.splits)
  then show ?thesis
    using all offer_to_ok [OF all assms(2), of rate_limited] by (auto simp: may_see_def session_ok_def)
qed

lemma relay_ok_sessions:
  "relay_ok s \<Longrightarrow> \<forall>p x. map_of (sessions s) p = Some x \<longrightarrow> session_ok r p x \<Longrightarrow> conns r = conns (rly s) \<Longrightarrow>
     lastTick r = lastTick (rly s) \<Longrightarrow> tickSub r = tickSub (rly s) \<Longrightarrow> relay_ok (s\<lparr>rly := r\<rparr>)"
  by (simp add: relay_ok_def)

lemma relay_ok_phase:
  assumes "relay_ok s" "map_of (sessions s) p = Some x" "ses_phase (f x) \<noteq> SDone" "ses_trader (f x) = ses_trader x"
    and "session_ok (rly s) p (f x)"
  shows "relay_ok (at_session p f (rly s) s)"
  using assms by (intro relay_ok_at) (auto simp: relay_ok_def)

lemma at_session_split: "at_session p f r s = at_session p f (rly (s\<lparr>rly := r\<rparr>)) (s\<lparr>rly := r\<rparr>)"
  by (simp add: at_session_def)

lemma relay_ok_attach:
  assumes "relay_ok s" "map_of (sessions s) p = None"
  shows "relay_ok (s\<lparr>rly := hs_attach k p (rly s),
    sessions := put p \<lparr>ses_trader = k, ses_phase = SAttached, ses_rl = rl_init, ses_written = []\<rparr> (sessions s)\<rparr>)"
proof -
  have "map_of (conns (rly s)) k' \<noteq> Some p" for k'
    using assms unfolding relay_ok_def by (metis option.distinct(1))
  with assms show ?thesis
    by (auto simp: relay_ok_def hs_attach_def session_ok_def update_conv' distinct_update)
qed

lemma relay_okD:
  assumes "relay_ok s"
  shows "map_of (sessions s) p = Some x \<Longrightarrow> session_ok (rly s) p x"
    and "lastTick (rly s) = Some t \<Longrightarrow> hdr_Type (hdr_of t) = ''tick''"
    and "map_of (conns (rly s)) k = Some p \<Longrightarrow> \<exists>x. map_of (sessions s) p = Some x \<and> ses_trader x = k \<and> ses_phase x \<noteq> SDone"
    and "wf_map (conns (rly s))" "chan_live (tickSub (rly s))"
  using assms by (simp_all add: relay_ok_def)

lemma relay_ok_send_tick:
  assumes ok: "relay_ok s" and x: "map_of (sessions s) p = Some x" "ses_phase x = SReadTick lt"
    and r: "hs_first_tick lt p (rly s) = Some r"
  shows "relay_ok (at_session p (ses_phase_update (\<lambda>_. SRunning)) r s)"
proof -
  have all: "\<forall>p x. map_of (sessions s) p = Some x \<longrightarrow> session_ok (rly s) p x" using ok by (simp add: relay_ok_def)
  have tick: "may_see (ses_trader x) msg" if "lt = Some msg" for msg
    using all x that by (auto simp: session_ok_def may_see_def)
  have "relay_ok (s\<lparr>rly := r\<rparr>)"
    using ok r offer_to_ok [OF all x(1) tick]
    by (cases lt) (auto simp: hs_first_tick_def intro!: relay_ok_sessions intro: relay_okD(1))
  then have "relay_ok (at_session p (ses_phase_update (\<lambda>_. SRunning)) (rly (s\<lparr>rly := r\<rparr>)) (s\<lparr>rly := r\<rparr>))"
    using x(1) relay_okD(1) [of "s\<lparr>rly := r\<rparr>" p x] by (intro relay_ok_phase) (auto intro: session_ok_phase)
  then show ?thesis using at_session_split by simp
qed

lemma relay_ok_writer:
  assumes ok: "relay_ok s" and x: "map_of (sessions s) p = Some x" "ses_phase x = SRunning" and w: "relay_writer p (rly s) = Some (m @ [newline], r)"
  shows "relay_ok (at_session p (\<lambda>x. x\<lparr>ses_written := ses_written x @ [m]\<rparr>) r s)"
proof -
  obtain ch ch' where c: "map_of (chans (rly s)) p = Some ch" "try_recv ch = Received m ch'"
    "r = (rly s)\<lparr>chans := put p ch' (chans (rly s))\<rparr>"
    using w by (auto simp: relay_writer_def split: option.splits recv_result.splits)
  have ch: "ch_buf ch = m # ch_buf ch'" using c(2) by (auto simp: chan_defs split: list.splits if_splits)
  have "session_ok (rly s) p x" using relay_okD(1) [OF ok x(1)] .
  then have "session_ok r p (x\<lparr>ses_written := ses_written x @ [m]\<rparr>)"
    using c recv_keeps_live [OF _ c(2)] by (auto simp: session_ok_def update_conv' ch)
  then show ?thesis
    using x c(3) ok relay_okD [OF ok] by (intro relay_ok_at) (auto simp: session_ok_def update_conv')
qed

lemma relay_ok_detach:
  assumes ok: "relay_ok s" and x: "map_of (sessions s) p = Some x"
  shows "relay_ok (at_session p (ses_phase_update (\<lambda>_. SDone)) (hs_detach (ses_trader x) p (rly s)) s)"
proof -
  let ?r = "hs_detach (ses_trader x) p (rly s)"
  have "map_of (conns ?r) k = Some q \<Longrightarrow> map_of (conns (rly s)) k = Some q \<and> q \<noteq> p" for k q
    using x relay_okD(3) [OF ok, of k q] by (auto simp: hs_detach_def delete_conv' split: if_splits)
  moreover have "session_ok ?r p' x' = session_ok (rly s) p' x'" for p' x'
    by (simp add: hs_detach_def session_ok_def)
  moreover have "wf_map (conns ?r)" "lastTick ?r = lastTick (rly s)" "tickSub ?r = tickSub (rly s)"
    using relay_okD(4) [OF ok] by (simp_all add: hs_detach_def distinct_delete)
  ultimately show ?thesis
    using x ok relay_okD(1) [OF ok] by (intro relay_ok_at) (auto intro: session_ok_phase)
qed

lemma relay_ok_step: "relay_step s t \<Longrightarrow> relay_ok s \<Longrightarrow> relay_ok t"
proof (induction rule: relay_step.cases)
  case (attach s p k)
  then show ?case using relay_ok_attach by simp
next
  case (read_tick s p x)
  then have "relay_ok (at_session p (ses_phase_update (\<lambda>_. SReadTick (lastTick (rly s)))) (rly s) s)"
    by (intro relay_ok_phase) (auto intro: session_ok_phase relay_okD)
  with read_tick show ?case by simp
next
  case (send_tick s p x lt r)
  then show ?case using relay_ok_send_tick by simp
next
  case (line s p x now w raw rl r)
  have ok: "relay_ok s" using line by simp
  have "relay_ok (s\<lparr>rly := r\<rparr>)"
    using relay_line_ok [OF ok line(3,5)] ok by (intro relay_ok_sessions) auto
  then have "relay_ok (at_session p (ses_rl_update (\<lambda>_. rl)) (rly (s\<lparr>rly := r\<rparr>)) (s\<lparr>rly := r\<rparr>))"
    using line relay_okD(1) [of "s\<lparr>rly := r\<rparr>" p x] by (intro relay_ok_phase) (auto simp: session_ok_def)
  then show ?case using line at_session_split by simp
next
  case (writer s p x m r)
  then show ?case using relay_ok_writer by simp
next
  case (detach s p x)
  then show ?case using relay_ok_detach by simp
next
  case (push_event s raw ch)
  then show ?case by (auto simp: relay_ok_def session_ok_def dest: offer_live)
next
  case (fan_out s raw ch order r)
  then have "chan_live ch" by (auto simp: relay_ok_def intro: recv_keeps_live)
  then show ?case using fan_event_ok [of s ch order raw] fan_out by auto
next
  case (runner_moves s rn')
  then show ?case by (auto simp: relay_ok_def session_ok_def)
qed

lemma relay_ok_init: "relay_ok (relay_init r)"
  by (simp add: relay_ok_def relay_init_def NewRelay_def)

interpretation sandbox_relay: guarded_system "\<lambda>s. \<exists>r. s = relay_init r" relay_step relay_ok
  by unfold_locales (auto intro: relay_ok_step relay_ok_init)

text \<open>Property C13. Sandboxes do not see each other's trades: in every interleaving of sessions attaching,
  trading and leaving with the fan-out of engine events, every message written to a sandbox or
  waiting in its channel is a market tick, an event that names that sandbox's own trader id, or
  the notice of the rate limiter.\<close>

theorem relay_confidential:
  assumes "relay_step\<^sup>*\<^sup>* (relay_init r) s" "map_of (sessions s) p = Some x"
  shows "\<exists>ch. map_of (chans (rly s)) p = Some ch \<and>
    (\<forall>m \<in> set (ses_written x @ ch_buf ch).
       hdr_Type (hdr_of m) = ''tick'' \<or> hdr_TraderID (hdr_of m) = ses_trader x \<or> m = rate_limited)"
proof -
  have "relay_ok s" using assms(1) by (blast intro: sandbox_relay.reachable_good)
  then have "session_ok (rly s) p x" using assms(2) by (simp add: relay_ok_def)
  then show ?thesis by (auto simp: session_ok_def may_see_def)
qed

text \<open>In the same interleavings the fan-out never panics or blocks on a departed sandbox,
  whatever event it handles and in whatever order it visits the connections: every
  registered connection belongs to a session that has not ended, under that session's trader id, and its channel is open.\<close>

theorem fan_out_total:
  assumes "relay_step\<^sup>*\<^sup>* (relay_init r) s" "set order = set (keys (conns (rly s)))"
  shows "fan_event order raw (rly s) \<noteq> None \<and>
    (\<forall>k p. map_of (conns (rly s)) k = Some p \<longrightarrow>
       (\<exists>x ch. map_of (sessions s) p = Some x \<and> ses_trader x = k \<and> ses_phase x \<noteq> SDone \<and>
          map_of (chans (rly s)) p = Some ch \<and> \<not> ch_closed ch))"
proof -
  have ok: "relay_ok s" using assms(1) by (blast intro: sandbox_relay.reachable_good)
  then have "chan_live (tickSub (rly s))" by (simp add: relay_ok_def)
  from fan_event_ok [OF ok this assms(2), of raw] have "fan_event order raw (rly s) \<noteq> None" by auto
  moreover have "\<exists>x ch. map_of (sessions s) p = Some x \<and> ses_trader x = k \<and> ses_phase x \<noteq> SDone \<and>
      map_of (chans (rly s)) p = Some ch \<and> \<not> ch_closed ch" if "map_of (conns (rly s)) k = Some p" for k p
    using ok that unfolding relay_ok_def session_ok_def chan_live_def by metis
  ultimately show ?thesis by blast
qed

text \<open>Two ticks, and what the fan-out makes of one.\<close>

definition tick_at :: "bytes \<Rightarrow> bytes" where
  "tick_at price = json_object [(''type'', json_string ''tick''), (''price'', price)]"

lemma tick_at_hdr:
  assumes "price = ''2'' \<or> price = ''101.5''"
  shows "hdr_of (tick_at price) = \<lparr>hdr_Type = ''tick'', hdr_TraderID = []\<rparr>"
proof -
  have "list_all member_ok [(''type'', json_string ''tick'', JStr ''tick''), (''price'', price, JNum price)]"
    using assms encodes_string encodes_digits by (auto simp: member_ok_def plain_key_def)
  from unmarshal_object [OF _ this, of hdr_fields zero_hdr] show ?thesis
    by (simp add: hdr_of_def tick_at_def hdr_fields_def find_field_def str_field_def zero_hdr_def upper_def)
qed

text \<open>One event through the subscription channel, with the given connections.\<close>

lemma one_event:
  assumes "tickSub (rly s) = make_chan 256" "fan_event (keys (conns (rly s))) raw (rly s) = Some r" "wf_map (conns (rly s))"
  shows "relay_step\<^sup>*\<^sup>* s (s\<lparr>rly := r\<rparr>)"
proof -
  let ?c = "\<lparr>ch_buf = [raw], ch_cap = 256, ch_closed = False\<rparr>"
  let ?s1 = "s\<lparr>rly := (rly s)\<lparr>tickSub := ?c\<rparr>\<rparr>"
  have same: "(rly ?s1)\<lparr>tickSub := make_chan 256\<rparr> = rly s" using assms(1) by simp
  have "relay_step s ?s1" by (rule relay_step.push_event [of _ raw]) (simp add: assms(1) go_eval)
  moreover have fan: "fan_event (keys (conns (rly s))) raw ((rly ?s1)\<lparr>tickSub := make_chan 256\<rparr>) = Some r"
    unfolding same by (rule assms(2))
  have "relay_step ?s1 (?s1\<lparr>rly := r\<rparr>)"
    by (rule relay_step.fan_out [OF _ _ _ fan]) (use assms(3) in \<open>simp_all add: go_eval\<close>)
  moreover have "?s1\<lparr>rly := r\<rparr> = s\<lparr>rly := r\<rparr>" by simp
  ultimately show ?thesis by (metis rtranclp.rtrancl_into_rtrancl rtranclp.rtrancl_refl)
qed

definition overtaken :: "runner \<Rightarrow> relay_sys" where
  "overtaken rn' =
     \<lparr>rly = \<lparr>rl_runner = rn', tickSub = make_chan 256, lastTick = Some (tick_at ''2''), conns = [(''bot'', 1)],
            chans = [(1, \<lparr>ch_buf = [tick_at ''2'', tick_at ''101.5''], ch_cap = 64, ch_closed = False\<rparr>)]\<rparr>,
      sessions = [(1, \<lparr>ses_trader = ''bot'', ses_phase = SRunning, ses_rl = rl_init, ses_written = []\<rparr>)]\<rparr>"

lemma overtaken_reachable: "relay_step\<^sup>*\<^sup>* (relay_init rn') (overtaken rn')"
proof -
  let ?old = "tick_at ''101.5''" and ?new = "tick_at ''2''"
  let ?s0 = "relay_init rn'"
  let ?s1 = "?s0\<lparr>rly := (rly ?s0)\<lparr>lastTick := Some ?old\<rparr>\<rparr>"
  let ?s2 = "?s1\<lparr>rly := hs_attach ''bot'' 1 (rly ?s1),
    sessions := put 1 \<lparr>ses_trader = ''bot'', ses_phase = SAttached, ses_rl = rl_init, ses_written = []\<rparr> (sessions ?s1)\<rparr>"
  let ?s3 = "at_session 1 (ses_phase_update (\<lambda>_. SReadTick (lastTick (rly ?s2)))) (rly ?s2) ?s2"
  let ?r4 = "(rly ?s3)\<lparr>lastTick := Some ?new, chans := [(1, \<lparr>ch_buf = [?new], ch_cap = 64, ch_closed = False\<rparr>)]\<rparr>"
  let ?s4 = "?s3\<lparr>rly := ?r4\<rparr>"
  let ?r5 = "?r4\<lparr>chans := [(1, \<lparr>ch_buf = [?new, ?old], ch_cap = 64, ch_closed = False\<rparr>)]\<rparr>"
  note defs = relay_init_def NewRelay_def hs_attach_def at_session_def
  have hdr: "hdr_Type (snd (unmarshal hdr_fields ?old zero_hdr)) = ''tick''" "hdr_Type (snd (unmarshal hdr_fields ?new zero_hdr)) = ''tick''"
    using tick_at_hdr [of "''101.5''"] tick_at_hdr [of "''2''"] by (simp_all add: hdr_of_def)
  have "relay_step\<^sup>*\<^sup>* ?s0 ?s1" by (rule one_event [where raw = ?old]) (use hdr in \<open>simp_all add: defs fan_event_def\<close>)
  moreover have "relay_step ?s1 ?s2" by (rule relay_step.attach) (simp add: defs)
  moreover have "relay_step ?s2 ?s3"
    by (rule relay_step.read_tick [of _ _ "\<lparr>ses_trader = ''bot'', ses_phase = SAttached, ses_rl = rl_init, ses_written = []\<rparr>"])
       (simp_all add: defs)
  moreover have "relay_step\<^sup>*\<^sup>* ?s3 ?s4"
    by (rule one_event [where raw = ?new]) (use hdr in \<open>simp_all add: defs fan_event_def offer_to_def go_eval\<close>)
  moreover have "relay_step ?s4 (at_session 1 (ses_phase_update (\<lambda>_. SRunning)) ?r5 ?s4)"
    by (rule relay_step.send_tick [of _ _ "\<lparr>ses_trader = ''bot'', ses_phase = SReadTick (Some ?old), ses_rl = rl_init, ses_written = []\<rparr>" "Some ?old"])
       (simp_all add: defs hs_first_tick_def offer_to_def go_eval)
  moreover have "at_session 1 (ses_phase_update (\<lambda>_. SRunning)) ?r5 ?s4 = overtaken rn'"
    by (simp add: defs overtaken_def)
  ultimately show ?thesis
    by (metis (no_types, lifting) rtranclp.rtrancl_into_rtrancl rtranclp_trans)
qed

theorem relay_confidential_witness:
  "hdr_Type (hdr_of (tick_at ''2'')) = ''tick'' \<or> hdr_TraderID (hdr_of (tick_at ''2'')) = ''bot'' \<or> tick_at ''2'' = rate_limited"
  using relay_confidential [OF overtaken_reachable [of demo_runner], of 1]
  by (simp add: overtaken_def)

theorem fan_out_total_witness: "fan_event [''bot''] ''x'' (rly (overtaken demo_runner)) \<noteq> None"
  using fan_out_total [OF overtaken_reachable [of demo_runner], of "[''bot'']"] by (simp add: overtaken_def)

text \<open>A sandbox that attaches can be shown an old price after a newer one: if the fan-out
  handles a tick between the moment the session reads the last tick and the moment it queues
  it, the newer tick is queued first, and the message the strategy takes for its latest market state is stale.\<close>

theorem first_tick_may_be_stale:
  "\<exists>s x ch old new. relay_step\<^sup>*\<^sup>* (relay_init rn') s \<and> map_of (sessions s) 1 = Some x \<and> ses_phase x = SRunning \<and>
     map_of (chans (rly s)) 1 = Some ch \<and> lastTick (rly s) = Some new \<and> ch_buf ch = [new, old] \<and> old \<noteq> new"
proof -
  have "tick_at ''2'' \<noteq> tick_at ''101.5''" by (simp add: tick_at_def json_object_def)
  then show ?thesis using overtaken_reachable [of rn'] by (fastforce simp: overtaken_def)
qed

section \<open>A whole session\<close>

text \<open>Sections of a session that find its channel open succeed and leave it open, and do not touch the
  connections.\<close>

definition open_at :: "nat \<Rightarrow> (bytes, nat) gomap \<Rightarrow> relay \<Rightarrow> bool" where
  "open_at p cs r \<longleftrightarrow> (\<exists>ch. map_of (chans r) p = Some ch \<and> \<not> ch_closed ch) \<and> conns r = cs"

lemma offer_to_open: "open_at p cs r \<Longrightarrow> \<exists>r'. offer_to p msg r = Some r' \<and> open_at p cs r'"
  by (auto simp: open_at_def offer_to_def offer_open update_conv')

lemma relay_line_open:
  assumes "open_at p cs r"
  shows "\<exists>rl' r'. relay_line k p now w raw (rl, r) = Some (rl', r') \<and> open_at p cs r'"
proof -
  obtain r1 where r1: "offer_to p rate_limited r = Some r1" "open_at p cs r1" using offer_to_open [OF assms] by blast
  have "open_at p cs (r\<lparr>rl_runner := x\<rparr>)" for x using assms by (simp add: open_at_def)
  with assms r1 show ?thesis by (auto simp: relay_line_def split: prod.splits option.splits)
qed

lemma relay_lines_open: "open_at p cs r \<Longrightarrow> \<exists>rl' r'. relay_lines k p ls (rl, r) = Some (rl', r') \<and> open_at p cs r'"
proof (induction ls arbitrary: rl r)
  case (Cons l ls)
  obtain now w raw where l: "l = (now, w, raw)" by (cases l)
  obtain rl1 r1 where "relay_line k p now w raw (rl, r) = Some (rl1, r1)" "open_at p cs r1"
    using relay_line_open [OF Cons.prems] by blast
  then show ?case using Cons.IH [of r1 rl1] by (simp add: l)
qed simp

text \<open>A session never panics, whatever its container prints and whatever the engine's pipe
  does, and once the output has ended its clean-up leaves the table of connections as it was before, without
  the session's trader.\<close>

theorem session_returns_and_detaches:
  "\<exists>r'. HandleSandbox traderID p output clock r = Some r' \<and> conns r' = del traderID (conns r)"
proof -
  let ?cs = "put traderID p (conns r)" and ?r1 = "hs_attach traderID p r"
  have o1: "open_at p ?cs ?r1" by (simp add: open_at_def hs_attach_def update_conv')
  then obtain r2 where r2: "hs_first_tick (lastTick ?r1) p ?r1 = Some r2" "open_at p ?cs r2"
    using offer_to_open [OF o1] by (cases "lastTick ?r1") (auto simp: hs_first_tick_def)
  let ?ls = "fst (scan_lines maxLine output)"
  let ?in = "map (\<lambda>i. (fst (clock i), snd (clock i), ?ls ! i)) [0..<length ?ls]"
  obtain rl r3 where r3: "relay_lines traderID p ?in (rl_init, r2) = Some (rl, r3)" "open_at p ?cs r3"
    using relay_lines_open [OF r2(2)] by blast
  have "conns (hs_detach traderID p r3) = del traderID (conns r)"
    using r3(2) by (simp add: open_at_def hs_detach_def update_conv' delete_update_same)
  then show ?thesis unfolding HandleSandbox_def Let_def r2(1) option.case r3(1) prod.case by blast
qed

end
