(* ===== verification/Sandbox.thy ===== *)
theory Sandbox
  imports GoText
begin

text \<open>
  The sandbox manager (\<^verbatim>\<open>server/sandbox/manager.go\<close>, \<^verbatim>\<open>types.go\<close>).  The state of \<^verbatim>\<open>Manager\<close>
  is the map of sandbox entries; the model adds the two things the manager changes outside its
  own memory: the script files on the host and the sequence of calls issued to the Docker
  daemon.  The outcome of every operating-system and Docker call is an argument (a record of
  outcomes), so each early return of the Go code is a branch; the result of stopping a container, which the code
  ignores, changes nothing in this state.  \<open>files\<close> holds the scripts that were written completely.  Every operation is composed of
  the sections the Go code runs under its mutex; the theory \<open>Sandbox_Concurrency\<close> interleaves
  the same sections.
\<close>

section \<open>Data\<close>

datatype status = StatusSpawning | StatusRunning | StatusError | StatusStopped

record SandboxInfo =
  TraderID :: string
  ContainerID :: string
  Status :: status
  StartedAt :: int
  ErrorMsg :: string
  ScriptSize :: nat

definition maxConcurrentSandboxes :: nat where "maxConcurrentSandboxes = 5"
definition maxScriptBytes :: nat where "maxScriptBytes = 50 * 1024"
definition sandboxImageName :: string where "sandboxImageName = ''quantsim-sandbox:latest''"
definition scriptBasePath :: string where "scriptBasePath = ''/tmp/quantsim-scripts''"

text \<open>\<open>cancelled\<close> is the state of the context whose cancel function the entry holds.\<close>

record sandboxEntry =
  info :: SandboxInfo
  scriptDir :: string
  cancelled :: bool

record container_config =
  Image :: string
  OpenStdin :: bool
  Env :: "string list"
  Labels :: "(string \<times> string) list"

record mount_spec =
  MountType :: string
  Source :: string
  Target :: string
  MountReadOnly :: bool

record host_config =
  NetworkMode :: string
  ReadonlyRootfs :: bool
  AutoRemove :: bool
  Memory :: nat
  NanoCPUs :: nat
  Tmpfs :: "(string \<times> string) list"
  Mounts :: "mount_spec list"

datatype docker_call =
    ContainerCreate container_config host_config
  | ContainerAttach string
  | ContainerStart string
  | ContainerStop string nat
  | DockerLogs string string

text \<open>The two goroutines \<^verbatim>\<open>Spawn\<close> starts.\<close>

datatype go_stmt = GoHandleSandbox string | GoMonitor string string

record manager =
  sandboxes :: "(string, sandboxEntry) gomap"
  files :: "(string, bytes) gomap"
  calls :: "docker_call list"
  started :: "go_stmt list"

text \<open>Outcomes of the calls \<^verbatim>\<open>Spawn\<close> makes, in the order it makes them.\<close>

record spawn_env =
  now :: int
  mkdir_err :: "go_error option"
  write_err :: "go_error option"
  create_res :: "go_error + string"
  attach_err :: "go_error option"
  start_err :: "go_error option"

text \<open>What \<^verbatim>\<open>os.RemoveAll\<close> achieves; its error, which the code ignores, leaves some files in place.\<close>

datatype remove_result = Removed | RemoveFailed "string list"

fun survives :: "remove_result \<Rightarrow> string \<Rightarrow> bool" where
  "survives Removed p = False"
| "survives (RemoveFailed left) p = (p \<in> set left)"

datatype inspect_reply = InspectErr go_error | InspectNoState | InspectState bool int

datatype mon_event = CtxDone | AutoKill | Tick inspect_reply

datatype mon_outcome = MonContinue | MonReturn | MonPanic

section \<open>Operations\<close>

definition empty_manager :: manager where
  "empty_manager = \<lparr>sandboxes = [], files = [], calls = [], started = []\<rparr>"

text \<open>The argument is what creating the Docker client returns.\<close>

definition NewManager :: "go_error option \<Rightarrow> go_error + manager" where
  "NewManager client_err =
     (case client_err of
        Some e \<Rightarrow> Inl (''docker client: '' @ e)
      | None \<Rightarrow> Inr empty_manager)"

text \<open>\<^verbatim>\<open>^[a-zA-Z0-9_-]{3,32}$\<close>\<close>

definition id_char :: "char \<Rightarrow> bool" where
  "id_char c \<longleftrightarrow> (let n = (of_char c :: nat) in
     97 \<le> n \<and> n \<le> 122 \<or> 65 \<le> n \<and> n \<le> 90 \<or> is_digit c \<or> c = CHR ''_'' \<or> c = CHR ''-'')"

definition traderIDRegex :: "string \<Rightarrow> bool" where
  "traderIDRegex s \<longleftrightarrow> 3 \<le> length s \<and> length s \<le> 32 \<and> list_all id_char s"

definition is_active :: "sandboxEntry \<Rightarrow> bool" where
  "is_active e \<longleftrightarrow> Status (info e) = StatusRunning \<or> Status (info e) = StatusSpawning"

definition active :: "manager \<Rightarrow> nat" where
  "active m = count_vals is_active (sandboxes m)"

definition call :: "docker_call \<Rightarrow> manager \<Rightarrow> manager" where
  "call c m = m\<lparr>calls := calls m @ [c]\<rparr>"

definition go :: "go_stmt \<Rightarrow> manager \<Rightarrow> manager" where
  "go g m = m\<lparr>started := started m @ [g]\<rparr>"

text \<open>The section of \<^verbatim>\<open>Spawn\<close> under the lock: reserve a slot.\<close>

definition new_entry :: "string \<Rightarrow> string \<Rightarrow> int \<Rightarrow> sandboxEntry" where
  "new_entry traderID scriptContent t =
     \<lparr>info = \<lparr>TraderID = traderID, ContainerID = '''', Status = StatusSpawning, StartedAt = t,
              ErrorMsg = '''', ScriptSize = length scriptContent\<rparr>,
      scriptDir = '''', cancelled = False\<rparr>"

definition reserve :: "string \<Rightarrow> string \<Rightarrow> int \<Rightarrow> manager \<Rightarrow> go_error + manager" where
  "reserve traderID scriptContent t m =
     (if map_of (sandboxes m) traderID \<noteq> None then Inl ''duplicate_trader_id''
      else if maxConcurrentSandboxes \<le> active m then Inl ''too_many_sandboxes''
      else Inr (m\<lparr>sandboxes := put traderID (new_entry traderID scriptContent t) (sandboxes m)\<rparr>))"

definition cancel_ctx :: "string \<Rightarrow> manager \<Rightarrow> manager" where
  "cancel_ctx traderID m = m\<lparr>sandboxes := adjust traderID (cancelled_update (\<lambda>_. True)) (sandboxes m)\<rparr>"

definition mark :: "string \<Rightarrow> (SandboxInfo \<Rightarrow> SandboxInfo) \<Rightarrow> manager \<Rightarrow> manager" where
  "mark traderID f m = m\<lparr>sandboxes := adjust traderID (info_update f) (sandboxes m)\<rparr>"

definition setError :: "string \<Rightarrow> string \<Rightarrow> manager \<Rightarrow> manager" where
  "setError traderID msg m =
     mark traderID (\<lambda>i. i\<lparr>Status := StatusError, ErrorMsg := msg\<rparr>) (cancel_ctx traderID m)"

definition script_dir :: "string \<Rightarrow> string" where
  "script_dir traderID = filepath_join scriptBasePath traderID"

definition script_path :: "string \<Rightarrow> string" where
  "script_path traderID = filepath_join (script_dir traderID) ''trader.py''"

text \<open>\<^verbatim>\<open>os.WriteFile\<close> succeeded and the entry remembers its directory.\<close>

definition store_script :: "string \<Rightarrow> string \<Rightarrow> manager \<Rightarrow> manager" where
  "store_script traderID scriptContent m =
     m\<lparr>files := put (script_path traderID) scriptContent (files m),
       sandboxes := adjust traderID (scriptDir_update (\<lambda>_. script_dir traderID)) (sandboxes m)\<rparr>"

definition spawn_cfg :: "string \<Rightarrow> container_config" where
  "spawn_cfg traderID =
     \<lparr>Image = sandboxImageName, OpenStdin = True, Env = [''TRADER_ID='' @ traderID],
      Labels = [(''quantsim-sandbox'', ''true''), (''trader-id'', traderID)]\<rparr>"

definition spawn_hostCfg :: "string \<Rightarrow> host_config" where
  "spawn_hostCfg scriptPath =
     \<lparr>NetworkMode = ''none'', ReadonlyRootfs = True, AutoRemove = True,
      Memory = 128 * 2 ^ 20, NanoCPUs = 500000000, Tmpfs = [(''/tmp'', ''rw,size=16m'')],
      Mounts = [\<lparr>MountType = ''bind'', Source = scriptPath, Target = ''/script/trader.py'',
                 MountReadOnly = True\<rparr>]\<rparr>"

text \<open>The last section of \<^verbatim>\<open>Spawn\<close> under the lock.\<close>

definition spawn_finish :: "string \<Rightarrow> string \<Rightarrow> manager \<Rightarrow> manager" where
  "spawn_finish traderID cid = mark traderID (\<lambda>i. i\<lparr>ContainerID := cid, Status := StatusRunning\<rparr>)"

definition spawn_docker :: "spawn_env \<Rightarrow> string \<Rightarrow> manager \<Rightarrow> go_error option \<times> manager" where
  "spawn_docker env traderID m =
     (let m1 = call (ContainerCreate (spawn_cfg traderID) (spawn_hostCfg (script_path traderID))) m in
      case create_res env of
        Inl e \<Rightarrow> (Some (''container create: '' @ e), setError traderID (''container create: '' @ e) m1)
      | Inr cid \<Rightarrow>
          let m2 = call (ContainerAttach cid) m1 in
          case attach_err env of
            Some e \<Rightarrow> (Some (''container attach: '' @ e), setError traderID (''container attach: '' @ e) m2)
          | None \<Rightarrow>
              let m3 = call (ContainerStart cid) (go (GoHandleSandbox traderID) m2) in
              case start_err env of
                Some e \<Rightarrow> (Some (''container start: '' @ e), setError traderID (''container start: '' @ e) m3)
              | None \<Rightarrow> (None, go (GoMonitor traderID cid) (spawn_finish traderID cid m3)))"

definition spawn_reserved :: "spawn_env \<Rightarrow> string \<Rightarrow> string \<Rightarrow> manager \<Rightarrow> go_error option \<times> manager" where
  "spawn_reserved env traderID scriptContent m =
     (case mkdir_err env of
        Some e \<Rightarrow> (Some (''mkdir script dir: '' @ e), setError traderID (''mkdir script: '' @ e) m)
      | None \<Rightarrow>
          case write_err env of
            Some e \<Rightarrow> (Some (''write script: '' @ e), setError traderID (''write script: '' @ e) m)
          | None \<Rightarrow> spawn_docker env traderID (store_script traderID scriptContent m))"

definition Spawn :: "spawn_env \<Rightarrow> string \<Rightarrow> string \<Rightarrow> manager \<Rightarrow> go_error option \<times> manager" where
  "Spawn env traderID scriptContent m =
     (if \<not> traderIDRegex traderID then (Some ''invalid_trader_id'', m)
      else if maxScriptBytes < length scriptContent then (Some ''script_too_large'', m)
      else case reserve traderID scriptContent (now env) m of
             Inl e \<Rightarrow> (Some e, m)
           | Inr m1 \<Rightarrow> spawn_reserved env traderID scriptContent m1)"

definition under_dir :: "string \<Rightarrow> string \<Rightarrow> bool" where
  "under_dir dir p \<longleftrightarrow> p = dir \<or> prefix (dir @ ''/'') p"

definition removeAll_dir :: "remove_result \<Rightarrow> string \<Rightarrow> manager \<Rightarrow> manager" where
  "removeAll_dir rm dir m = m\<lparr>files := filter (\<lambda>(p, _). \<not> under_dir dir p \<or> survives rm p) (files m)\<rparr>"

definition cleanup :: "remove_result \<Rightarrow> string \<Rightarrow> manager \<Rightarrow> manager" where
  "cleanup rm traderID m =
     (case map_of (sandboxes m) traderID of
        None \<Rightarrow> m
      | Some e \<Rightarrow> if scriptDir e \<noteq> '''' then removeAll_dir rm (scriptDir e) m else m)"

definition stop_container :: "sandboxEntry \<Rightarrow> manager \<Rightarrow> manager" where
  "stop_container e m =
     (if ContainerID (info e) \<noteq> '''' then call (ContainerStop (ContainerID (info e)) 5) m else m)"

definition mark_stopped :: "string \<Rightarrow> manager \<Rightarrow> manager" where
  "mark_stopped traderID = mark traderID (\<lambda>i. i\<lparr>Status := StatusStopped\<rparr>)"

definition Kill :: "remove_result \<Rightarrow> string \<Rightarrow> manager \<Rightarrow> go_error option \<times> manager" where
  "Kill rm traderID m =
     (case map_of (sandboxes m) traderID of
        None \<Rightarrow> (Some ''not_found'', m)
      | Some e \<Rightarrow>
          (None, cleanup rm traderID (mark_stopped traderID (stop_container e (cancel_ctx traderID m)))))"

text \<open>One turn of the \<^verbatim>\<open>select\<close> of \<^verbatim>\<open>monitor\<close>.\<close>

definition container_gone :: "remove_result \<Rightarrow> string \<Rightarrow> manager \<Rightarrow> manager" where
  "container_gone rm traderID m = cleanup rm traderID (mark_stopped traderID (cancel_ctx traderID m))"

fun monitor_step :: "remove_result \<Rightarrow> string \<Rightarrow> mon_event \<Rightarrow> manager \<Rightarrow> mon_outcome \<times> manager" where
  "monitor_step rm traderID CtxDone m = (MonReturn, m)"
| "monitor_step rm traderID AutoKill m = (MonReturn, snd (Kill rm traderID m))"
| "monitor_step rm traderID (Tick (InspectErr e)) m = (MonReturn, container_gone rm traderID m)"
| "monitor_step rm traderID (Tick InspectNoState) m = (MonPanic, m)"
| "monitor_step rm traderID (Tick (InspectState running code)) m =
     (if running then (MonContinue, m) else (MonReturn, container_gone rm traderID m))"

text \<open>The loop, over the sequence of events its \<^verbatim>\<open>select\<close> picks.\<close>

fun monitor :: "remove_result \<Rightarrow> string \<Rightarrow> mon_event list \<Rightarrow> manager \<Rightarrow> mon_outcome \<times> manager" where
  "monitor rm traderID [] m = (MonContinue, m)"
| "monitor rm traderID (ev # evs) m =
     (case monitor_step rm traderID ev m of
        (MonContinue, m') \<Rightarrow> monitor rm traderID evs m'
      | r \<Rightarrow> r)"

definition KillAll :: "(string \<Rightarrow> remove_result) \<Rightarrow> manager \<Rightarrow> manager" where
  "KillAll rms m = fold (\<lambda>k acc. snd (Kill (rms k) k acc)) (keys (sandboxes m)) m"

definition ListInfos :: "manager \<Rightarrow> SandboxInfo list" where
  "ListInfos m = map (info \<circ> snd) (sandboxes m)"

definition GetInfo :: "string \<Rightarrow> manager \<Rightarrow> SandboxInfo option" where
  "GetInfo traderID m = map_option info (map_of (sandboxes m) traderID)"

text \<open>\<open>reply\<close> is the answer of the Docker daemon, \<open>demux\<close> the package \<^verbatim>\<open>stdcopy\<close>.\<close>

definition ContainerLogs ::
  "(bytes \<Rightarrow> string) \<Rightarrow> go_error + bytes \<Rightarrow> string \<Rightarrow> string \<Rightarrow> manager \<Rightarrow> (go_error + string) \<times> manager" where
  "ContainerLogs demux reply traderID tail m =
     (case map_of (sandboxes m) traderID of
        None \<Rightarrow> (Inl ''not_found'', m)
      | Some e \<Rightarrow>
          if ContainerID (info e) = '''' then (Inl ''no_container'', m)
          else (let m' = call (DockerLogs (ContainerID (info e)) tail) m in
                case reply of Inl err \<Rightarrow> (Inl (''logs: '' @ err), m')
                | Inr rc \<Rightarrow> (Inr (demux rc), m')))"

text \<open>The operations as values, for sequences of calls made one after the other.\<close>

datatype mgr_op =
    OpSpawn spawn_env string string
  | OpKill remove_result string
  | OpMonitor remove_result string mon_event
  | OpKillAll "string \<Rightarrow> remove_result"

fun run_op :: "mgr_op \<Rightarrow> manager \<Rightarrow> manager" where
  "run_op (OpSpawn env traderID scriptContent) m = snd (Spawn env traderID scriptContent m)"
| "run_op (OpKill rm traderID) m = snd (Kill rm traderID m)"
| "run_op (OpMonitor rm traderID ev) m = snd (monitor_step rm traderID ev m)"
| "run_op (OpKillAll rms) m = KillAll rms m"

definition run_ops :: "mgr_op list \<Rightarrow> manager \<Rightarrow> manager" where
  "run_ops ops m = fold run_op ops m"

section \<open>Well-formed managers\<close>

definition entry_ok :: "string \<Rightarrow> sandboxEntry \<Rightarrow> bool" where
  "entry_ok k e \<longleftrightarrow> TraderID (info e) = k \<and> traderIDRegex k \<and>
     ScriptSize (info e) \<le> maxScriptBytes \<and> scriptDir e \<in> {'''', script_dir k}"

definition entries_ok :: "manager \<Rightarrow> bool" where
  "entries_ok m \<longleftrightarrow> wf_map (sandboxes m) \<and>
     (\<forall>k e. map_of (sandboxes m) k = Some e \<longrightarrow> entry_ok k e)"

definition mgr_ok :: "manager \<Rightarrow> bool" where
  "mgr_ok m \<longleftrightarrow> entries_ok m \<and> active m \<le> maxConcurrentSandboxes"

section \<open>What each section changes\<close>

lemma section_sandboxes [simp]:
  "sandboxes (call c m) = sandboxes m"
  "sandboxes (go g m) = sandboxes m"
  "sandboxes (removeAll_dir rm d m) = sandboxes m"
  "sandboxes (stop_container e m) = sandboxes m"
  "sandboxes (cleanup rm k m) = sandboxes m"
  "sandboxes (cancel_ctx k m) = adjust k (cancelled_update (\<lambda>_. True)) (sandboxes m)"
  "sandboxes (mark k f m) = adjust k (info_update f) (sandboxes m)"
  "sandboxes (store_script k s m) = adjust k (scriptDir_update (\<lambda>_. script_dir k)) (sandboxes m)"
  by (simp_all add: call_def go_def removeAll_dir_def stop_container_def cleanup_def cancel_ctx_def
      mark_def store_script_def split: option.splits)

lemma section_calls [simp]:
  "calls (call c m) = calls m @ [c]"
  "calls (go g m) = calls m"
  "calls (removeAll_dir rm d m) = calls m"
  "calls (cleanup rm k m) = calls m"
  "calls (cancel_ctx k m) = calls m"
  "calls (mark k f m) = calls m"
  "calls (store_script k s m) = calls m"
  by (simp_all add: call_def go_def removeAll_dir_def cleanup_def cancel_ctx_def mark_def
      store_script_def split: option.splits)

lemma section_files [simp]:
  "files (call c m) = files m"
  "files (go g m) = files m"
  "files (cancel_ctx k m) = files m"
  "files (mark k f m) = files m"
  "files (stop_container e m) = files m"
  "files (store_script k s m) = put (script_path k) s (files m)"
  by (simp_all add: call_def go_def cancel_ctx_def mark_def stop_container_def store_script_def)

lemma section_started [simp]:
  "started (call c m) = started m"
  "started (go g m) = started m @ [g]"
  "started (cancel_ctx k m) = started m"
  "started (mark k f m) = started m"
  "started (store_script k s m) = started m"
  by (simp_all add: call_def go_def cancel_ctx_def mark_def store_script_def)

lemma setError_sandboxes:
  "sandboxes (setError k msg m) =
     adjust k (info_update (\<lambda>i. i\<lparr>Status := StatusError, ErrorMsg := msg\<rparr>))
       (adjust k (cancelled_update (\<lambda>_. True)) (sandboxes m))"
  by (simp add: setError_def)

lemma Kill_sandboxes:
  "sandboxes (snd (Kill rm k m)) =
     adjust k (info_update (\<lambda>i. i\<lparr>Status := StatusStopped\<rparr>))
       (adjust k (cancelled_update (\<lambda>_. True)) (sandboxes m))"
  by (auto simp: Kill_def mark_stopped_def adjust_absent split: option.splits)

lemma container_gone_sandboxes:
  "sandboxes (container_gone rm k m) =
     adjust k (info_update (\<lambda>i. i\<lparr>Status := StatusStopped\<rparr>))
       (adjust k (cancelled_update (\<lambda>_. True)) (sandboxes m))"
  by (simp add: container_gone_def mark_stopped_def)

lemmas op_sandboxes = setError_sandboxes Kill_sandboxes container_gone_sandboxes

section \<open>Preservation\<close>

lemma entries_ok_adjust:
  assumes "entries_ok m" "sandboxes m' = adjust k f (sandboxes m)"
    and "\<And>e. entry_ok k e \<Longrightarrow> entry_ok k (f e)"
  shows "entries_ok m'"
  using assms unfolding entries_ok_def by (auto simp: map_of_adjust split: if_splits)

lemma active_adjust_le:
  "(\<And>e. is_active (f e) \<Longrightarrow> is_active e) \<Longrightarrow> sandboxes m' = adjust k f (sandboxes m) \<Longrightarrow> active m' \<le> active m"
  by (simp add: active_def count_vals_adjust_le)

lemma mgr_ok_adjust:
  assumes "mgr_ok m" "sandboxes m' = adjust k f (sandboxes m)"
    and "\<And>e. entry_ok k e \<Longrightarrow> entry_ok k (f e)" "\<And>e. is_active (f e) \<Longrightarrow> is_active e"
  shows "mgr_ok m'"
  using assms entries_ok_adjust [of m m' k f] active_adjust_le [of f m' k m]
  unfolding mgr_ok_def by (metis order_trans)

lemma mgr_ok_setError [keeps]: "mgr_ok m \<Longrightarrow> mgr_ok (setError k msg m)"
  by (erule mgr_ok_adjust, simp add: op_sandboxes adjust_adjust) (auto simp: entry_ok_def is_active_def)

lemma mgr_ok_Kill [keeps]: "mgr_ok m \<Longrightarrow> mgr_ok (snd (Kill rm k m))"
  by (erule mgr_ok_adjust, simp add: op_sandboxes adjust_adjust) (auto simp: entry_ok_def is_active_def)

lemma mgr_ok_container_gone [keeps]: "mgr_ok m \<Longrightarrow> mgr_ok (container_gone rm k m)"
  by (erule mgr_ok_adjust, simp add: op_sandboxes adjust_adjust) (auto simp: entry_ok_def is_active_def)

lemma mgr_ok_store_script [keeps]: "mgr_ok m \<Longrightarrow> mgr_ok (store_script k s m)"
  by (erule mgr_ok_adjust, simp) (auto simp: entry_ok_def is_active_def)

lemma mgr_ok_call [keeps]: "mgr_ok m \<Longrightarrow> mgr_ok (call c m)" "mgr_ok m \<Longrightarrow> mgr_ok (go g m)"
  by (simp_all add: mgr_ok_def entries_ok_def active_def)

lemma reserve_InrD:
  assumes "reserve k s t m = Inr m'"
  shows "map_of (sandboxes m) k = None" "active m < maxConcurrentSandboxes"
    "sandboxes m' = sandboxes m @ [(k, new_entry k s t)]"
    "files m' = files m" "calls m' = calls m" "started m' = started m"
  using assms by (auto simp: reserve_def put_absent split: if_splits)

lemma new_entry_active [simp]: "is_active (new_entry k s t)"
  by (simp add: is_active_def new_entry_def)

lemma reserve_lookup: "reserve k s t m = Inr m' \<Longrightarrow> map_of (sandboxes m') = (map_of (sandboxes m))(k \<mapsto> new_entry k s t)"
  using reserve_InrD(1,3) [of k s t m m'] map_of_snoc_absent by metis

lemma reserve_active: "reserve k s t m = Inr m' \<Longrightarrow> active m' = Suc (active m)"
  using reserve_InrD [of k s t m m'] by (simp add: active_def)

lemma reserve_ok:
  assumes "mgr_ok m" "reserve k s t m = Inr m'" "traderIDRegex k" "length s \<le> maxScriptBytes"
  shows "mgr_ok m'"
proof -
  have "entry_ok k (new_entry k s t)" using assms by (simp add: entry_ok_def new_entry_def)
  moreover have "wf_map (sandboxes m')"
    using assms(1) reserve_InrD [OF assms(2)] by (auto simp: mgr_ok_def entries_ok_def map_of_eq_None_iff)
  ultimately show ?thesis
    using assms(1) reserve_active [OF assms(2)] reserve_InrD(2) [OF assms(2)]
    by (simp add: mgr_ok_def entries_ok_def reserve_lookup [OF assms(2)])
qed

lemma spawn_finish_ok:
  assumes "mgr_ok m" "map_of (sandboxes m) k = Some e" "is_active e"
  shows "mgr_ok (spawn_finish k cid m)"
proof -
  let ?f = "info_update (\<lambda>i. i\<lparr>ContainerID := cid, Status := StatusRunning\<rparr>)"
  have s: "sandboxes (spawn_finish k cid m) = adjust k ?f (sandboxes m)" by (simp add: spawn_finish_def)
  have "entries_ok (spawn_finish k cid m)"
    using assms(1) s by (auto simp: mgr_ok_def entry_ok_def intro: entries_ok_adjust)
  moreover have "active (spawn_finish k cid m) = active m"
    unfolding active_def s using assms(2,3) by (intro count_vals_adjust_eq) (auto simp: is_active_def)
  ultimately show ?thesis using assms(1) by (simp add: mgr_ok_def)
qed

lemma spawn_docker_ok:
  assumes "mgr_ok m" "map_of (sandboxes m) k = Some e" "is_active e"
  shows "mgr_ok (snd (spawn_docker env k m))"
  using assms
  by (auto simp: spawn_docker_def Let_def intro!: keeps spawn_finish_ok split: sum.splits option.splits)

lemma spawn_reserved_ok:
  assumes "mgr_ok m" "map_of (sandboxes m) k = Some e" "is_active e"
  shows "mgr_ok (snd (spawn_reserved env k s m))"
proof -
  have "mgr_ok (snd (spawn_docker env k (store_script k s m)))"
    by (rule spawn_docker_ok [where e = "e\<lparr>scriptDir := script_dir k\<rparr>"])
       (use assms in \<open>auto intro: keeps simp: is_active_def\<close>)
  with assms(1) show ?thesis
    by (auto simp: spawn_reserved_def intro: keeps split: option.splits)
qed

lemma mgr_ok_Spawn [keeps]: "mgr_ok m \<Longrightarrow> mgr_ok (snd (Spawn env k s m))"
proof (cases "reserve k s (now env) m")
  case (Inr m1)
  assume "mgr_ok m"
  with Inr show ?thesis
    by (auto simp: Spawn_def intro!: spawn_reserved_ok intro: reserve_ok simp: reserve_lookup)
qed (simp add: Spawn_def)

lemma mgr_ok_monitor_step [keeps]: "mgr_ok m \<Longrightarrow> mgr_ok (snd (monitor_step rm k ev m))"
  by (cases "(rm, k, ev, m)" rule: monitor_step.cases) (auto intro: keeps)

lemma mgr_ok_fold_Kill: "mgr_ok m \<Longrightarrow> mgr_ok (fold (\<lambda>k acc. snd (Kill (rms k) k acc)) ks m)"
  by (induction ks arbitrary: m) (auto intro: keeps)

lemma mgr_ok_KillAll [keeps]: "mgr_ok m \<Longrightarrow> mgr_ok (KillAll rms m)"
  by (simp add: KillAll_def mgr_ok_fold_Kill)

lemma mgr_ok_run_op [keeps]: "mgr_ok m \<Longrightarrow> mgr_ok (run_op op m)"
  by (cases op) (auto intro: keeps)

lemma mgr_ok_empty_manager [simp]: "mgr_ok empty_manager"
  by (simp add: mgr_ok_def entries_ok_def active_def empty_manager_def)

interpretation one_at_a_time: guarded_system "\<lambda>m. m = empty_manager" "\<lambda>m m'. \<exists>op. m' = run_op op m" mgr_ok
  by unfold_locales (auto intro: keeps)

lemma run_ops_reach: "(\<lambda>m m'. \<exists>op. m' = run_op op m)\<^sup>*\<^sup>* m (run_ops ops m)"
proof (induction ops arbitrary: m)
  case (Cons op ops)
  have "run_ops (op # ops) m = run_ops ops (run_op op m)" by (simp add: run_ops_def)
  then show ?case using Cons [of "run_op op m"] by (metis (mono_tags, lifting) converse_rtranclp_into_rtranclp)
qed (simp add: run_ops_def)

section \<open>Where scripts are stored\<close>

lemma id_char_facts: "\<not> id_char CHR ''/''" "\<not> id_char CHR ''.''"
  by (simp_all add: id_char_def is_digit_def Let_def)

lemma regex_plain:
  assumes "traderIDRegex k"
  shows "k \<noteq> []" "k \<noteq> ''.''" "k \<noteq> ''..''" "CHR ''/'' \<notin> set k"
  using assms id_char_facts by (auto simp: traderIDRegex_def list_all_iff)

lemma script_dir_eq: "traderIDRegex k \<Longrightarrow> script_dir k = scriptBasePath @ ''/'' @ k"
  unfolding script_dir_def
  by (subst filepath_join_plain [where cs = "[''tmp'', ''quantsim-scripts'']"])
     (simp_all add: regex_plain scriptBasePath_def join_comps_def)

lemma script_path_eq:
  assumes "traderIDRegex k"
  shows "script_path k = scriptBasePath @ ''/'' @ k @ ''/trader.py''"
proof -
  have "clean_comps [] (split_on CHR ''/'' (script_dir k)) = [''tmp'', ''quantsim-scripts'', k]"
    using regex_plain [OF assms]
    by (simp add: script_dir_eq assms scriptBasePath_def split_on_append_sep split_on_no_sep)
  from filepath_join_plain [OF _ _ _ _ this, of "''trader.py''"] show ?thesis
    by (simp add: script_path_def join_comps_def scriptBasePath_def)
qed

lemma script_path_under_dir:
  assumes "traderIDRegex k" "traderIDRegex k'"
  shows "under_dir (script_dir k) (script_path k') \<longleftrightarrow> k = k'"
proof
  assume u: "under_dir (script_dir k) (script_path k')"

  have "k \<noteq> k' @ ''/trader.py''" using regex_plain(4) [OF assms(1)] by auto
  then obtain z where "k @ ''/'' @ z = k' @ ''/'' @ ''trader.py''"
    using u assms by (auto simp: under_dir_def script_dir_eq script_path_eq prefix_def)
  then show "k = k'" using assms by (simp add: append_sep_eq regex_plain(4))
qed (use assms in \<open>simp add: under_dir_def script_dir_eq script_path_eq\<close>)

section \<open>Properties of the operations\<close>

lemma Spawn_reservedD:
  assumes "fst (Spawn env k s m) = None"
  obtains m1 where "reserve k s (now env) m = Inr m1" "Spawn env k s m = spawn_reserved env k s m1"
    "traderIDRegex k" "length s \<le> maxScriptBytes"
  using assms by (auto simp: Spawn_def split: if_splits sum.splits)

definition running_entry :: "spawn_env \<Rightarrow> string \<Rightarrow> string \<Rightarrow> string \<Rightarrow> sandboxEntry" where
  "running_entry env k s cid =
     \<lparr>info = \<lparr>TraderID = k, ContainerID = cid, Status = StatusRunning, StartedAt = now env,
              ErrorMsg = '''', ScriptSize = length s\<rparr>,
      scriptDir = script_dir k, cancelled = False\<rparr>"

definition create_call :: "string \<Rightarrow> docker_call" where
  "create_call k = ContainerCreate (spawn_cfg k) (spawn_hostCfg (script_path k))"

lemma spawn_reserved_success:
  assumes "spawn_reserved env k s m = (None, m')"
  obtains cid where "create_res env = Inr cid"
    "calls m' = calls m @ [create_call k, ContainerAttach cid, ContainerStart cid]"
    "files m' = put (script_path k) s (files m)"
    "started m' = started m @ [GoHandleSandbox k, GoMonitor k cid]"
    "sandboxes m' = adjust k (info_update (\<lambda>i. i\<lparr>ContainerID := cid, Status := StatusRunning\<rparr>))
       (adjust k (scriptDir_update (\<lambda>_. script_dir k)) (sandboxes m))"
  using assms
  by (auto simp: spawn_reserved_def spawn_docker_def Let_def create_call_def spawn_finish_def
      split: option.splits sum.splits)

lemma Spawn_success_state:
  assumes "Spawn env k s m = (None, m')"
  obtains cid where "create_res env = Inr cid" "traderIDRegex k" "length s \<le> maxScriptBytes"
    "calls m' = calls m @ [create_call k, ContainerAttach cid, ContainerStart cid]"
    "files m' = put (script_path k) s (files m)"
    "started m' = started m @ [GoHandleSandbox k, GoMonitor k cid]"
    "map_of (sandboxes m) k = None"
    "map_of (sandboxes m') = (map_of (sandboxes m))(k \<mapsto> running_entry env k s cid)"
proof -
  from assms have "fst (Spawn env k s m) = None" by simp
  then obtain m1 where m1: "reserve k s (now env) m = Inr m1" "Spawn env k s m = spawn_reserved env k s m1"
    "traderIDRegex k" "length s \<le> maxScriptBytes" by (rule Spawn_reservedD)
  with assms have *: "spawn_reserved env k s m1 = (None, m')" by simp
  note r = reserve_InrD [OF m1(1)] reserve_lookup [OF m1(1)]
  show thesis
  proof (rule spawn_reserved_success [OF *])
    fix cid
    assume cid: "create_res env = Inr cid"
      "calls m' = calls m1 @ [create_call k, ContainerAttach cid, ContainerStart cid]"
      "files m' = put (script_path k) s (files m1)"
      "started m' = started m1 @ [GoHandleSandbox k, GoMonitor k cid]"
      "sandboxes m' = adjust k (info_update (\<lambda>i. i\<lparr>ContainerID := cid, Status := StatusRunning\<rparr>))
         (adjust k (scriptDir_update (\<lambda>_. script_dir k)) (sandboxes m1))"
    have lk: "map_of (sandboxes m') = (map_of (sandboxes m))(k \<mapsto> running_entry env k s cid)"
      by (rule ext) (simp add: cid(5) map_of_adjust r(7) running_entry_def new_entry_def)
    show thesis by (rule that [OF cid(1) m1(3,4) _ _ _ _ lk]) (simp_all add: cid(2-4) r)
  qed
qed

text \<open>Property C15.  The cap of five concurrent sandboxes and the well-formedness of the table
  (each entry is filed under its own valid trader id, its script is at most 50 KiB and its
  directory is its own) hold after every sequence of \<^verbatim>\<open>Spawn\<close>, \<^verbatim>\<open>Kill\<close>, monitor and \<^verbatim>\<open>KillAll\<close>
  operations run one after the other, whatever the operating system and Docker answer.\<close>

theorem sandbox_cap:
  "active (run_ops ops empty_manager) \<le> 5 \<and> entries_ok (run_ops ops empty_manager)"
  using one_at_a_time.reachable_good [OF refl run_ops_reach, of ops]
  by (simp add: mgr_ok_def maxConcurrentSandboxes_def)

text \<open>Property C22.  When \<^verbatim>\<open>Spawn\<close> succeeds, the entry is running under the container id Docker
  returned, the script is stored at \<^verbatim>\<open>/tmp/quantsim-scripts/<id>/trader.py\<close>, the container was
  created without network, read-only, auto-removed, with 128 MiB and half a CPU, then attached,
  then started, the goroutines of the relay and then of the monitor were started, and every other entry is untouched.\<close>

theorem spawn_success:
  assumes "Spawn env k s m = (None, m')"
  shows "\<exists>cid. create_res env = Inr cid \<and>
    GetInfo k m' = Some \<lparr>TraderID = k, ContainerID = cid, Status = StatusRunning, StartedAt = now env,
                         ErrorMsg = '''', ScriptSize = length s\<rparr> \<and>
    calls m' = calls m @ [ContainerCreate
      \<lparr>Image = ''quantsim-sandbox:latest'', OpenStdin = True, Env = [''TRADER_ID='' @ k],
       Labels = [(''quantsim-sandbox'', ''true''), (''trader-id'', k)]\<rparr>
      \<lparr>NetworkMode = ''none'', ReadonlyRootfs = True, AutoRemove = True, Memory = 134217728,
       NanoCPUs = 500000000, Tmpfs = [(''/tmp'', ''rw,size=16m'')],
       Mounts = [\<lparr>MountType = ''bind'', Source = ''/tmp/quantsim-scripts/'' @ k @ ''/trader.py'',
         Target = ''/script/trader.py'', MountReadOnly = True\<rparr>]\<rparr>, ContainerAttach cid, ContainerStart cid] \<and>
    map_of (files m') (''/tmp/quantsim-scripts/'' @ k @ ''/trader.py'') = Some s \<and>
    started m' = started m @ [GoHandleSandbox k, GoMonitor k cid] \<and>
    (\<forall>k'. k' \<noteq> k \<longrightarrow> map_of (sandboxes m') k' = map_of (sandboxes m) k')"
proof (rule Spawn_success_state [OF assms])
  fix cid
  assume cid: "create_res env = Inr cid" "traderIDRegex k"
    "calls m' = calls m @ [create_call k, ContainerAttach cid, ContainerStart cid]"
    "files m' = put (script_path k) s (files m)"
    "started m' = started m @ [GoHandleSandbox k, GoMonitor k cid]"
    "map_of (sandboxes m') = (map_of (sandboxes m))(k \<mapsto> running_entry env k s cid)"
  have path: "script_path k = ''/tmp/quantsim-scripts/'' @ k @ ''/trader.py''"
    by (simp add: script_path_eq cid(2) scriptBasePath_def)
  have "map_of (files m') (''/tmp/quantsim-scripts/'' @ k @ ''/trader.py'') = Some s"
    unfolding path [symmetric] by (simp add: cid(4) update_conv')
  moreover have "create_call k = ContainerCreate
      \<lparr>Image = ''quantsim-sandbox:latest'', OpenStdin = True, Env = [''TRADER_ID='' @ k],
       Labels = [(''quantsim-sandbox'', ''true''), (''trader-id'', k)]\<rparr>
      \<lparr>NetworkMode = ''none'', ReadonlyRootfs = True, AutoRemove = True, Memory = 134217728,
       NanoCPUs = 500000000, Tmpfs = [(''/tmp'', ''rw,size=16m'')],
       Mounts = [\<lparr>MountType = ''bind'', Source = ''/tmp/quantsim-scripts/'' @ k @ ''/trader.py'',
         Target = ''/script/trader.py'', MountReadOnly = True\<rparr>]\<rparr>"
    by (simp add: create_call_def path spawn_cfg_def spawn_hostCfg_def sandboxImageName_def)
  ultimately show ?thesis
    using cid by (intro exI [of _ cid]) (simp add: GetInfo_def running_entry_def)
qed

definition env_ok :: "string \<Rightarrow> spawn_env" where
  "env_ok cid = \<lparr>now = 7, mkdir_err = None, write_err = None, create_res = Inr cid,
     attach_err = None, start_err = None\<rparr>"

lemmas spawn_eval = Spawn_def reserve_def spawn_reserved_def spawn_docker_def Let_def active_def
  traderIDRegex_def id_char_def is_digit_def maxScriptBytes_def maxConcurrentSandboxes_def env_ok_def
  empty_manager_def

theorem spawn_success_witness:
  "fst (Spawn (env_ok ''c1'') ''bot_1'' ''pass'' empty_manager) = None \<and>
   GetInfo ''bot_1'' (snd (Spawn (env_ok ''c1'') ''bot_1'' ''pass'' empty_manager)) =
     Some \<lparr>TraderID = ''bot_1'', ContainerID = ''c1'', Status = StatusRunning, StartedAt = 7,
           ErrorMsg = '''', ScriptSize = 4\<rparr>"
proof -
  have f: "fst (Spawn (env_ok ''c1'') ''bot_1'' ''pass'' empty_manager) = None"
    by (simp add: spawn_eval)
  then have "Spawn (env_ok ''c1'') ''bot_1'' ''pass'' empty_manager =
    (None, snd (Spawn (env_ok ''c1'') ''bot_1'' ''pass'' empty_manager))" by (metis prod.collapse)
  from spawn_success [OF this] f show ?thesis by (auto simp: env_ok_def)
qed

text \<open>How a failing \<^verbatim>\<open>Spawn\<close> leaves the manager.\<close>

definition spawn_rejections :: "go_error list" where
  "spawn_rejections = [''invalid_trader_id'', ''script_too_large'', ''duplicate_trader_id'', ''too_many_sandboxes'']"

lemma setError_state:
  assumes "map_of (sandboxes m) k = Some e" "is_active e"
  shows "active (setError k msg m) + 1 = active m"
    and "map_of (sandboxes (setError k msg m)) k =
      Some (e\<lparr>cancelled := True, info := (info e)\<lparr>Status := StatusError, ErrorMsg := msg\<rparr>\<rparr>)"
proof -
  show "active (setError k msg m) + 1 = active m"
    using count_vals_adjust [OF assms(1), of is_active
        "info_update (\<lambda>i. i\<lparr>Status := StatusError, ErrorMsg := msg\<rparr>) \<circ> cancelled_update (\<lambda>_. True)"] assms(2)
    by (simp add: active_def setError_sandboxes adjust_adjust is_active_def)
  show "map_of (sandboxes (setError k msg m)) k =
      Some (e\<lparr>cancelled := True, info := (info e)\<lparr>Status := StatusError, ErrorMsg := msg\<rparr>\<rparr>)"
    by (simp add: setError_sandboxes assms(1))
qed

lemma active_same: "sandboxes m = sandboxes m' \<Longrightarrow> active m = active m'"
  by (simp add: active_def)

lemma active_store_script: "active (store_script k s m) = active m"
  unfolding active_def by (simp add: count_vals_adjust_eq is_active_def)

text \<open>\<open>m'\<close> is \<open>m\<close> with the entry of \<open>k\<close> failed and its slot given back.\<close>

definition failed_entry :: "string \<Rightarrow> manager \<Rightarrow> manager \<Rightarrow> bool" where
  "failed_entry k m m' \<longleftrightarrow> active m' + 1 = active m \<and>
     (\<exists>e. map_of (sandboxes m') k = Some e \<and> Status (info e) = StatusError \<and> cancelled e \<and> ContainerID (info e) = '''') \<and>
     (\<forall>k'. k' \<noteq> k \<longrightarrow> map_of (sandboxes m') k' = map_of (sandboxes m) k')"

lemma setError_failed:
  "map_of (sandboxes m) k = Some e \<Longrightarrow> is_active e \<Longrightarrow> ContainerID (info e) = '''' \<Longrightarrow> failed_entry k m (setError k msg m)"
  using setError_state [of m k e msg] by (simp add: failed_entry_def) (simp add: setError_sandboxes)

lemma failed_entry_cong:
  "failed_entry k m0 m' \<Longrightarrow> active m0 = active m \<Longrightarrow>
     (\<And>k'. k' \<noteq> k \<Longrightarrow> map_of (sandboxes m0) k' = map_of (sandboxes m) k') \<Longrightarrow> failed_entry k m m'"
  by (simp add: failed_entry_def)

lemma failed_reserved:
  assumes e: "map_of (sandboxes m) k = Some e" "is_active e" "ContainerID (info e) = ''''"
    and f: "spawn_reserved env k s m = (Some err, m')"
  shows "failed_entry k m m'"
proof -
  consider (plain) msg where "m' = setError k msg m"
    | (stored) msg m0 where "m' = setError k msg m0" "sandboxes m0 = sandboxes (store_script k s m)"
    using f
    by (auto simp: spawn_reserved_def spawn_docker_def Let_def split: option.splits sum.splits)
  then show ?thesis
  proof cases
    case plain
    then show ?thesis using e by (simp add: setError_failed)
  next
    case stored
    have "failed_entry k m0 m'"
      unfolding stored(1) by (rule setError_failed [where e = "e\<lparr>scriptDir := script_dir k\<rparr>"])
        (use e stored(2) in \<open>auto simp: is_active_def\<close>)
    then show ?thesis
      by (rule failed_entry_cong) (use stored(2) in \<open>simp_all add: active_same [OF stored(2)] active_store_script\<close>)
  qed
qed

lemma spawn_reserved_err: "spawn_reserved env k s m = (Some err, m') \<Longrightarrow> err \<notin> set spawn_rejections"
  by (auto simp: spawn_reserved_def spawn_docker_def Let_def spawn_rejections_def split: option.splits sum.splits)

lemma Spawn_failure_state:
  assumes "Spawn env k s m = (Some err, m')"
  obtains (refused) "err \<in> set spawn_rejections" "m' = m"
  | (failed) "err \<notin> set spawn_rejections" "active m' = active m" "map_of (sandboxes m) k = None"
      "\<exists>e. map_of (sandboxes m') k = Some e \<and> Status (info e) = StatusError \<and> cancelled e \<and> ContainerID (info e) = ''''"
      "\<forall>k'. k' \<noteq> k \<longrightarrow> map_of (sandboxes m') k' = map_of (sandboxes m) k'"
proof (cases "traderIDRegex k \<and> length s \<le> maxScriptBytes \<and> (\<exists>m1. reserve k s (now env) m = Inr m1)")
  case False
  then show ?thesis using assms refused
    by (auto simp: Spawn_def spawn_rejections_def reserve_def split: if_splits sum.splits)
next
  case True
  then obtain m1 where m1: "reserve k s (now env) m = Inr m1" by blast
  with True assms have *: "spawn_reserved env k s m1 = (Some err, m')" by (auto simp: Spawn_def)
  have "failed_entry k m1 m'"
    by (rule failed_reserved [OF _ _ _ *, of "new_entry k s (now env)"])
       (simp_all add: reserve_lookup [OF m1], simp add: new_entry_def)
  then show ?thesis
    using reserve_active [OF m1] reserve_InrD(1) [OF m1] reserve_lookup [OF m1] spawn_reserved_err [OF *]
    by (intro failed) (simp_all add: failed_entry_def)
qed

text \<open>Property C23.  When \<^verbatim>\<open>Spawn\<close> returns an error, either the request was refused with one of the
  four documented reasons and nothing changed, or the sandbox is recorded as failed: its entry is
  in status error with the context cancelled, it does not count as active (the reserved slot is
  given back), and every other entry is untouched.\<close>

theorem spawn_failure:
  assumes "Spawn env k s m = (Some err, m')"
  shows "err \<in> set spawn_rejections \<and> m' = m \<or>
    (active m' = active m \<and> map_of (sandboxes m) k = None \<and>
     (\<exists>e. map_of (sandboxes m') k = Some e \<and> Status (info e) = StatusError \<and> cancelled e \<and> ContainerID (info e) = '''') \<and>
     (\<forall>k'. k' \<noteq> k \<longrightarrow> map_of (sandboxes m') k' = map_of (sandboxes m) k'))"
  by (rule Spawn_failure_state [OF assms]) simp_all

theorem spawn_failure_witness:
  "\<exists>m'. Spawn (env_ok ''c1'') ''../x'' ''pass'' empty_manager = (Some ''invalid_trader_id'', m') \<and> m' = empty_manager"
proof -
  have f: "Spawn (env_ok ''c1'') ''../x'' ''pass'' empty_manager = (Some ''invalid_trader_id'', empty_manager)"
    by (simp add: spawn_eval)
  from spawn_failure [OF this] f show ?thesis by blast
qed

section \<open>Stopping\<close>

lemma map_of_filter_key: "map_of (filter (\<lambda>(p, _). Q p) m) k = (if Q k then map_of m k else None)"
  by (induction m) auto

lemma cleanup_files_other:
  assumes "entries_ok m" "k \<noteq> k'" "traderIDRegex k'"
  shows "map_of (files (cleanup rm k m)) (script_path k') = map_of (files m) (script_path k')"
proof (cases "map_of (sandboxes m) k")
  case (Some e)
  then have "entry_ok k e" using assms(1) by (simp add: entries_ok_def)
  then have "scriptDir e \<noteq> '''' \<Longrightarrow> \<not> under_dir (scriptDir e) (script_path k')"
    using assms(2,3) by (auto simp: entry_ok_def script_path_under_dir)
  then show ?thesis by (simp add: Some cleanup_def removeAll_dir_def map_of_filter_key)
qed (simp add: cleanup_def)

lemma cleanup_files_own:
  assumes "map_of (sandboxes m) k = Some e" "scriptDir e = script_dir k" "traderIDRegex k"
  shows "map_of (files (cleanup rm k m)) (script_path k) = (if survives rm (script_path k) then map_of (files m) (script_path k) else None)"
proof -
  have "under_dir (script_dir k) (script_path k)" using assms(3) by (simp add: script_path_under_dir)
  moreover have "script_dir k \<noteq> ''''" using assms(3) by (simp add: script_dir_eq)
  ultimately show ?thesis using assms(1,2) by (simp add: cleanup_def removeAll_dir_def map_of_filter_key)
qed

lemma entries_ok_cancel: "entries_ok m \<Longrightarrow> entries_ok (mark_stopped k (stop_container e (cancel_ctx k m)))"
  by (rule entries_ok_adjust [of m _ k])
     (auto simp: mark_stopped_def adjust_adjust entry_ok_def)

text \<open>Property C29.  \<^verbatim>\<open>Kill\<close> on a known trader cancels its context, marks it stopped, asks Docker to
  stop its container if it has one, removes its script as far as the operating system lets it (the error of
  the removal is ignored: a script that could not be removed stays on the host), leaves the script alone if the entry never got
  one, and touches nothing of any other trader: neither its entry nor its script file, whatever the removal does.\<close>

theorem kill_effect:
  assumes "entries_ok m" "map_of (sandboxes m) k = Some e"
  shows "fst (Kill rm k m) = None \<and>
    map_of (sandboxes (snd (Kill rm k m))) k =
      Some (e\<lparr>cancelled := True, info := (info e)\<lparr>Status := StatusStopped\<rparr>\<rparr>) \<and>
    calls (snd (Kill rm k m)) = calls m @
      (if ContainerID (info e) = '''' then [] else [ContainerStop (ContainerID (info e)) 5]) \<and>
    map_of (files (snd (Kill rm k m))) (script_path k) =
      (if scriptDir e = '''' \<or> survives rm (script_path k) then map_of (files m) (script_path k) else None) \<and>
    (\<forall>k'. k' \<noteq> k \<longrightarrow> map_of (sandboxes (snd (Kill rm k m))) k' = map_of (sandboxes m) k' \<and>
      (traderIDRegex k' \<longrightarrow> map_of (files (snd (Kill rm k m))) (script_path k') = map_of (files m) (script_path k')))"
proof -
  let ?m = "mark_stopped k (stop_container e (cancel_ctx k m))"
  have K: "Kill rm k m = (None, cleanup rm k ?m)" using assms(2) by (simp add: Kill_def)
  have ok: "entry_ok k e" using assms by (simp add: entries_ok_def)
  have own: "map_of (files (cleanup rm k ?m)) (script_path k) =
      (if scriptDir e = '''' \<or> survives rm (script_path k) then map_of (files m) (script_path k) else None)"
  proof (cases "scriptDir e = ''''")
    case True
    then show ?thesis using assms(2) by (simp add: cleanup_def mark_stopped_def)
  next
    case False
    then show ?thesis using ok assms(2) by (subst cleanup_files_own) (auto simp: entry_ok_def mark_stopped_def)
  qed
  have other: "map_of (files (cleanup rm k ?m)) (script_path k') = map_of (files m) (script_path k')"
    if "k' \<noteq> k" "traderIDRegex k'" for k'
    using cleanup_files_other [OF entries_ok_cancel [OF assms(1)], of k k'] that by (simp add: mark_stopped_def)
  have c: "calls ?m = calls m @ (if ContainerID (info e) = '''' then [] else [ContainerStop (ContainerID (info e)) 5])"
    by (simp add: mark_stopped_def stop_container_def)
  have s: "sandboxes ?m = adjust k (info_update (\<lambda>i. i\<lparr>Status := StatusStopped\<rparr>))
       (adjust k (cancelled_update (\<lambda>_. True)) (sandboxes m))" by (simp add: mark_stopped_def)
  show ?thesis using own other assms(2) by (simp add: K c s)
qed

theorem kill_effect_witness:
  "let m = snd (Spawn (env_ok ''c1'') ''bot_1'' ''pass'' empty_manager); p = script_path ''bot_1'' in
     fst (Kill Removed ''bot_1'' m) = None \<and> last (calls (snd (Kill Removed ''bot_1'' m))) = ContainerStop ''c1'' 5 \<and>
     map_of (files (snd (Kill Removed ''bot_1'' m))) p = None \<and>
     map_of (files (snd (Kill (RemoveFailed [p]) ''bot_1'' m))) p = Some ''pass''"
proof -
  let ?m = "snd (Spawn (env_ok ''c1'') ''bot_1'' ''pass'' empty_manager)"
  have ok: "entries_ok ?m" using mgr_ok_Spawn [OF mgr_ok_empty_manager] by (simp add: mgr_ok_def)
  obtain e where e: "map_of (sandboxes ?m) ''bot_1'' = Some e" "ContainerID (info e) = ''c1''" "scriptDir e = script_dir ''bot_1''"
    "map_of (files ?m) (script_path ''bot_1'') = Some ''pass''"
    by (simp add: spawn_eval spawn_finish_def new_entry_def)
  moreover have "script_dir ''bot_1'' \<noteq> []" by (simp add: script_dir_eq spawn_eval)
  ultimately show ?thesis
    using kill_effect [OF ok e(1), of Removed] kill_effect [OF ok e(1), of "RemoveFailed [script_path ''bot_1'']"]
    by (simp add: Let_def)
qed

lemma fold_Kill_other:
  "k \<notin> set ks \<Longrightarrow> map_of (sandboxes (fold (\<lambda>k acc. snd (Kill (rms k) k acc)) ks m)) k = map_of (sandboxes m) k"
  by (induction ks arbitrary: m) (auto simp: Kill_sandboxes)

lemma fold_Kill_stopped:
  assumes "distinct ks" "k \<in> set ks" "map_of (sandboxes m) k = Some e"
  shows "map_of (sandboxes (fold (\<lambda>k acc. snd (Kill (rms k) k acc)) ks m)) k =
    Some (e\<lparr>cancelled := True, info := (info e)\<lparr>Status := StatusStopped\<rparr>\<rparr>)"
  using assms
proof (induction ks arbitrary: m)
  case (Cons a ks)
  then show ?case by (cases "a = k") (auto simp: Kill_sandboxes fold_Kill_other)
qed simp

lemma Kill_keys: "keys (sandboxes (snd (Kill rm k m))) = keys (sandboxes m)"
  by (simp add: Kill_sandboxes)

lemma fold_Kill_keys: "keys (sandboxes (fold (\<lambda>k acc. snd (Kill (rms k) k acc)) ks m)) = keys (sandboxes m)"
  by (induction ks arbitrary: m) (auto simp: Kill_keys)

lemma Kill_calls: "calls (snd (Kill rm k m)) =
  calls m @ (case map_of (sandboxes m) k of None \<Rightarrow> []
             | Some e \<Rightarrow> if ContainerID (info e) = '''' then [] else [ContainerStop (ContainerID (info e)) 5])"
  by (auto simp: Kill_def mark_stopped_def stop_container_def split: option.splits)

lemma fold_Kill_calls_mono: "set (calls m) \<subseteq> set (calls (fold (\<lambda>k acc. snd (Kill (rms k) k acc)) ks m))"
proof (induction ks arbitrary: m)
  case (Cons k ks)
  show ?case using Cons [of "snd (Kill (rms k) k m)"] by (auto simp: Kill_calls)
qed simp

lemma fold_Kill_stops:
  assumes "distinct ks" "k \<in> set ks" "map_of (sandboxes m) k = Some e" "ContainerID (info e) \<noteq> ''''"
  shows "ContainerStop (ContainerID (info e)) 5 \<in> set (calls (fold (\<lambda>k acc. snd (Kill (rms k) k acc)) ks m))"
  using assms
proof (induction ks arbitrary: m)
  case (Cons a ks)
  show ?case
  proof (cases "a = k")
    case True
    then show ?thesis
      using Cons.prems fold_Kill_calls_mono [of "snd (Kill (rms a) a m)" rms ks] by (auto simp: Kill_calls)
  next
    case False
    then show ?thesis using Cons by (simp add: Kill_sandboxes)
  qed
qed simp

text \<open>Shutdown: after \<^verbatim>\<open>KillAll\<close> on a well-formed manager no sandbox is active, every
  entry is stopped with its context cancelled, no entry was dropped, and Docker was asked to stop
  every container the manager knows.\<close>

theorem killAll_stops_everything:
  assumes "entries_ok m"
  shows "active (KillAll rms m) = 0 \<and> keys (sandboxes (KillAll rms m)) = keys (sandboxes m) \<and>
    (\<forall>k e. map_of (sandboxes m) k = Some e \<longrightarrow>
      map_of (sandboxes (KillAll rms m)) k = Some (e\<lparr>cancelled := True, info := (info e)\<lparr>Status := StatusStopped\<rparr>\<rparr>) \<and>
      (ContainerID (info e) \<noteq> '''' \<longrightarrow> ContainerStop (ContainerID (info e)) 5 \<in> set (calls (KillAll rms m))))"
proof -
  have d: "distinct (keys (sandboxes m))" using assms by (simp add: entries_ok_def)
  have k: "keys (sandboxes (KillAll rms m)) = keys (sandboxes m)" by (simp add: KillAll_def fold_Kill_keys)
  have st: "map_of (sandboxes (KillAll rms m)) k = Some (e\<lparr>cancelled := True, info := (info e)\<lparr>Status := StatusStopped\<rparr>\<rparr>)"
    if "map_of (sandboxes m) k = Some e" for k e
    unfolding KillAll_def by (rule fold_Kill_stopped [OF d map_of_SomeD_in_keys [OF that] that])
  have "active (KillAll rms m) = 0" unfolding active_def
  proof (rule count_vals_zero)
    fix k e' assume "(k, e') \<in> set (sandboxes (KillAll rms m))"
    then have "map_of (sandboxes (KillAll rms m)) k = Some e'" using d k by (simp add: map_of_eq_Some_iff)
    moreover have "map_of (sandboxes m) k \<noteq> None"
      using in_keys_iff [of k "sandboxes (KillAll rms m)"] in_keys_iff [of k "sandboxes m"] k calculation by simp
    ultimately show "\<not> is_active e'" using st by (auto simp: is_active_def)
  qed
  then show ?thesis
    using k st fold_Kill_stops [OF d map_of_SomeD_in_keys] by (auto simp: KillAll_def)
qed

theorem killAll_stops_everything_witness:
  "let m = snd (Spawn (env_ok ''c1'') ''bot_1'' ''pass'' empty_manager) in
     active m = 1 \<and> active (KillAll (\<lambda>_. Removed) m) = 0"
proof -
  let ?m = "snd (Spawn (env_ok ''c1'') ''bot_1'' ''pass'' empty_manager)"
  have "entries_ok ?m" using mgr_ok_Spawn [OF mgr_ok_empty_manager] by (simp add: mgr_ok_def)
  moreover have "active ?m = 1"
    by (simp add: spawn_eval spawn_finish_def new_entry_def is_active_def)
  ultimately show ?thesis using killAll_stops_everything by (simp add: Let_def)
qed

text \<open>Property C30.  A trader id accepted by the regular expression cannot move its script out of the
  base directory, and distinct traders have distinct files: the path is exactly
  base, id, file name, and the directory removed for one trader never holds another's script.\<close>

theorem script_path_confined:
  assumes "traderIDRegex k" "traderIDRegex k'"
  shows "script_path k = ''/tmp/quantsim-scripts/'' @ k @ ''/trader.py'' \<and>
    (script_path k = script_path k' \<longleftrightarrow> k = k') \<and>
    (under_dir (script_dir k) (script_path k') \<longleftrightarrow> k = k')"
  using script_path_under_dir [OF assms] script_path_eq [OF assms(1)] script_path_eq [OF assms(2)]
  by (simp add: scriptBasePath_def)

theorem script_path_confined_witness:
  "traderIDRegex ''bot-1'' \<and> \<not> traderIDRegex ''../../etc'' \<and>
   script_path ''bot-1'' = ''/tmp/quantsim-scripts/bot-1/trader.py''"
proof -
  have "traderIDRegex ''bot-1''" "\<not> traderIDRegex ''../../etc''" by (simp_all add: spawn_eval)
  with script_path_confined [of "''bot-1''" "''bot-1''"] show ?thesis by simp
qed

fun ends_monitor :: "mon_event \<Rightarrow> bool" where
  "ends_monitor CtxDone = True"
| "ends_monitor AutoKill = True"
| "ends_monitor (Tick (InspectErr e)) = True"
| "ends_monitor (Tick (InspectState running code)) = (\<not> running)"
| "ends_monitor (Tick InspectNoState) = False"

lemma monitor_healthy:
  "monitor rm k (replicate n (Tick (InspectState True c)) @ evs) m = monitor rm k evs m"
  by (induction n) auto

lemma stopped_inactive:
  assumes "map_of (sandboxes m) k = Some e"
    "sandboxes m' = adjust k (info_update (\<lambda>i. i\<lparr>Status := StatusStopped\<rparr>))
       (adjust k (cancelled_update (\<lambda>_. True)) (sandboxes m))"
  shows "\<exists>e'. map_of (sandboxes m') k = Some e' \<and> \<not> is_active e' \<and> cancelled e'"
  using assms by (simp add: is_active_def)

text \<open>The monitor goroutine ends: after any number of healthy inspections, the first
  event that is a cancelled context, the 24 hour auto-kill, a failed inspection or a stopped
  container makes it return, whatever would come later, and unless the context was already
  cancelled by someone else the sandbox is no longer active and its context is cancelled.\<close>

theorem monitor_returns:
  assumes "ends_monitor ev" "map_of (sandboxes m) k = Some e"
  shows "\<exists>m'. monitor rm k (replicate n (Tick (InspectState True c)) @ ev # evs) m = (MonReturn, m') \<and>
    (if ev = CtxDone then m' = m
     else \<exists>e'. map_of (sandboxes m') k = Some e' \<and> \<not> is_active e' \<and> cancelled e')"
  using assms stopped_inactive [OF assms(2)]
  by (cases ev rule: ends_monitor.cases) (auto simp: monitor_healthy op_sandboxes is_active_def)

theorem monitor_returns_witness:
  "\<exists>m'. monitor Removed ''bot_1'' (replicate 3 (Tick (InspectState True 0)) @ AutoKill # [])
      (snd (Spawn (env_ok ''c1'') ''bot_1'' ''pass'' empty_manager)) = (MonReturn, m') \<and> active m' = 0"
proof -
  let ?m = "snd (Spawn (env_ok ''c1'') ''bot_1'' ''pass'' empty_manager)"
  have e: "map_of (sandboxes ?m) ''bot_1'' = Some (running_entry (env_ok ''c1'') ''bot_1'' ''pass'' ''c1'')"
    by (simp add: spawn_eval spawn_finish_def new_entry_def running_entry_def)
  have s: "active (snd (Kill Removed ''bot_1'' ?m)) = 0"
    by (simp add: spawn_eval spawn_finish_def new_entry_def active_def Kill_sandboxes is_active_def)
  have "ends_monitor AutoKill" by simp
  from monitor_returns [OF this e, of Removed 3 0 "[]"] s show ?thesis by (auto simp: monitor_healthy)
qed

text \<open>A container that was created but could not be attached or started is never stopped
  or removed: the failed entry carries no container id, so neither \<^verbatim>\<open>Spawn\<close> itself nor a later
  \<^verbatim>\<open>Kill\<close> of that trader issues a stop call.\<close>

theorem failed_start_leaks_container:
  assumes "create_res env = Inr cid" "attach_err env \<noteq> None \<or> start_err env \<noteq> None"
    and "mkdir_err env = None" "write_err env = None"
    and "traderIDRegex k" "length s \<le> maxScriptBytes" "reserve k s (now env) m = Inr m1"
  shows "create_call k \<in> set (calls (snd (Spawn env k s m))) \<and>
    (\<forall>c n. ContainerStop c n \<in> set (calls (snd (Kill rm k (snd (Spawn env k s m))))) \<longrightarrow>
           ContainerStop c n \<in> set (calls m))"
proof -
  let ?r = "Spawn env k s m"
  have r: "?r = spawn_docker env k (store_script k s m1)"
    using assms by (simp add: Spawn_def spawn_reserved_def)
  have fails: "fst ?r \<noteq> None" and made: "create_call k \<in> set (calls (snd ?r))"
    and nostop: "ContainerStop c n \<in> set (calls (snd ?r)) \<Longrightarrow> ContainerStop c n \<in> set (calls m)" for c n
    using assms(1,2) reserve_InrD(5) [OF assms(7)]
    by (auto simp: r spawn_docker_def Let_def create_call_def setError_def split: option.splits)
  have "Spawn env k s m = spawn_reserved env k s m1" using assms by (simp add: Spawn_def)
  then obtain err where "spawn_reserved env k s m1 = (Some err, snd ?r)" using fails
    by (metis not_None_eq prod.collapse)
  then have "failed_entry k m1 (snd ?r)"
    by (rule failed_reserved [rotated 3, where e = "new_entry k s (now env)"])
       (simp_all add: reserve_lookup [OF assms(7)], simp add: new_entry_def)
  then have "calls (snd (Kill rm k (snd ?r))) = calls (snd ?r)"
    by (auto simp: failed_entry_def Kill_calls)
  then show ?thesis using made nostop by auto
qed

theorem failed_start_leaks_container_witness:
  "let env = (env_ok ''c1'')\<lparr>start_err := Some ''no space''\<rparr>;
       m = snd (Spawn env ''bot_1'' ''pass'' empty_manager)
   in create_call ''bot_1'' \<in> set (calls m) \<and> (\<forall>c n. ContainerStop c n \<notin> set (calls (snd (Kill Removed ''bot_1'' m))))"
proof -
  let ?env = "(env_ok ''c1'')\<lparr>start_err := Some ''no space''\<rparr>"
  have "reserve ''bot_1'' ''pass'' (now ?env) empty_manager =
    Inr (empty_manager\<lparr>sandboxes := [(''bot_1'', new_entry ''bot_1'' ''pass'' 7)]\<rparr>)"
    by (simp add: spawn_eval)
  moreover have "traderIDRegex ''bot_1''" "length ''pass'' \<le> maxScriptBytes" by (simp_all add: spawn_eval)
  ultimately show ?thesis
    using failed_start_leaks_container [of ?env "''c1''" "''bot_1''" "''pass''" empty_manager]
    by (simp add: Let_def env_ok_def) (simp add: empty_manager_def)
qed

end
