(* ===== verification/Sandbox_Concurrency.thy ===== *)
theory Sandbox_Concurrency
  imports Sandbox
begin

text \<open>
  The manager under concurrency.  HTTP handlers, monitors and the shutdown path run in their own
  goroutines and the manager's mutex is released between the sections of one operation.  A state
  holds the manager, the \<^verbatim>\<open>Spawn\<close> calls in flight with the point they have reached, the stops that
  have cancelled a context but not yet marked the entry, and the live monitors.  Each rule of
  \<open>mgr_step\<close> is one section of the Go code, built from the operations of theory \<open>Sandbox\<close>.  The
  parameter \<open>may_kill\<close> says which entries an environment may stop: the code itself allows every
  entry, the disciplined environment only entries whose \<^verbatim>\<open>Spawn\<close> has returned.
\<close>

section \<open>The interleaving model\<close>

datatype flight =
    Reserved string
  | Stored
  | Created string
  | Attached string
  | Launched string

record mgr_sys =
  mg :: manager
  flights :: "(string, flight) gomap"
  stopping :: "string list"
  monitors :: "(string \<times> string) list"

definition sys_init :: mgr_sys where
  "sys_init = \<lparr>mg = empty_manager, flights = [], stopping = [], monitors = []\<rparr>"

text \<open>The first half of \<^verbatim>\<open>Kill\<close>: read the entry, cancel its context, stop its container.\<close>

definition kill_begin :: "string \<Rightarrow> manager \<Rightarrow> manager" where
  "kill_begin k m =
     (case map_of (sandboxes m) k of None \<Rightarrow> m | Some e \<Rightarrow> stop_container e (cancel_ctx k m))"

definition kill_end :: "remove_result \<Rightarrow> string \<Rightarrow> manager \<Rightarrow> manager" where
  "kill_end rm k m = cleanup rm k (mark_stopped k m)"

definition not_cancelled :: "string \<Rightarrow> manager \<Rightarrow> bool" where
  "not_cancelled k m = (case map_of (sandboxes m) k of None \<Rightarrow> False | Some e \<Rightarrow> \<not> cancelled e)"

definition set_flight :: "string \<Rightarrow> flight \<Rightarrow> manager \<Rightarrow> mgr_sys \<Rightarrow> mgr_sys" where
  "set_flight k f m s = s\<lparr>mg := m, flights := put k f (flights s)\<rparr>"

text \<open>
  The Docker calls of \<^verbatim>\<open>Spawn\<close> carry the entry's context, so a call issued after the context was
  cancelled does not succeed: the guard \<open>not_cancelled\<close> of the three rules that issue them.
\<close>

inductive mgr_step :: "(mgr_sys \<Rightarrow> string \<Rightarrow> bool) \<Rightarrow> mgr_sys \<Rightarrow> mgr_sys \<Rightarrow> bool"
  for may_kill :: "mgr_sys \<Rightarrow> string \<Rightarrow> bool" where
  spawn_reserve:
    "traderIDRegex k \<Longrightarrow> length scr \<le> maxScriptBytes \<Longrightarrow> reserve k scr t (mg s) = Inr m \<Longrightarrow>
     mgr_step may_kill s (set_flight k (Reserved scr) m s)"
| spawn_store:
    "map_of (flights s) k = Some (Reserved scr) \<Longrightarrow>
     mgr_step may_kill s (set_flight k Stored (store_script k scr (mg s)) s)"
| spawn_create:
    "map_of (flights s) k = Some Stored \<Longrightarrow> not_cancelled k (mg s) \<Longrightarrow>
     mgr_step may_kill s (set_flight k (Created cid) (call (create_call k) (mg s)) s)"
| spawn_attach:
    "map_of (flights s) k = Some (Created cid) \<Longrightarrow> not_cancelled k (mg s) \<Longrightarrow>
     mgr_step may_kill s
       (set_flight k (Attached cid) (go (GoHandleSandbox k) (call (ContainerAttach cid) (mg s))) s)"
| spawn_start:
    "map_of (flights s) k = Some (Attached cid) \<Longrightarrow> not_cancelled k (mg s) \<Longrightarrow>
     mgr_step may_kill s (set_flight k (Launched cid) (call (ContainerStart cid) (mg s)) s)"
| spawn_fail:
    "map_of (flights s) k = Some f \<Longrightarrow> (\<forall>cid. f \<noteq> Launched cid) \<Longrightarrow>
     mgr_step may_kill s (s\<lparr>mg := setError k msg (mg s), flights := del k (flights s)\<rparr>)"
| spawn_return:
    "map_of (flights s) k = Some (Launched cid) \<Longrightarrow>
     mgr_step may_kill s
       (s\<lparr>mg := go (GoMonitor k cid) (spawn_finish k cid (mg s)), flights := del k (flights s),
          monitors := (k, cid) # monitors s\<rparr>)"
| kill_cancel:
    "map_of (sandboxes (mg s)) k \<noteq> None \<Longrightarrow> may_kill s k \<Longrightarrow>
     mgr_step may_kill s (s\<lparr>mg := kill_begin k (mg s), stopping := k # stopping s\<rparr>)"
| kill_mark:
    "k \<in> set (stopping s) \<Longrightarrow>
     mgr_step may_kill s (s\<lparr>mg := kill_end rm k (mg s), stopping := remove1 k (stopping s)\<rparr>)"
| monitor_ctx_done:
    "(k, cid) \<in> set (monitors s) \<Longrightarrow> \<not> not_cancelled k (mg s) \<Longrightarrow>
     mgr_step may_kill s (s\<lparr>monitors := removeAll (k, cid) (monitors s)\<rparr>)"
| monitor_auto_kill:
    "(k, cid) \<in> set (monitors s) \<Longrightarrow>
     mgr_step may_kill s (s\<lparr>mg := kill_begin k (mg s), stopping := k # stopping s,
                           monitors := removeAll (k, cid) (monitors s)\<rparr>)"
| monitor_gone:
    "(k, cid) \<in> set (monitors s) \<Longrightarrow>
     mgr_step may_kill s (s\<lparr>mg := cancel_ctx k (mg s), stopping := k # stopping s,
                           monitors := removeAll (k, cid) (monitors s)\<rparr>)"

abbreviation any_kill :: "mgr_sys \<Rightarrow> string \<Rightarrow> bool" where
  "any_kill s k \<equiv> True"

abbreviation settled_kill :: "mgr_sys \<Rightarrow> string \<Rightarrow> bool" where
  "settled_kill s k \<equiv> map_of (flights s) k = None"

section \<open>Sections on the table of sandboxes\<close>

lemma kill_begin_sandboxes [simp]:
  "sandboxes (kill_begin k m) = adjust k (cancelled_update (\<lambda>_. True)) (sandboxes m)"
  by (auto simp: kill_begin_def adjust_absent split: option.splits)

lemma kill_end_sandboxes [simp]:
  "sandboxes (kill_end rm k m) = adjust k (info_update (\<lambda>i. i\<lparr>Status := StatusStopped\<rparr>)) (sandboxes m)"
  by (simp add: kill_end_def mark_stopped_def)

lemma set_flight_sel [simp]:
  "mg (set_flight k f m s) = m" "flights (set_flight k f m s) = put k f (flights s)"
  "stopping (set_flight k f m s) = stopping s" "monitors (set_flight k f m s) = monitors s"
  by (simp_all add: set_flight_def)

lemma Kill_is_two_sections:
  "map_of (sandboxes m) k \<noteq> None \<Longrightarrow> snd (Kill rm k m) = kill_end rm k (kill_begin k m)"
  by (auto simp: Kill_def kill_end_def kill_begin_def)

section \<open>Disciplined environments keep the cap\<close>

text \<open>Every call in flight owns a spawning entry nobody has stopped, and nobody is stopping or
  monitoring it.\<close>

definition flight_ok :: "mgr_sys \<Rightarrow> string \<Rightarrow> bool" where
  "flight_ok s k \<longleftrightarrow>
     (\<exists>e. map_of (sandboxes (mg s)) k = Some e \<and> Status (info e) = StatusSpawning) \<and>
     k \<notin> set (stopping s) \<and> (\<forall>cid. (k, cid) \<notin> set (monitors s))"

definition sys_ok :: "mgr_sys \<Rightarrow> bool" where
  "sys_ok s \<longleftrightarrow> mgr_ok (mg s) \<and>
     (\<forall>k f. map_of (flights s) k = Some f \<longrightarrow> flight_ok s k) \<and>
     (\<forall>k \<in> set (stopping s). map_of (sandboxes (mg s)) k \<noteq> None) \<and>
     (\<forall>(k, cid) \<in> set (monitors s). map_of (sandboxes (mg s)) k \<noteq> None)"

lemma mgr_ok_kill_sections [keeps]:
  "mgr_ok m \<Longrightarrow> mgr_ok (kill_begin k m)" "mgr_ok m \<Longrightarrow> mgr_ok (kill_end rm k m)" "mgr_ok m \<Longrightarrow> mgr_ok (cancel_ctx k m)"
  by (erule mgr_ok_adjust, simp, auto simp: entry_ok_def is_active_def)+

lemma flight_active:
  "sys_ok s \<Longrightarrow> map_of (flights s) k = Some f \<Longrightarrow> \<exists>e. map_of (sandboxes (mg s)) k = Some e \<and> is_active e"
  by (fastforce simp: sys_ok_def flight_ok_def is_active_def)

lemma step_mgr_ok: "mgr_step may_kill s t \<Longrightarrow> sys_ok s \<Longrightarrow> mgr_ok (mg t)"
proof (induction rule: mgr_step.cases)
  case (spawn_return s k cid)
  then obtain e where "map_of (sandboxes (mg s)) k = Some e" "is_active e" using flight_active by blast
  with spawn_return show ?case by (auto intro!: keeps spawn_finish_ok simp: sys_ok_def)
qed (auto simp: sys_ok_def intro: keeps reserve_ok)

lemmas flight_map = update_conv' delete_conv' map_of_adjust

lemma step_flights:
  assumes "mgr_step settled_kill s t" "sys_ok s" "map_of (flights t) k = Some f"
  shows "flight_ok t k"
  using assms
proof (induction rule: mgr_step.cases)
  case (spawn_reserve k' scr t' s m)
  have new: "map_of (sandboxes m) = (map_of (sandboxes (mg s)))(k' \<mapsto> new_entry k' scr t')"
    and none: "map_of (sandboxes (mg s)) k' = None"
    using reserve_lookup reserve_InrD(1) spawn_reserve by blast+
  with spawn_reserve show ?case
    by (fastforce simp: sys_ok_def flight_ok_def flight_map new_entry_def split: if_splits)
next
  case (kill_cancel s k')
  then show ?case by (fastforce simp: sys_ok_def flight_ok_def flight_map split: if_splits)
next
  case (kill_mark k' s)
  then show ?case
    by (fastforce simp: sys_ok_def flight_ok_def flight_map dest: notin_set_remove1 split: if_splits)
qed (fastforce simp: sys_ok_def flight_ok_def flight_map spawn_finish_def setError_sandboxes split: if_splits)+

lemma step_keeps_ids: "mgr_step may_kill s t \<Longrightarrow> map_of (sandboxes (mg s)) k \<noteq> None \<Longrightarrow> map_of (sandboxes (mg t)) k \<noteq> None"
proof (induction rule: mgr_step.cases)
  case (spawn_reserve k' scr t' s m)
  then show ?case using reserve_lookup by (auto split: if_splits)
qed (auto simp: map_of_adjust spawn_finish_def setError_sandboxes split: if_splits)

lemma step_sys_ok: "sys_ok s \<Longrightarrow> mgr_step settled_kill s t \<Longrightarrow> sys_ok t"
proof -
  assume s: "sys_ok s" and st: "mgr_step settled_kill s t"
  have "\<forall>k \<in> set (stopping t). map_of (sandboxes (mg s)) k \<noteq> None"
    using st s by cases (auto simp: sys_ok_def dest: notin_set_remove1 set_remove1_subset [THEN subsetD])
  moreover have "\<forall>(k, cid) \<in> set (monitors t). map_of (sandboxes (mg s)) k \<noteq> None"
    using st s by cases (auto simp: sys_ok_def flight_ok_def)
  ultimately show "sys_ok t"
    using step_mgr_ok [OF st s] step_flights [OF st s] step_keeps_ids [OF st] unfolding sys_ok_def by blast
qed

lemma sys_ok_init: "sys_ok sys_init"
  by (simp add: sys_ok_def sys_init_def)

interpretation disciplined: guarded_system "\<lambda>s. s = sys_init" "mgr_step settled_kill" sys_ok
  by unfold_locales (auto intro: step_sys_ok sys_ok_init)

section \<open>Sequential calls are runs of the interleaving model\<close>

lemma del_put_absent: "map_of m k = None \<Longrightarrow> del k (put k v m) = m"
  by (induction m) (auto split: if_splits)

lemma put_put: "put k b (put k a m) = put k b m"
  by (induction m) auto

lemma spawn_to_launched:
  assumes "traderIDRegex k" "length scr \<le> maxScriptBytes" "reserve k scr t (mg s) = Inr m1"
  shows "(mgr_step may_kill)\<^sup>*\<^sup>* s (set_flight k (Launched cid)
    (call (ContainerStart cid) (go (GoHandleSandbox k) (call (ContainerAttach cid)
      (call (create_call k) (store_script k scr m1))))) s)"
proof -
  let ?m2 = "store_script k scr m1"
  let ?m3 = "call (create_call k) ?m2"
  let ?m4 = "go (GoHandleSandbox k) (call (ContainerAttach cid) ?m3)"
  have e: "map_of (sandboxes m1) k = Some (new_entry k scr t)" using reserve_lookup [OF assms(3)] by simp
  have live: "not_cancelled k ?m2" "not_cancelled k ?m3" "not_cancelled k ?m4"
    using e by (simp_all add: not_cancelled_def new_entry_def)
  have upd: "set_flight k f' m' (set_flight k f m s) = set_flight k f' m' s" for f f' m m'
    by (simp add: set_flight_def put_put)
  have look: "map_of (flights (set_flight k f m s)) k = Some f" for f m
    by (simp add: update_conv')

  have 1: "mgr_step may_kill s (set_flight k (Reserved scr) m1 s)"
    by (rule mgr_step.spawn_reserve [OF assms])
  have 2: "mgr_step may_kill (set_flight k (Reserved scr) m1 s) (set_flight k Stored ?m2 s)"
    using mgr_step.spawn_store [OF look] by (simp add: upd)
  have 3: "mgr_step may_kill (set_flight k Stored ?m2 s) (set_flight k (Created cid) ?m3 s)"
    using mgr_step.spawn_create [OF look] live(1) by (simp add: upd)
  have 4: "mgr_step may_kill (set_flight k (Created cid) ?m3 s) (set_flight k (Attached cid) ?m4 s)"
    using mgr_step.spawn_attach [OF look] live(2) by (simp add: upd)
  have 5: "mgr_step may_kill (set_flight k (Attached cid) ?m4 s)
      (set_flight k (Launched cid) (call (ContainerStart cid) ?m4) s)"
    using mgr_step.spawn_start [OF look] live(3) by (simp add: upd)
  from 1 2 3 4 5 show ?thesis by (meson rtranclp.rtrancl_into_rtrancl rtranclp.rtrancl_refl)
qed

text \<open>A sequential \<^verbatim>\<open>Spawn\<close> that succeeds is a run of the interleaving model.\<close>

lemma Spawn_is_run:
  assumes "Spawn env k scr (mg s) = (None, m')" "map_of (flights s) k = None"
  obtains cid where "create_res env = Inr cid"
    "(mgr_step may_kill)\<^sup>*\<^sup>* s (s\<lparr>mg := m', monitors := (k, cid) # monitors s\<rparr>)"
proof -
  from assms(1) have "fst (Spawn env k scr (mg s)) = None" by simp
  then obtain m1 where m1: "reserve k scr (now env) (mg s) = Inr m1"
    "Spawn env k scr (mg s) = spawn_reserved env k scr m1" "traderIDRegex k" "length scr \<le> maxScriptBytes"
    by (rule Spawn_reservedD)
  then obtain cid where cid: "create_res env = Inr cid"
    and m': "m' = go (GoMonitor k cid) (spawn_finish k cid (call (ContainerStart cid) (go (GoHandleSandbox k)
       (call (ContainerAttach cid) (call (create_call k) (store_script k scr m1))))))"
    using assms(1)
    by (auto simp: spawn_reserved_def spawn_docker_def create_call_def Let_def split: option.splits sum.splits)
  let ?u = "set_flight k (Launched cid) (call (ContainerStart cid) (go (GoHandleSandbox k)
    (call (ContainerAttach cid) (call (create_call k) (store_script k scr m1))))) s"
  have "mgr_step may_kill ?u (?u\<lparr>mg := m', flights := del k (flights ?u), monitors := (k, cid) # monitors ?u\<rparr>)"
    unfolding m' using mgr_step.spawn_return [of ?u k cid may_kill] by (simp add: update_conv')
  moreover have "?u\<lparr>mg := m', flights := del k (flights ?u), monitors := (k, cid) # monitors ?u\<rparr> =
      s\<lparr>mg := m', monitors := (k, cid) # monitors s\<rparr>"
    using assms(2) by (simp add: set_flight_def del_put_absent)
  ultimately have "(mgr_step may_kill)\<^sup>*\<^sup>* s (s\<lparr>mg := m', monitors := (k, cid) # monitors s\<rparr>)"
    using spawn_to_launched [OF m1(3,4,1), of may_kill cid] by simp
  with cid show thesis by (rule that)
qed

lemma Spawn_success_active: "Spawn env k s m = (None, m') \<Longrightarrow> active m' = Suc (active m)"
proof -
  assume a: "Spawn env k s m = (None, m')"
  then have "fst (Spawn env k s m) = None" by simp
  then obtain m1 where m1: "reserve k s (now env) m = Inr m1" "Spawn env k s m = spawn_reserved env k s m1"
    by (rule Spawn_reservedD)
  have e: "map_of (sandboxes m1) k = Some (new_entry k s (now env))" using reserve_lookup [OF m1(1)] by simp
  obtain cid where "sandboxes m' = adjust k (info_update (\<lambda>i. i\<lparr>ContainerID := cid, Status := StatusRunning\<rparr>))
       (adjust k (scriptDir_update (\<lambda>_. script_dir k)) (sandboxes m1))"
    using spawn_reserved_success a m1(2) by metis
  then have "active m' = active m1" unfolding active_def
    by (simp add: adjust_adjust) (rule count_vals_adjust_eq, use e in \<open>auto simp: is_active_def new_entry_def\<close>)
  then show "active m' = Suc (active m)" using reserve_active [OF m1(1)] by simp
qed

lemma Spawn_env_ok_succeeds:
  assumes "traderIDRegex k" "length s \<le> maxScriptBytes" "map_of (sandboxes m) k = None" "active m < 5"
  shows "\<exists>m'. Spawn (env_ok cid) k s m = (None, m')"
  using assms
  by (simp add: Spawn_def reserve_def maxConcurrentSandboxes_def spawn_reserved_def spawn_docker_def env_ok_def Let_def)

section \<open>Properties\<close>

text \<open>A chain of sequential spawns with successful outcomes.\<close>

lemma sequential_spawns:
  assumes "(mgr_step may_kill)\<^sup>*\<^sup>* sys_init s" "flights s = []" "traderIDRegex k"
    "map_of (sandboxes (mg s)) k = None" "active (mg s) < 5"
  obtains u where "(mgr_step may_kill)\<^sup>*\<^sup>* sys_init u" "flights u = []"
    "map_of (sandboxes (mg u)) = (map_of (sandboxes (mg s)))(k \<mapsto> running_entry (env_ok cid) k ''pass'' cid)"
    "active (mg u) = Suc (active (mg s))"
    "calls (mg u) = calls (mg s) @ [create_call k, ContainerAttach cid, ContainerStart cid]"
proof -
  have len: "length ''pass'' \<le> maxScriptBytes" by (simp add: maxScriptBytes_def)
  from Spawn_env_ok_succeeds [OF assms(3) len assms(4,5), of cid]
  obtain m' where m': "Spawn (env_ok cid) k ''pass'' (mg s) = (None, m')" by blast
  have no: "map_of (flights s) k = None" using assms(2) by simp
  obtain c where c: "create_res (env_ok cid) = Inr c"
    "(mgr_step may_kill)\<^sup>*\<^sup>* s (s\<lparr>mg := m', monitors := (k, c) # monitors s\<rparr>)"
    by (rule Spawn_is_run [OF m' no])
  have st: "map_of (sandboxes m') = (map_of (sandboxes (mg s)))(k \<mapsto> running_entry (env_ok cid) k ''pass'' cid)"
    "calls m' = calls (mg s) @ [create_call k, ContainerAttach cid, ContainerStart cid]"
    by (rule Spawn_success_state [OF m'], simp add: env_ok_def)+
  show thesis
    by (rule that [of "s\<lparr>mg := m', monitors := (k, c) # monitors s\<rparr>"])
       (use assms c st Spawn_success_active [OF m'] in auto)
qed

text \<open>Property C3.  Any number of concurrent \<^verbatim>\<open>Spawn\<close> calls, monitors and kills keeps the cap of five
  active sandboxes, in every interleaving of their sections, provided a sandbox is only killed
  after its \<^verbatim>\<open>Spawn\<close> has returned: the slot is counted and reserved in one critical section.\<close>

theorem concurrent_cap:
  assumes "(mgr_step settled_kill)\<^sup>*\<^sup>* sys_init s"
  shows "active (mg s) \<le> 5 \<and> entries_ok (mg s)"
  using disciplined.reachable_good [OF refl assms] by (simp add: sys_ok_def mgr_ok_def maxConcurrentSandboxes_def)

theorem concurrent_cap_witness:
  "\<exists>s. (mgr_step settled_kill)\<^sup>*\<^sup>* sys_init s \<and> active (mg s) = 1 \<and> active (mg s) \<le> 5"
proof (rule sequential_spawns [of settled_kill sys_init "''bot_1''" "''c1''"])
  fix u :: mgr_sys
  assume "(mgr_step settled_kill)\<^sup>*\<^sup>* sys_init u" "active (mg u) = Suc (active (mg sys_init))"
  then show ?thesis using concurrent_cap [of u] by (auto simp: sys_init_def empty_manager_def active_def)
qed (simp_all add: sys_init_def spawn_eval)

text \<open>A trader id is used up for good: once it is in the table, no interleaving of spawns,
  kills and monitor events removes it, and every later \<^verbatim>\<open>Spawn\<close> of that id is refused as a
  duplicate, also after the sandbox was stopped or failed.\<close>

theorem trader_id_never_reusable:
  assumes "(mgr_step any_kill)\<^sup>*\<^sup>* s t" "map_of (sandboxes (mg s)) k \<noteq> None"
    and "traderIDRegex k" "length scr \<le> maxScriptBytes"
  shows "Spawn env k scr (mg t) = (Some ''duplicate_trader_id'', mg t)"
proof -
  from assms(1) have "map_of (sandboxes (mg t)) k \<noteq> None"
    by (induction rule: rtranclp_induct) (use assms(2) step_keeps_ids in blast)+
  then show ?thesis using assms(3,4) by (simp add: Spawn_def reserve_def)
qed

theorem trader_id_never_reusable_witness:
  "\<exists>s t. (mgr_step any_kill)\<^sup>*\<^sup>* s t \<and> active (mg t) = 0 \<and>
     Spawn (env_ok ''c2'') ''bot_1'' ''pass'' (mg t) = (Some ''duplicate_trader_id'', mg t)"
proof (rule sequential_spawns [of any_kill sys_init "''bot_1''" "''c1''"])
  fix u :: mgr_sys
  assume u: "map_of (sandboxes (mg u)) = (map_of (sandboxes (mg sys_init)))(''bot_1'' \<mapsto> running_entry (env_ok ''c1'') ''bot_1'' ''pass'' ''c1'')"
    "active (mg u) = Suc (active (mg sys_init))"
  let ?v = "u\<lparr>mg := kill_begin ''bot_1'' (mg u), stopping := ''bot_1'' # stopping u\<rparr>"
  let ?w = "?v\<lparr>mg := kill_end Removed ''bot_1'' (mg ?v), stopping := remove1 ''bot_1'' (stopping ?v)\<rparr>"
  have "mgr_step any_kill u ?v" by (rule mgr_step.kill_cancel) (simp_all add: u)
  moreover have "mgr_step any_kill ?v ?w" by (rule mgr_step.kill_mark) simp
  ultimately have r: "(mgr_step any_kill)\<^sup>*\<^sup>* u ?w" by (meson converse_rtranclp_into_rtranclp r_into_rtranclp)
  have "active (mg ?w) + 1 = active (mg u)"
    using count_vals_adjust [of "sandboxes (mg u)" "''bot_1''" _ is_active
      "info_update (\<lambda>i. i\<lparr>Status := StatusStopped\<rparr>) \<circ> cancelled_update (\<lambda>_. True)"] u
    by (simp add: active_def adjust_adjust running_entry_def is_active_def)
  then have "active (mg ?w) = 0" using u(2) by (simp add: sys_init_def empty_manager_def active_def)
  moreover have "Spawn (env_ok ''c2'') ''bot_1'' ''pass'' (mg ?w) = (Some ''duplicate_trader_id'', mg ?w)"
    by (rule trader_id_never_reusable [OF r]) (simp_all add: u spawn_eval)
  ultimately show ?thesis using r by blast
qed (simp_all add: sys_init_def spawn_eval)

section \<open>Killing a sandbox that is still being spawned\<close>

definition orphan :: "string \<Rightarrow> string \<Rightarrow> manager \<Rightarrow> bool" where
  "orphan k cid m \<longleftrightarrow>
     (\<exists>e. map_of (sandboxes m) k = Some e \<and> Status (info e) = StatusRunning \<and> cancelled e \<and> ContainerID (info e) = cid) \<and>
     ContainerStart cid \<in> set (calls m) \<and> (\<forall>n. ContainerStop cid n \<notin> set (calls m))"

definition no_stops :: "manager \<Rightarrow> bool" where
  "no_stops m \<longleftrightarrow> (\<forall>c n. ContainerStop c n \<notin> set (calls m))"

lemma launch_then_kill:
  assumes "traderIDRegex k" "length scr \<le> maxScriptBytes" "reserve k scr t (mg s) = Inr m1" "flights s = []"
  obtains w where "(mgr_step any_kill)\<^sup>*\<^sup>* s w" "flights w = [(k, Launched cid)]"
    "active (mg w) = active (mg s)" "dom (map_of (sandboxes (mg w))) = insert k (dom (map_of (sandboxes (mg s))))"
    "calls (mg w) = calls (mg s) @ [create_call k, ContainerAttach cid, ContainerStart cid]"
    "\<exists>e. map_of (sandboxes (mg w)) k = Some e \<and> cancelled e \<and> \<not> is_active e"
proof -
  let ?M = "call (ContainerStart cid) (go (GoHandleSandbox k) (call (ContainerAttach cid)
      (call (create_call k) (store_script k scr m1))))"
  define u where "u = set_flight k (Launched cid) ?M s"
  define v where "v = u\<lparr>mg := kill_begin k (mg u), stopping := k # stopping u\<rparr>"
  define w where "w = v\<lparr>mg := kill_end rm k (mg v), stopping := remove1 k (stopping v)\<rparr>"
  note defs = w_def v_def u_def
  note r = reserve_InrD [OF assms(3)] reserve_lookup [OF assms(3)]
  have e: "map_of (sandboxes m1) k = Some (new_entry k scr t)" by (simp add: r(7))
  have "(mgr_step any_kill)\<^sup>*\<^sup>* s u" unfolding u_def by (rule spawn_to_launched [OF assms(1-3)])
  moreover have "mgr_step any_kill u v" unfolding v_def
    by (rule mgr_step.kill_cancel) (simp_all add: u_def e)
  moreover have "mgr_step any_kill v w" unfolding w_def by (rule mgr_step.kill_mark) (simp add: v_def)
  ultimately have run: "(mgr_step any_kill)\<^sup>*\<^sup>* s w" by (meson rtranclp.rtrancl_into_rtrancl)
  have "active (mg w) + 1 = active m1"
    using count_vals_adjust [OF e, of is_active "info_update (\<lambda>i. i\<lparr>Status := StatusStopped\<rparr>) \<circ>
      (cancelled_update (\<lambda>_. True) \<circ> scriptDir_update (\<lambda>_. script_dir k))"]
    by (simp add: active_def defs adjust_adjust) (simp add: new_entry_def is_active_def)
  then have act: "active (mg w) = active (mg s)" using reserve_active [OF assms(3)] by simp
  have cl: "calls (mg w) = calls (mg s) @ [create_call k, ContainerAttach cid, ContainerStart cid]"
    using e r by (simp add: defs kill_end_def kill_begin_def mark_stopped_def stop_container_def new_entry_def)
  have en: "\<exists>e. map_of (sandboxes (mg w)) k = Some e \<and> cancelled e \<and> \<not> is_active e"
    using e by (simp add: defs is_active_def)
  have "dom (map_of (sandboxes (mg w))) = insert k (dom (map_of (sandboxes (mg s))))"
    using e r(7) by (auto simp: defs map_of_adjust dom_def)
  moreover have "flights w = [(k, Launched cid)]" using assms(4) by (simp add: defs)
  ultimately show thesis using that [OF run] act cl en by blast
qed

lemma fill_slots:
  assumes "distinct ks" "\<forall>k \<in> set ks. traderIDRegex k" "length ks \<le> 5"
  shows "\<exists>s. (mgr_step may_kill)\<^sup>*\<^sup>* sys_init s \<and> flights s = [] \<and> active (mg s) = length ks \<and>
    dom (map_of (sandboxes (mg s))) = set ks \<and> no_stops (mg s)"
  using assms
proof (induction ks)
  case Nil
  have "flights sys_init = [] \<and> active (mg sys_init) = 0 \<and> dom (map_of (sandboxes (mg sys_init))) = {} \<and> no_stops (mg sys_init)"
    by (simp add: sys_init_def empty_manager_def active_def no_stops_def)
  then show ?case by (intro exI [of _ sys_init]) simp
next
  case (Cons k ks)
  then obtain s where s: "(mgr_step may_kill)\<^sup>*\<^sup>* sys_init s" "flights s = []" "active (mg s) = length ks"
    "dom (map_of (sandboxes (mg s))) = set ks" "no_stops (mg s)" by auto
  have "map_of (sandboxes (mg s)) k = None" using s(4) Cons.prems(1) by (auto simp: domIff [symmetric])
  then obtain u where "(mgr_step may_kill)\<^sup>*\<^sup>* sys_init u" "flights u = []"
    "map_of (sandboxes (mg u)) = (map_of (sandboxes (mg s)))(k \<mapsto> running_entry (env_ok k) k ''pass'' k)"
    "active (mg u) = Suc (active (mg s))"
    "calls (mg u) = calls (mg s) @ [create_call k, ContainerAttach k, ContainerStart k]"
    using sequential_spawns [OF s(1,2), of k k] Cons.prems s(3) by auto
  note u = this
  have "dom (map_of (sandboxes (mg u))) = set (k # ks)" by (simp add: u(3) s(4))
  moreover have "no_stops (mg u)" using s(5) u(5) by (simp add: no_stops_def create_call_def)
  ultimately show ?case using u(1,2,4) s(3) by auto
qed

lemma return_after_kill:
  assumes "map_of (flights s) k = Some (Launched cid)" "map_of (sandboxes (mg s)) k = Some e" "\<not> is_active e"
    "cancelled e" "ContainerStart cid \<in> set (calls (mg s))" "no_stops (mg s)"
  obtains t where "mgr_step may_kill s t" "active (mg t) = Suc (active (mg s))" "orphan k cid (mg t)"
proof -
  let ?t = "s\<lparr>mg := go (GoMonitor k cid) (spawn_finish k cid (mg s)), flights := del k (flights s),
          monitors := (k, cid) # monitors s\<rparr>"
  have "active (mg ?t) = Suc (active (mg s))"
    using count_vals_adjust [OF assms(2), of is_active "info_update (\<lambda>i. i\<lparr>ContainerID := cid, Status := StatusRunning\<rparr>)"] assms(3)
    by (simp add: active_def spawn_finish_def) (simp add: is_active_def)
  moreover have "orphan k cid (mg ?t)"
    using assms by (simp add: orphan_def spawn_finish_def no_stops_def)
  ultimately show thesis using that mgr_step.spawn_return [OF assms(1)] by blast
qed

text \<open>Property C31.  Killing a sandbox in the window between the start of its container and the last
  critical section of its \<^verbatim>\<open>Spawn\<close> breaks the cap and orphans the container: there is an
  interleaving after which six sandboxes count as active, one of them recorded as running with a
  cancelled context (so its monitor exits) and a container that was started and that nobody ever
  asked Docker to stop.\<close>

theorem kill_during_spawn_race:
  "\<exists>s. (mgr_step any_kill)\<^sup>*\<^sup>* sys_init s \<and> active (mg s) = 6 \<and> orphan ''bot_5'' ''c5'' (mg s)"
proof -
  have len: "length ''pass'' \<le> maxScriptBytes" by (simp add: maxScriptBytes_def)
  have ids: "\<forall>k \<in> {''bot_1'', ''bot_2'', ''bot_3'', ''bot_4'', ''bot_5'', ''bot_6''}. traderIDRegex k"
    by (simp add: spawn_eval)
  let ?ks = "[''bot_1'', ''bot_2'', ''bot_3'', ''bot_4'']"
  have "\<exists>s. (mgr_step any_kill)\<^sup>*\<^sup>* sys_init s \<and> flights s = [] \<and> active (mg s) = length ?ks \<and>
    dom (map_of (sandboxes (mg s))) = set ?ks \<and> no_stops (mg s)"
    by (rule fill_slots) (use ids in simp_all)
  then obtain s where s: "(mgr_step any_kill)\<^sup>*\<^sup>* sys_init s" "flights s = []" "active (mg s) = length ?ks"
    "dom (map_of (sandboxes (mg s))) = set ?ks" "no_stops (mg s)" by blast
  have "''bot_5'' \<notin> dom (map_of (sandboxes (mg s)))" unfolding s(4) by simp
  then obtain m5 where m5: "reserve ''bot_5'' ''pass'' 7 (mg s) = Inr m5"
    using s(3) by (simp add: reserve_def maxConcurrentSandboxes_def domIff)
  have id5: "traderIDRegex ''bot_5''" using ids by simp
  obtain w where w: "(mgr_step any_kill)\<^sup>*\<^sup>* s w" "flights w = [(''bot_5'', Launched ''c5'')]" "active (mg w) = active (mg s)"
    "dom (map_of (sandboxes (mg w))) = insert ''bot_5'' (dom (map_of (sandboxes (mg s))))"
    "calls (mg w) = calls (mg s) @ [create_call ''bot_5'', ContainerAttach ''c5'', ContainerStart ''c5'']"
    "\<exists>e. map_of (sandboxes (mg w)) ''bot_5'' = Some e \<and> cancelled e \<and> \<not> is_active e"
    by (rule launch_then_kill [OF id5 len m5 s(2)])
  have "''bot_6'' \<notin> dom (map_of (sandboxes (mg w)))" unfolding w(4) s(4) by simp
  then obtain m6 where m6: "Spawn (env_ok ''c6'') ''bot_6'' ''pass'' (mg w) = (None, m6)"
    using Spawn_env_ok_succeeds [of "''bot_6''" "''pass''" "mg w" "''c6''"] ids len w(3) s(3)
    by (simp add: domIff) blast
  obtain c where c: "(mgr_step any_kill)\<^sup>*\<^sup>* w (w\<lparr>mg := m6, monitors := (''bot_6'', c) # monitors w\<rparr>)"
    by (rule Spawn_is_run [OF m6]) (use w(2) in simp_all)
  define x where "x = w\<lparr>mg := m6, monitors := (''bot_6'', c) # monitors w\<rparr>"
  have x: "mg x = m6" "flights x = flights w" by (simp_all add: x_def)
  have m6s: "map_of (sandboxes m6) ''bot_5'' = map_of (sandboxes (mg w)) ''bot_5''"
    "calls m6 = calls (mg w) @ [create_call ''bot_6'', ContainerAttach ''c6'', ContainerStart ''c6'']"
    by (rule Spawn_success_state [OF m6], simp add: env_ok_def)+
  obtain e where e: "map_of (sandboxes (mg x)) ''bot_5'' = Some e" "\<not> is_active e" "cancelled e"
    using w(6) m6s(1) x(1) by auto
  have "no_stops (mg x)" "ContainerStart ''c5'' \<in> set (calls (mg x))" "map_of (flights x) ''bot_5'' = Some (Launched ''c5'')"
    using s(5) w(2,5) by (auto simp: x m6s(2) no_stops_def create_call_def)
  then obtain t where "mgr_step any_kill x t" "active (mg t) = Suc (active (mg x))" "orphan ''bot_5'' ''c5'' (mg t)"
    using return_after_kill [of x "''bot_5''" "''c5''" e any_kill] e by blast
  moreover have "(mgr_step any_kill)\<^sup>*\<^sup>* sys_init x" using s(1) w(1) c by (simp add: x_def)
  moreover have "active (mg x) = 5" using Spawn_success_active [OF m6] w(3) s(3) x(1) by simp
  ultimately show ?thesis by (intro exI [of _ t]) (auto intro: rtranclp.rtrancl_into_rtrancl)
qed

end
