(* ===== verification/Store.thy ===== *)
theory Store
  imports Json "HOL-Library.Product_Lexorder" "HOL-Library.Multiset"
begin

text \<open>
  The tick store (\<^verbatim>\<open>server/db/store.go\<close>).  The SQL statements of the source are translated to operations
  on the table they act on: a list of rows in insertion order and the highest id
  \<^verbatim>\<open>AUTOINCREMENT\<close> has handed out.  Errors of the database are arguments.  \<open>StoreTick\<close> starts the
  trimming goroutine, so trims that have not run yet are counted and the step relation
  \<open>store_step\<close> runs them at any later time.  The abstract specification is the log of all ticks ever
  accepted: \<open>History\<close> answers as if nothing had been deleted.
\<close>

section \<open>The table\<close>

record tick_record =
  row_id :: int
  row_ts :: int
  row_price :: float64
  row_bid :: float64
  row_ask :: float64
  row_spread :: float64
  row_raw :: bytes

record store =
  rows :: "tick_record list"
  last_id :: int

definition schema :: store where
  "schema = \<lparr>rows = [], last_id = 0\<rparr>"

text \<open>What opening the database file finds: errors, or the table a previous run left (\<^verbatim>\<open>CREATE TABLE
  IF NOT EXISTS\<close> keeps it).  \<open>quote\<close> is the formatting verb \<^verbatim>\<open>%q\<close>.\<close>

record open_env =
  sql_open_err :: "go_error option"
  wal_err :: "go_error option"
  schema_err :: "go_error option"
  on_disk :: "store option"

definition NewStore :: "(bytes \<Rightarrow> bytes) \<Rightarrow> open_env \<Rightarrow> bytes \<Rightarrow> go_error + store" where
  "NewStore quote env path =
     (case sql_open_err env of
        Some e \<Rightarrow> Inl (''open '' @ quote path @ '': '' @ e)
      | None \<Rightarrow>
     (case wal_err env of
        Some e \<Rightarrow> Inl (''WAL mode: '' @ e)
      | None \<Rightarrow>
     (case schema_err env of
        Some e \<Rightarrow> Inl (''schema init: '' @ e)
      | None \<Rightarrow> Inr (case on_disk env of None \<Rightarrow> schema | Some d \<Rightarrow> d))))"

section \<open>Storing\<close>

record tickRow =
  tr_Type :: bytes
  tr_Ts :: int
  tr_Price :: float64
  tr_Bid :: float64
  tr_Ask :: float64
  tr_Spread :: float64

definition zero_tick :: tickRow where
  "zero_tick = \<lparr>tr_Type = [], tr_Ts = 0, tr_Price = f64_zero, tr_Bid = f64_zero, tr_Ask = f64_zero, tr_Spread = f64_zero\<rparr>"

definition tick_fields :: "tickRow field list" where
  "tick_fields =
     [str_field ''type'' (\<lambda>v. tr_Type_update (\<lambda>_. v)),
      int_field ''ts'' (\<lambda>v. tr_Ts_update (\<lambda>_. v)),
      float_field ''price'' (\<lambda>v. tr_Price_update (\<lambda>_. v)),
      float_field ''bid'' (\<lambda>v. tr_Bid_update (\<lambda>_. v)),
      float_field ''ask'' (\<lambda>v. tr_Ask_update (\<lambda>_. v)),
      float_field ''spread'' (\<lambda>v. tr_Spread_update (\<lambda>_. v))]"

text \<open>\<^verbatim>\<open>INSERT INTO ticks\<close>: the new row gets an id above every id ever used.\<close>

definition insert_tick :: "tickRow \<Rightarrow> bytes \<Rightarrow> store \<Rightarrow> store" where
  "insert_tick t raw d =
     \<lparr>rows = rows d @ [\<lparr>row_id = last_id d + 1, row_ts = tr_Ts t, row_price = tr_Price t, row_bid = tr_Bid t,
                        row_ask = tr_Ask t, row_spread = tr_Spread t, row_raw = raw\<rparr>],
      last_id = last_id d + 1\<rparr>"

text \<open>The flag of the result says that a trimming goroutine was started; \<open>json_err\<close> is the text of the
  decoding error, \<open>exec_err\<close> the error of the insertion.\<close>

definition StoreTick :: "go_error \<Rightarrow> go_error option \<Rightarrow> bytes \<Rightarrow> store \<Rightarrow> go_error option \<times> bool \<times> store" where
  "StoreTick json_err exec_err raw d =
     (case unmarshal tick_fields raw zero_tick of
        (err, t) \<Rightarrow>
          if err then (Some (''parse tick: '' @ json_err), False, d)
          else if tr_Type t \<noteq> ''tick'' then (None, False, d)
          else (case exec_err of
                  Some e \<Rightarrow> (Some (''insert tick: '' @ e), False, d)
                | None \<Rightarrow> (None, True, insert_tick t raw d)))"

section \<open>Queries\<close>

text \<open>\<^verbatim>\<open>LIMIT n\<close>; a negative limit is no limit in SQLite.\<close>

definition sql_limit :: "int \<Rightarrow> 'a list \<Rightarrow> 'a list" where
  "sql_limit n xs = (if n < 0 then xs else take (nat n) xs)"

text \<open>\<^verbatim>\<open>SELECT ... FROM ticks ORDER BY id DESC LIMIT n\<close>\<close>

definition newest :: "int \<Rightarrow> store \<Rightarrow> tick_record list" where
  "newest n d = sql_limit n (sort_key (\<lambda>r. - row_id r) (rows d))"

definition maxTicks :: int where "maxTicks = 10000"

text \<open>\<^verbatim>\<open>DELETE FROM ticks WHERE id NOT IN (...)\<close>; its error is ignored.\<close>

definition trimOldTicks :: "store \<Rightarrow> store" where
  "trimOldTicks d = d\<lparr>rows := filter (\<lambda>r. row_id r \<in> set (map row_id (newest maxTicks d))) (rows d)\<rparr>"

text \<open>What goes wrong while a query runs: the query itself, the conversion of a row, or the iteration
  after some rows.\<close>

record query_env =
  query_err :: "go_error option"
  scan_err :: "nat \<Rightarrow> go_error option"
  rows_err :: "(nat \<times> go_error) option"

fun scan_rows :: "(nat \<Rightarrow> go_error option) \<Rightarrow> nat \<Rightarrow> bytes list \<Rightarrow> bytes list \<Rightarrow> go_error + bytes list" where
  "scan_rows serr i [] result = Inr result"
| "scan_rows serr i (raw # raws) result =
     (case serr i of
        Some e \<Rightarrow> Inl (''scan: '' @ e)
      | None \<Rightarrow> scan_rows serr (Suc i) raws (result @ [raw]))"

definition history_query :: "int \<Rightarrow> store \<Rightarrow> bytes list" where
  "history_query n d = map row_raw (sort_key (\<lambda>r. (row_ts r, row_id r)) (newest n d))"

definition History :: "query_env \<Rightarrow> int \<Rightarrow> store \<Rightarrow> bytes list \<times> go_error option" where
  "History env n d =
     (case query_err env of
        Some e \<Rightarrow> ([], Some (''history query: '' @ e))
      | None \<Rightarrow>
          let found = history_query n d;
              seen = (case rows_err env of None \<Rightarrow> found | Some (k, _) \<Rightarrow> take k found)
          in (case scan_rows (scan_err env) 0 seen [] of
                Inl e \<Rightarrow> ([], Some e)
              | Inr result \<Rightarrow> (result, map_option snd (rows_err env))))"

section \<open>Interleaving with the trimming goroutines\<close>

text \<open>The log of all rows ever inserted and the trims still to run.\<close>

record store_sys =
  db :: store
  tick_log :: "tick_record list"
  trims :: nat

text \<open>The log of a process starts with the table that \<open>NewStore\<close> opened.\<close>

definition store_init :: "store \<Rightarrow> store_sys" where
  "store_init d = \<lparr>db = d, tick_log = rows d, trims = 0\<rparr>"

inductive store_step :: "store_sys \<Rightarrow> store_sys \<Rightarrow> bool" where
  store_tick:
    "StoreTick jerr eerr raw (db s) = (res, started, d) \<Longrightarrow>
     store_step s (s\<lparr>db := d, tick_log := (if started then tick_log s @ [last (rows d)] else tick_log s),
                     trims := trims s + (if started then 1 else 0)\<rparr>)"
| trim: "0 < trims s \<Longrightarrow> store_step s (s\<lparr>db := trimOldTicks (db s), trims := trims s - 1\<rparr>)"
| trim_fails: "0 < trims s \<Longrightarrow> store_step s (s\<lparr>trims := trims s - 1\<rparr>)"

section \<open>The contract of a history\<close>

text \<open>A service that answers queries for the newest entries of a log up to a guaranteed depth.\<close>

locale history_service =
  fixes reachable :: "'s \<Rightarrow> bool"
    and entries :: "'s \<Rightarrow> 'a list"
    and query :: "int \<Rightarrow> 's \<Rightarrow> 'b list"
    and answer :: "'a list \<Rightarrow> 'b list"
    and depth :: int
  assumes query_newest: "reachable s \<Longrightarrow> 0 \<le> n \<Longrightarrow> n \<le> depth \<Longrightarrow>
      query n s = answer (drop (length (entries s) - nat n) (entries s))"
    and answer_length: "length (answer xs) = length xs"
begin

lemma query_length: "reachable s \<Longrightarrow> 0 \<le> n \<Longrightarrow> n \<le> depth \<Longrightarrow> length (query n s) = min (nat n) (length (entries s))"
  by (simp add: query_newest answer_length)

text \<open>What the service does to its storage cannot be seen, as long as the log is the same.\<close>

lemma query_only_entries:
  "reachable s \<Longrightarrow> reachable t \<Longrightarrow> entries s = entries t \<Longrightarrow> 0 \<le> n \<Longrightarrow> n \<le> depth \<Longrightarrow> query n s = query n t"
  by (simp add: query_newest)

end

section \<open>Tables sorted by id\<close>

abbreviation by_id :: "tick_record list \<Rightarrow> bool" where
  "by_id rs \<equiv> sorted_wrt (<) (map row_id rs)"

lemma by_id_distinct: "by_id rs \<Longrightarrow> distinct (map row_id rs)"
  by (simp add: strict_sorted_iff)

lemma by_id_drop: "by_id rs \<Longrightarrow> by_id (drop k rs)"
  by (simp add: drop_map [symmetric] sorted_wrt_drop)

lemma sort_newest_first: "by_id rs \<Longrightarrow> sort_key (\<lambda>r. - row_id r) rs = rev rs"
proof -
  assume s: "by_id rs"
  then have "inj_on (\<lambda>r. - row_id r) (set rs)"
    using by_id_distinct [OF s] by (auto simp: distinct_map inj_on_def)
  moreover have "sorted (map (\<lambda>r. - row_id r) (rev rs))"
    using s by (induction rs) (auto simp: sorted_append)
  ultimately show ?thesis by (intro sort_key_inj_key_eq) simp_all
qed

lemma newest_by_id: "by_id (rows d) \<Longrightarrow> 0 \<le> n \<Longrightarrow> newest n d = rev (drop (length (rows d) - nat n) (rows d))"
  by (simp add: newest_def sql_limit_def sort_newest_first take_rev)

lemma trim_by_id:
  assumes "by_id (rows d)"
  shows "trimOldTicks d = d\<lparr>rows := drop (length (rows d) - 10000) (rows d)\<rparr>"
proof -
  let ?k = "length (rows d) - 10000" and ?R = "rows d"
  have n: "newest maxTicks d = rev (drop ?k ?R)" using newest_by_id [OF assms, of maxTicks] by (simp add: maxTicks_def)
  have "distinct (map row_id (take ?k ?R @ drop ?k ?R))" using by_id_distinct [OF assms] by simp
  then have "set (map row_id (take ?k ?R)) \<inter> set (map row_id (drop ?k ?R)) = {}"
    unfolding map_append distinct_append by blast
  then have "filter (\<lambda>r. row_id r \<in> row_id ` set (drop ?k ?R)) (take ?k ?R @ drop ?k ?R) = drop ?k ?R"
    unfolding filter_append by (auto simp: filter_empty_conv filter_id_conv)
  then show ?thesis by (simp add: trimOldTicks_def n)
qed

lemma history_by_id:
  assumes "by_id (rows d)" "0 \<le> n"
  shows "history_query n d = map row_raw (sort_key (\<lambda>r. (row_ts r, row_id r)) (drop (length (rows d) - nat n) (rows d)))"
proof -
  let ?xs = "drop (length (rows d) - nat n) (rows d)"
  have "inj_on (\<lambda>r. (row_ts r, row_id r)) (set (rev ?xs))"
    using by_id_distinct [OF by_id_drop [OF assms(1)]] by (auto simp: distinct_map inj_on_def)
  then have "sort_key (\<lambda>r. (row_ts r, row_id r)) (rev ?xs) = sort_key (\<lambda>r. (row_ts r, row_id r)) ?xs"
    by (intro sort_key_inj_key_eq) simp_all
  then show ?thesis using assms by (simp add: history_query_def newest_by_id)
qed

section \<open>The table is the end of the log\<close>

text \<open>A row whose columns are what its raw bytes decode to.\<close>

definition row_decodes :: "tick_record \<Rightarrow> bool" where
  "row_decodes r \<longleftrightarrow> unmarshal tick_fields (row_raw r) zero_tick =
     (False, \<lparr>tr_Type = ''tick'', tr_Ts = row_ts r, tr_Price = row_price r, tr_Bid = row_bid r,
        tr_Ask = row_ask r, tr_Spread = row_spread r\<rparr>)"

text \<open>A table as the store itself leaves it.\<close>

definition table_ok :: "store \<Rightarrow> bool" where
  "table_ok d \<longleftrightarrow> by_id (rows d) \<and> (\<forall>r \<in> set (rows d). row_id r \<le> last_id d \<and> row_decodes r)"

text \<open>States of a process that opened such a table.\<close>

definition store_reachable :: "store_sys \<Rightarrow> bool" where
  "store_reachable s \<longleftrightarrow> (\<exists>d. table_ok d \<and> store_step\<^sup>*\<^sup>* (store_init d) s)"

definition store_ok :: "store_sys \<Rightarrow> bool" where
  "store_ok s \<longleftrightarrow> by_id (tick_log s) \<and> (\<forall>r \<in> set (tick_log s). row_id r \<le> last_id (db s) \<and> row_decodes r) \<and>
     (\<exists>k. rows (db s) = drop k (tick_log s) \<and> (k = 0 \<or> 10000 \<le> length (tick_log s) - k))"

lemma StoreTick_cases:
  assumes "StoreTick jerr eerr raw d = (res, started, d')"
  obtains "\<not> started" "d' = d"
  | t where "started" "res = None" "unmarshal tick_fields raw zero_tick = (False, t)" "tr_Type t = ''tick''" "d' = insert_tick t raw d"
  using assms by (auto simp: StoreTick_def split: prod.splits if_splits option.splits)

lemma store_ok_init: "table_ok d \<Longrightarrow> store_ok (store_init d)"
  by (auto simp: store_ok_def store_init_def table_ok_def intro: exI [of _ 0])

lemma store_ok_by_id: "store_ok s \<Longrightarrow> by_id (rows (db s))"
  by (auto simp: store_ok_def intro: by_id_drop)

lemma insert_tick_decodes:
  "unmarshal tick_fields raw zero_tick = (False, t) \<Longrightarrow> tr_Type t = ''tick'' \<Longrightarrow> row_decodes (last (rows (insert_tick t raw d)))"
  by (simp add: row_decodes_def insert_tick_def)

lemma store_ok_insert:
  assumes "store_ok s" "unmarshal tick_fields raw zero_tick = (False, t)" "tr_Type t = ''tick''"
  shows "store_ok (s\<lparr>db := insert_tick t raw (db s), tick_log := tick_log s @ [last (rows (insert_tick t raw (db s)))], trims := n\<rparr>)"
proof -
  from assms(1) obtain k where k: "rows (db s) = drop k (tick_log s)" "k = 0 \<or> 10000 \<le> length (tick_log s) - k"
    by (auto simp: store_ok_def)
  have "by_id (tick_log s)" "\<forall>r \<in> set (tick_log s). row_id r \<le> last_id (db s) \<and> row_decodes r"
    using assms(1) by (auto simp: store_ok_def)
  moreover have "k = 0 \<or> k \<le> length (tick_log s)" using k(2) by auto
  ultimately show ?thesis
    using k insert_tick_decodes [OF assms(2,3), of "db s"]
    by (auto simp: store_ok_def insert_tick_def sorted_wrt_append intro!: exI [of _ k])
qed

lemma store_ok_trim:
  assumes "store_ok s"
  shows "store_ok (s\<lparr>db := trimOldTicks (db s), trims := n\<rparr>)"
proof -
  from assms obtain k where k: "rows (db s) = drop k (tick_log s)" "k = 0 \<or> 10000 \<le> length (tick_log s) - k"
    by (auto simp: store_ok_def)
  let ?j = "length (rows (db s)) - 10000 + k"
  have "rows (trimOldTicks (db s)) = drop ?j (tick_log s)" "last_id (trimOldTicks (db s)) = last_id (db s)"
    by (simp_all add: trim_by_id [OF store_ok_by_id [OF assms]] k(1))
  moreover have "?j = 0 \<or> 10000 \<le> length (tick_log s) - ?j" using k by auto
  ultimately show ?thesis using assms by (auto simp: store_ok_def)
qed

lemma store_ok_step: "store_ok s \<Longrightarrow> store_step s t \<Longrightarrow> store_ok t"
proof (erule store_step.cases, goal_cases)
  case (1 jerr eerr raw s' res started d)
  from 1(4) show ?case
    by (rule StoreTick_cases) (use 1 store_ok_insert [of s' raw] in \<open>simp_all\<close>)
next
  case (2 s')
  then show ?case using store_ok_trim by simp
next
  case (3 s')
  then show ?case by (simp add: store_ok_def)
qed

interpretation tick_store: guarded_system "\<lambda>s. \<exists>d. table_ok d \<and> s = store_init d" store_step store_ok
  by unfold_locales (auto intro: store_ok_step store_ok_init)

lemma store_reachable_ok: "store_reachable s \<Longrightarrow> store_ok s"
  unfolding store_reachable_def by (blast intro: tick_store.reachable_good)

lemma store_reachable_step: "store_reachable s \<Longrightarrow> store_step s t \<Longrightarrow> store_reachable t"
  unfolding store_reachable_def by (blast intro: rtranclp.rtrancl_into_rtrancl)

definition oldest_first :: "tick_record list \<Rightarrow> bytes list" where
  "oldest_first rs = map row_raw (sort_key (\<lambda>r. (row_ts r, row_id r)) rs)"

lemma history_newest:
  assumes "store_ok s" "0 \<le> n" "n \<le> 10000"
  shows "history_query n (db s) = oldest_first (drop (length (tick_log s) - nat n) (tick_log s))"
proof -
  from assms(1) obtain k where k: "rows (db s) = drop k (tick_log s)" "k = 0 \<or> 10000 \<le> length (tick_log s) - k"
    by (auto simp: store_ok_def)
  have "length (rows (db s)) - nat n + k = length (tick_log s) - nat n" using k assms(2,3) by auto
  then show ?thesis
    using history_by_id [OF store_ok_by_id [OF assms(1)] assms(2)] by (simp add: k(1) oldest_first_def)
qed

interpretation ticks: history_service store_reachable tick_log "\<lambda>n s. history_query n (db s)" oldest_first maxTicks
proof
  fix s n assume "store_reachable s" "0 \<le> n" "n \<le> maxTicks"
  then show "history_query n (db s) = oldest_first (drop (length (tick_log s) - nat n) (tick_log s))"
    using history_newest store_reachable_ok by (simp add: maxTicks_def)
qed (simp add: oldest_first_def)

section \<open>Correctness of the store\<close>

lemma scan_rows_ok: "(\<And>i. serr i = None) \<Longrightarrow> scan_rows serr i raws result = Inr (result @ raws)"
  by (induction raws arbitrary: i result) auto

definition no_errors :: query_env where
  "no_errors = \<lparr>query_err = None, scan_err = (\<lambda>_. None), rows_err = None\<rparr>"

lemma History_no_errors: "History no_errors n d = (history_query n d, None)"
  by (simp add: History_def no_errors_def scan_rows_ok)

text \<open>Property C5. The store refines a log that never forgets: for a process that opened a new table or one
  that an earlier run left, and in every interleaving of insertions with
  the trimming goroutines (which may run late, in any number, or fail), \<^verbatim>\<open>History\<close> with a limit of at most
  ten thousand returns exactly the newest ticks of the log of all ticks found and accepted, ordered by
  time stamp and, for equal time stamps, by arrival.  So deleting old rows can never be observed.\<close>

theorem history_refines_log:
  assumes "store_reachable s" "0 \<le> n" "n \<le> 10000"
  shows "History no_errors n (db s) =
    (map row_raw (sort_key (\<lambda>r. (row_ts r, row_id r)) (drop (length (tick_log s) - nat n) (tick_log s))), None)"
  using ticks.query_newest [OF assms(1,2)] assms(3)
  by (simp add: History_no_errors maxTicks_def oldest_first_def)

text \<open>Property C37. The table stays well-formed and bounded: at every moment ids are unique and increasing, no id
  handed out is ever reused, and the columns of each row are what its raw bytes decode to, so the file is fit to be opened by
  the next run; and whenever a trim succeeds, however many insertions and failed trims came before it,
  the table holds exactly the newest ten thousand rows of the log (all of them if there are fewer).\<close>

theorem trim_bounds_table:
  assumes "store_reachable s"
  shows "table_ok (db s) \<and> length (rows (trimOldTicks (db s))) = min 10000 (length (tick_log s)) \<and>
    rows (trimOldTicks (db s)) = drop (length (tick_log s) - 10000) (tick_log s)"
proof -
  have ok: "store_ok s" using assms by (rule store_reachable_ok)
  then obtain k where k: "rows (db s) = drop k (tick_log s)" "k = 0 \<or> 10000 \<le> length (tick_log s) - k"
    by (auto simp: store_ok_def)
  have "set (rows (db s)) \<subseteq> set (tick_log s)" by (simp add: k(1) set_drop_subset)
  then have "table_ok (db s)" using ok store_ok_by_id [OF ok] unfolding table_ok_def store_ok_def by blast
  have "length (tick_log s) - k - 10000 + k = length (tick_log s) - 10000" using k(2) by auto
  then have "rows (trimOldTicks (db s)) = drop (length (tick_log s) - 10000) (tick_log s)"
    by (simp add: trim_by_id [OF store_ok_by_id [OF ok]] k(1))
  with \<open>table_ok (db s)\<close> show ?thesis by simp
qed

text \<open>Ticks that arrive in the order of their time stamps come back in the order they arrived.\<close>

lemma history_in_arrival_order:
  assumes "by_id rs" "sorted (map row_ts rs)"
  shows "oldest_first rs = map row_raw rs"
proof -
  have "sorted (map (\<lambda>r. (row_ts r, row_id r)) rs)"
    using assms by (induction rs) (auto simp: less_eq_prod_def less_imp_le)
  then have "sort_key (\<lambda>r. (row_ts r, row_id r)) rs = rs" by (rule sort_key_id_if_sorted)
  then show ?thesis by (simp add: oldest_first_def)
qed

lemma sort_key_snoc_max:
  assumes "inj_on f (set (xs @ [r]))" "\<forall>x \<in> set xs. f x \<le> f r"
  shows "sort_key f (xs @ [r]) = sort_key f xs @ [r]"
  by (rule sort_key_inj_key_eq) (use assms in \<open>auto simp: sorted_append\<close>)

text \<open>What is stored is found: after \<^verbatim>\<open>StoreTick\<close> accepted a tick whose time stamp is not older
  than those before it, \<^verbatim>\<open>History\<close> with any limit from one to ten thousand returns that tick's raw bytes as
  its last element.\<close>

theorem stored_tick_is_last:
  assumes "store_reachable s" "StoreTick jerr None raw (db s) = (None, True, d)"
    and "unmarshal tick_fields raw zero_tick = (False, t)" "\<forall>r \<in> set (tick_log s). row_ts r \<le> tr_Ts t"
    and "1 \<le> n" "n \<le> 10000"
  shows "\<exists>older. History no_errors n d = (older @ [raw], None)"
proof -
  let ?f = "\<lambda>r. (row_ts r, row_id r)"
  have d: "d = insert_tick t raw (db s)"
    using assms(2,3) by (auto simp: StoreTick_def split: if_splits)
  let ?new = "last (rows d)"
  let ?s' = "s\<lparr>db := d, tick_log := tick_log s @ [?new], trims := trims s + 1\<rparr>"
  have "store_step s ?s'" using store_step.store_tick [OF assms(2)] by simp
  with assms(1) have reach: "store_reachable ?s'" by (rule store_reachable_step)
  then have ok: "by_id (tick_log s @ [?new])" using store_reachable_ok [of ?s'] by (simp add: store_ok_def)
  define xs where "xs = drop (Suc (length (tick_log s)) - nat n) (tick_log s)"
  have split: "drop (length (tick_log ?s') - nat n) (tick_log ?s') = xs @ [?new]" using assms(5) by (simp add: xs_def)
  have ids: "by_id (xs @ [?new])" proof -
    have "tick_log ?s' = tick_log s @ [?new]" by simp
    then show ?thesis using by_id_drop [OF ok, of "length (tick_log ?s') - nat n"] split by (simp only:)
  qed
  have new: "row_ts ?new = tr_Ts t" "row_raw ?new = raw" by (simp_all add: d insert_tick_def)
  have "?f x \<le> ?f ?new" if "x \<in> set xs" for x
    using that ids assms(4) in_set_dropD [of x] by (auto simp: xs_def new sorted_wrt_append)
  moreover have "inj_on ?f (set (xs @ [?new]))"
    using by_id_distinct [OF ids] unfolding distinct_map inj_on_def by (metis prod.inject)
  ultimately have "sort_key ?f (xs @ [?new]) = sort_key ?f xs @ [?new]" by (intro sort_key_snoc_max) auto
  moreover have "history_query n d = oldest_first (xs @ [?new])"
    using history_newest [of ?s' n] store_reachable_ok [OF reach] assms(5,6) split by simp
  ultimately show ?thesis by (simp add: History_no_errors oldest_first_def new)
qed

text \<open>A tick as the engine prints it, shortened to the members the example needs.\<close>

definition demo_tick :: bytes where
  "demo_tick = json_object [(''type'', json_string ''tick''), (''ts'', ''2''), (''price'', ''101.5'')]"

definition demo_row :: tickRow where
  "demo_row = zero_tick\<lparr>tr_Type := ''tick'', tr_Ts := 2, tr_Price := F64 False (203 / 2)\<rparr>"

lemma demo_tick_decoded: "unmarshal tick_fields demo_tick zero_tick = (False, demo_row)"
proof -
  have "list_all member_ok [(''type'', json_string ''tick'', JStr ''tick''), (''ts'', ''2'', JNum ''2''), (''price'', ''101.5'', JNum ''101.5'')]"
    using encodes_string encodes_digits by (simp add: member_ok_def plain_key_def)
  moreover have "atoi ''2'' = Some 2"
    by (simp add: atoi_mag_def is_digit_def digits_val_def digit_val_def int64_min_def int64_max_def)
  ultimately show ?thesis
    using unmarshal_object [of "[(''type'', json_string ''tick'', JStr ''tick''), (''ts'', ''2'', JNum ''2''), (''price'', ''101.5'', JNum ''101.5'')]" tick_fields zero_tick]
    by (simp add: demo_tick_def tick_fields_def find_field_def str_field_def int_field_def float_field_def
        parse_float_101_5 demo_row_def)
qed

definition demo_store :: store_sys where
  "demo_store = \<lparr>db = insert_tick demo_row demo_tick schema,
     tick_log = [last (rows (insert_tick demo_row demo_tick schema))], trims = 1\<rparr>"

lemma demo_stored: "StoreTick [] None demo_tick d = (None, True, insert_tick demo_row demo_tick d)"
  by (simp add: StoreTick_def demo_tick_decoded) (simp add: demo_row_def)

lemma schema_ok: "table_ok schema"
  by (simp add: table_ok_def schema_def)

lemma demo_store_reachable: "store_reachable demo_store"
proof -
  have "store_step (store_init schema) demo_store"
    using store_step.store_tick [OF demo_stored, of "store_init schema"]
    by (simp add: demo_store_def store_init_def schema_def)
  then show ?thesis unfolding store_reachable_def using schema_ok by blast
qed

theorem history_refines_log_witness: "History no_errors 200 (db demo_store) = ([demo_tick], None)"
  using history_refines_log [OF demo_store_reachable, of 200]
  by (simp add: demo_store_def insert_tick_def schema_def)

theorem trim_bounds_table_witness: "table_ok (db demo_store) \<and> length (rows (trimOldTicks (db demo_store))) = 1"
  using trim_bounds_table [OF demo_store_reachable] by (simp add: demo_store_def)

theorem stored_tick_is_last_witness: "\<exists>older. History no_errors 5 (insert_tick demo_row demo_tick (db demo_store)) = (older @ [demo_tick], None)"
  by (rule stored_tick_is_last [OF demo_store_reachable demo_stored demo_tick_decoded])
     (simp_all add: demo_store_def insert_tick_def demo_row_def schema_def)

end
