(* ===== verification/Handlers.thy ===== *)
theory Handlers
  imports Store Runner Sandbox
begin

text \<open>
  The HTTP handlers (\<^verbatim>\<open>server/api/handlers.go\<close>).  A handler is a function from a request and the state
  of the component behind it to a response and the new state; what the operating system, Docker
  and the database answer are arguments.  \<^verbatim>\<open>ConfigHandler\<close> is modelled as a whole and, because it
  takes its lock only around the assignment of the configuration, as the three sections that
  concurrent requests interleave.
\<close>

section \<open>Requests and responses\<close>

text \<open>\<open>limit_arg\<close> is what \<^verbatim>\<open>r.URL.Query().Get("limit")\<close> returns.\<close>

record http_request =
  req_method :: bytes
  req_path :: bytes
  limit_arg :: bytes
  req_body :: bytes

record http_response =
  resp_status :: nat
  resp_headers :: "(bytes \<times> bytes) list"
  resp_body :: bytes

definition json_headers :: "(bytes \<times> bytes) list" where
  "json_headers = [(''Content-Type'', ''application/json'')]"

text \<open>\<^verbatim>\<open>json.NewEncoder(w).Encode\<close> ends the text with a newline.\<close>

definition reply :: "nat \<Rightarrow> bytes \<Rightarrow> http_response" where
  "reply code body = \<lparr>resp_status = code, resp_headers = json_headers, resp_body = body @ [newline]\<rparr>"

definition reply_empty :: "nat \<Rightarrow> http_response" where
  "reply_empty code = \<lparr>resp_status = code, resp_headers = json_headers, resp_body = []\<rparr>"

definition error_body :: "bytes \<Rightarrow> bytes" where
  "error_body msg = json_object [(''error'', json_string msg)]"

text \<open>\<^verbatim>\<open>http.Error\<close>\<close>

definition http_error :: "bytes \<Rightarrow> nat \<Rightarrow> http_response" where
  "http_error msg code =
     \<lparr>resp_status = code,
      resp_headers = [(''Content-Type'', ''text/plain; charset=utf-8''), (''X-Content-Type-Options'', ''nosniff'')],
      resp_body = msg @ [newline]\<rparr>"

section \<open>History\<close>

definition history_limit :: "bytes \<Rightarrow> int" where
  "history_limit s =
     (let n = (if s \<noteq> [] then (case atoi s of Some n \<Rightarrow> if 0 < n then n else 200 | None \<Rightarrow> 200) else 200)
      in if 1000 < n then 1000 else n)"

text \<open>How \<^verbatim>\<open>json.Marshal\<close> writes a \<^verbatim>\<open>json.RawMessage\<close>: it must be one JSON value; white space between
  tokens is dropped and the HTML-sensitive characters are escaped.  The flag says that the
  position is inside a string.\<close>

fun compact_json :: "bool \<Rightarrow> bytes \<Rightarrow> bytes" where
  "compact_json q [] = []"
| "compact_json False (c # cs) =
     (if c = CHR 0x22 then c # compact_json True cs
      else if is_space c then compact_json False cs
      else c # compact_json False cs)"
| "compact_json True (c # cs) =
     (if c = CHR 0x5C then (case cs of [] \<Rightarrow> [c] | e # r \<Rightarrow> c # e # compact_json True r)
      else if c = CHR 0x22 then c # compact_json False cs
      else if html_special c then CHR 0x5C # ''u00'' @ [hex_digit (byte c div 16), hex_digit (byte c mod 16)] @ compact_json True cs
      else if c = CHR 0xE2 \<and> prefix [CHR 0x80, CHR 0xA8] cs then CHR 0x5C # ''u2028'' @ compact_json True (drop 2 cs)
      else if c = CHR 0xE2 \<and> prefix [CHR 0x80, CHR 0xA9] cs then CHR 0x5C # ''u2029'' @ compact_json True (drop 2 cs)
      else c # compact_json True cs)"

definition marshal_raw :: "bytes \<Rightarrow> bytes option" where
  "marshal_raw raw =
     (case json_value raw of
        Some (v, rest) \<Rightarrow> if list_all is_space rest then Some (compact_json False raw) else None
      | None \<Rightarrow> None)"

fun marshal_raws :: "bytes list \<Rightarrow> bytes list option" where
  "marshal_raws [] = Some []"
| "marshal_raws (r # rs) =
     (case marshal_raw r of
        None \<Rightarrow> None
      | Some t \<Rightarrow> map_option (\<lambda>ts. t # ts) (marshal_raws rs))"

definition HistoryHandler :: "query_env \<Rightarrow> http_request \<Rightarrow> store \<Rightarrow> http_response" where
  "HistoryHandler env req d =
     (case History env (history_limit (limit_arg req)) d of
        (ticks, err) \<Rightarrow>
          if err \<noteq> None then http_error ''internal error'' 500
          else (case marshal_raws ticks of
                  None \<Rightarrow> http_error ''marshal error'' 500
                | Some ts \<Rightarrow>
                    \<lparr>resp_status = 200,
                     resp_headers = [(''Content-Type'', ''application/json''), (''Cache-Control'', ''no-store'')],
                     resp_body = json_array ts\<rparr>))"

section \<open>Configuration\<close>

record EngineConfig =
  Makers :: int
  Takers :: int
  Whales :: int
  TickMs :: int

definition zero_config :: EngineConfig where
  "zero_config = \<lparr>Makers = 0, Takers = 0, Whales = 0, TickMs = 0\<rparr>"

definition config_fields :: "EngineConfig field list" where
  "config_fields =
     [int_field ''makers'' (\<lambda>v. Makers_update (\<lambda>_. v)),
      int_field ''takers'' (\<lambda>v. Takers_update (\<lambda>_. v)),
      int_field ''whales'' (\<lambda>v. Whales_update (\<lambda>_. v)),
      int_field ''tick_ms'' (\<lambda>v. TickMs_update (\<lambda>_. v))]"

definition config_args :: "EngineConfig \<Rightarrow> bytes list" where
  "config_args c =
     [''--makers'', itoa (Makers c), ''--takers'', itoa (Takers c),
      ''--whales'', itoa (Whales c), ''--tick-ms'', itoa (TickMs c)]"

definition validate :: "EngineConfig \<Rightarrow> bytes" where
  "validate c =
     (if Makers c < 0 \<or> 50 < Makers c then ''makers must be 0-50''
      else if Takers c < 0 \<or> 50 < Takers c then ''takers must be 0-50''
      else if Whales c < 0 \<or> 20 < Whales c then ''whales must be 0-20''
      else if TickMs c < 50 \<or> 5000 < TickMs c then ''tick_ms must be 50-5000''
      else [])"

definition config_json :: "EngineConfig \<Rightarrow> bytes" where
  "config_json c = json_object
     [(''makers'', itoa (Makers c)), (''takers'', itoa (Takers c)), (''whales'', itoa (Whales c)), (''tick_ms'', itoa (TickMs c))]"

record config_state =
  current :: EngineConfig
  cfg_runner :: runner

text \<open>The part of a POST before anything is changed.\<close>

definition post_check :: "bytes \<Rightarrow> bytes + EngineConfig" where
  "post_check body =
     (case decode_stream config_fields body zero_config of
        (err, req) \<Rightarrow>
          if err then Inl ''invalid_json''
          else if validate req \<noteq> [] then Inl (validate req)
          else Inr req)"

definition post_set_current :: "EngineConfig \<Rightarrow> config_state \<Rightarrow> config_state" where
  "post_set_current req st = st\<lparr>current := req\<rparr>"

definition post_set_args :: "EngineConfig \<Rightarrow> config_state \<Rightarrow> config_state" where
  "post_set_args req st = st\<lparr>cfg_runner := SetArgs (config_args req) (cfg_runner st)\<rparr>"

definition post_restart :: "go_error option \<Rightarrow> EngineConfig \<Rightarrow> config_state \<Rightarrow> http_response \<times> config_state" where
  "post_restart sig req st =
     (case Restart sig (cfg_runner st) of
        (Some _, r) \<Rightarrow>
          (reply 200 (json_object [(''config'', config_json req),
             (''note'', json_string ''engine not running; args apply on next start'')]), st\<lparr>cfg_runner := r\<rparr>)
      | (None, r) \<Rightarrow>
          (reply 200 (json_object [(''config'', config_json req), (''restarting'', ''true'')]), st\<lparr>cfg_runner := r\<rparr>))"

definition ConfigHandler :: "go_error option \<Rightarrow> http_request \<Rightarrow> config_state \<Rightarrow> http_response \<times> config_state" where
  "ConfigHandler sig req st =
     (if req_method req = ''GET'' then (reply 200 (config_json (current st)), st)
      else if req_method req = ''POST'' then
        (case post_check (req_body req) of
           Inl msg \<Rightarrow> (reply 400 (error_body msg), st)
         | Inr cfg \<Rightarrow> post_restart sig cfg (post_set_args cfg (post_set_current cfg st)))
      else (reply_empty 405, st))"

text \<open>Concurrent requests: each POST that passed its checks is at one of two points between its sections.\<close>

datatype post_phase = CurrentSet EngineConfig | ArgsSet EngineConfig

record config_sys =
  conf :: config_state
  posts :: "(nat, post_phase) gomap"

inductive config_step :: "config_sys \<Rightarrow> config_sys \<Rightarrow> bool" where
  post_current:
    "map_of (posts s) i = None \<Longrightarrow> post_check body = Inr req \<Longrightarrow>
     config_step s (s\<lparr>conf := post_set_current req (conf s), posts := put i (CurrentSet req) (posts s)\<rparr>)"
| post_args:
    "map_of (posts s) i = Some (CurrentSet req) \<Longrightarrow>
     config_step s (s\<lparr>conf := post_set_args req (conf s), posts := put i (ArgsSet req) (posts s)\<rparr>)"
| post_done:
    "map_of (posts s) i = Some (ArgsSet req) \<Longrightarrow>
     config_step s (s\<lparr>conf := snd (post_restart sig req (conf s)), posts := del i (posts s)\<rparr>)"
| runner_moves:
    "args r = args (cfg_runner (conf s)) \<Longrightarrow> config_step s (s\<lparr>conf := (conf s)\<lparr>cfg_runner := r\<rparr>\<rparr>)"

section \<open>Traders\<close>

record spawn_req =
  sr_TraderID :: bytes
  sr_Script :: bytes

definition zero_spawn_req :: spawn_req where
  "zero_spawn_req = \<lparr>sr_TraderID = [], sr_Script = []\<rparr>"

definition spawn_fields :: "spawn_req field list" where
  "spawn_fields =
     [str_field ''trader_id'' (\<lambda>v. sr_TraderID_update (\<lambda>_. v)),
      str_field ''script'' (\<lambda>v. sr_Script_update (\<lambda>_. v))]"

fun status_text :: "status \<Rightarrow> bytes" where
  "status_text StatusSpawning = ''spawning''"
| "status_text StatusRunning = ''running''"
| "status_text StatusError = ''error''"
| "status_text StatusStopped = ''stopped''"

text \<open>\<open>time_json\<close> is how the library writes a time.\<close>

definition info_json :: "(int \<Rightarrow> bytes) \<Rightarrow> SandboxInfo \<Rightarrow> bytes" where
  "info_json time_json i = json_object
     ([(''trader_id'', json_string (TraderID i)), (''container_id'', json_string (ContainerID i)),
       (''status'', json_string (status_text (Status i))), (''started_at'', time_json (StartedAt i))] @
      (if ErrorMsg i = [] then [] else [(''error_msg'', json_string (ErrorMsg i))]) @
      [(''script_size'', itoa (int (ScriptSize i)))])"

text \<open>What the world answers to a request: the outcome of a spawn, the log stream, the demultiplexer
  and the formatting of times.\<close>

record trader_env =
  spawn_outcome :: spawn_env
  remove_outcome :: remove_result
  log_reply :: "go_error + bytes"
  log_demux :: "bytes \<Rightarrow> bytes"
  time_json :: "int \<Rightarrow> bytes"

definition spawn_refusals :: "bytes list" where
  "spawn_refusals = [''invalid_trader_id'', ''script_too_large'', ''too_many_sandboxes'', ''duplicate_trader_id'']"

definition post_trader :: "trader_env \<Rightarrow> bytes \<Rightarrow> manager \<Rightarrow> http_response \<times> manager" where
  "post_trader env body m =
     (case decode_stream spawn_fields body zero_spawn_req of
        (err, req) \<Rightarrow>
          if err then (reply 400 (error_body ''invalid_json''), m)
          else (case Spawn (spawn_outcome env) (sr_TraderID req) (sr_Script req) m of
                  (Some msg, m') \<Rightarrow> (reply (if msg \<in> set spawn_refusals then 400 else 500) (error_body msg), m')
                | (None, m') \<Rightarrow>
                    (reply 200 (json_object [(''status'', json_string ''spawning''),
                       (''trader_id'', json_string (sr_TraderID req))]), m')))"

definition trader_collection :: "trader_env \<Rightarrow> http_request \<Rightarrow> manager \<Rightarrow> http_response \<times> manager" where
  "trader_collection env req m =
     (if req_method req = ''GET'' then (reply 200 (json_array (map (info_json (time_json env)) (ListInfos m))), m)
      else if req_method req = ''POST'' then post_trader env (req_body req) m
      else (reply_empty 405, m))"

definition trader_log :: "trader_env \<Rightarrow> bytes \<Rightarrow> manager \<Rightarrow> http_response \<times> manager" where
  "trader_log env traderID m =
     (case ContainerLogs (log_demux env) (log_reply env) traderID ''100'' m of
        (Inl err, m') \<Rightarrow> (reply (if err = ''not_found'' then 404 else 500) (error_body err), m')
      | (Inr logs, m') \<Rightarrow> (reply 200 (json_object [(''log'', json_string logs)]), m'))"

definition trader_item :: "trader_env \<Rightarrow> http_request \<Rightarrow> bytes \<Rightarrow> manager \<Rightarrow> http_response \<times> manager" where
  "trader_item env req traderID m =
     (if req_method req = ''GET'' then
        (case GetInfo traderID m of
           None \<Rightarrow> (reply 404 (error_body ''not_found''), m)
         | Some i \<Rightarrow> (reply 200 (info_json (time_json env) i), m))
      else if req_method req = ''DELETE'' then
        (case Kill (remove_outcome env) traderID m of
           (Some err, m') \<Rightarrow> (reply (if err = ''not_found'' then 404 else 500) (error_body err), m')
         | (None, m') \<Rightarrow> (reply 200 (json_object [(''status'', json_string ''stopped'')]), m'))
      else (reply_empty 405, m))"

definition TraderHandler :: "trader_env \<Rightarrow> http_request \<Rightarrow> manager \<Rightarrow> http_response \<times> manager" where
  "TraderHandler env req m =
     (let suffix = trim_prefix (req_path req) ''/api/traders'' in
      if suffix = [] \<or> suffix = ''/'' then trader_collection env req m
      else let parts = split_first CHR ''/'' (trim_prefix suffix ''/'');
               traderID = hd parts;
               subpath = (if length parts = 2 then parts ! 1 else [])
           in if subpath = ''log'' \<and> req_method req = ''GET'' then trader_log env traderID m
              else trader_item env req traderID m)"

section \<open>The history endpoint\<close>

lemma history_limit_range: "1 \<le> history_limit q \<and> history_limit q \<le> 1000"
  by (auto simp: history_limit_def Let_def split: option.splits)

text \<open>Everything in the log is one JSON value.\<close>

lemma unmarshal_ok_json: "unmarshal fs raw x = (False, y) \<Longrightarrow> marshal_raw raw = Some (compact_json False raw)"
  by (auto simp: unmarshal_def marshal_raw_def split: option.splits if_splits)

lemma logged_json:
  "store_ok s \<Longrightarrow> r \<in> set (tick_log s) \<Longrightarrow> marshal_raw (row_raw r) = Some (compact_json False (row_raw r))"
  by (rule unmarshal_ok_json) (auto simp: store_ok_def row_decodes_def)

lemma marshal_raws_all: "\<forall>r \<in> set rs. marshal_raw r = Some (f r) \<Longrightarrow> marshal_raws rs = Some (map f rs)"
  by (induction rs) auto

lemma oldest_first_set: "set (oldest_first rs) = row_raw ` set rs"
  by (simp add: oldest_first_def)

text \<open>Property C38. The history endpoint, on top of the store: whatever the query string and however insertions
  and trims were interleaved, as long as the database answers, the reply is status 200 with a JSON array of
  exactly the newest ticks found in the table or accepted since, oldest first, and their number is the requested limit clamped to
  1 to 1000 (200 when the limit is missing, not a number or not positive).\<close>

theorem history_endpoint:
  assumes "store_reachable s"
  shows "\<exists>n. 1 \<le> n \<and> n \<le> 1000 \<and>
    (\<forall>v. atoi (limit_arg req) = Some v \<and> 0 < v \<longrightarrow> n = min v 1000) \<and>
    ((\<nexists>v. atoi (limit_arg req) = Some v \<and> 0 < v) \<longrightarrow> n = 200) \<and>
    HistoryHandler no_errors req (db s) =
      \<lparr>resp_status = 200,
       resp_headers = [(''Content-Type'', ''application/json''), (''Cache-Control'', ''no-store'')],
       resp_body = json_array (map (compact_json False) (map row_raw
         (sort_key (\<lambda>r. (row_ts r, row_id r)) (drop (length (tick_log s) - nat n) (tick_log s)))))\<rparr>"
proof -
  let ?n = "history_limit (limit_arg req)"
  let ?new = "drop (length (tick_log s) - nat ?n) (tick_log s)"
  have q: "history_query ?n (db s) = oldest_first ?new"
    using ticks.query_newest [OF assms, of ?n] history_limit_range [of "limit_arg req"] by (simp add: maxTicks_def)
  have "marshal_raws (oldest_first ?new) = Some (map (compact_json False) (oldest_first ?new))"
    by (intro marshal_raws_all) (auto simp: oldest_first_set dest: in_set_dropD logged_json [OF store_reachable_ok [OF assms]])
  then have "HistoryHandler no_errors req (db s) =
      \<lparr>resp_status = 200,
       resp_headers = [(''Content-Type'', ''application/json''), (''Cache-Control'', ''no-store'')],
       resp_body = json_array (map (compact_json False) (oldest_first ?new))\<rparr>"
    by (simp add: HistoryHandler_def History_no_errors q)
  moreover have "\<forall>v. atoi (limit_arg req) = Some v \<and> 0 < v \<longrightarrow> ?n = min v 1000"
    "(\<nexists>v. atoi (limit_arg req) = Some v \<and> 0 < v) \<longrightarrow> ?n = 200"
    by (auto simp: history_limit_def Let_def split: option.splits)
  ultimately show ?thesis using history_limit_range [of "limit_arg req"] by (auto simp: oldest_first_def)
qed

theorem history_endpoint_witness:
  "resp_body (HistoryHandler no_errors \<lparr>req_method = ''GET'', req_path = ''/api/history'', limit_arg = ''7'', req_body = []\<rparr> (db demo_store))
     = json_array [compact_json False demo_tick]"
proof -
  let ?req = "\<lparr>req_method = ''GET'', req_path = ''/api/history'', limit_arg = ''7'', req_body = []\<rparr>"
  obtain n where n: "1 \<le> n" "n \<le> (1000 :: int)" "HistoryHandler no_errors ?req (db demo_store) =
      \<lparr>resp_status = 200,
       resp_headers = [(''Content-Type'', ''application/json''), (''Cache-Control'', ''no-store'')],
       resp_body = json_array (map (compact_json False) (map row_raw
         (sort_key (\<lambda>r. (row_ts r, row_id r)) (drop (length (tick_log demo_store) - nat n) (tick_log demo_store)))))\<rparr>"
    using history_endpoint [OF demo_store_reachable, of ?req] by blast
  have "drop (length (tick_log demo_store) - nat n) (tick_log demo_store) = tick_log demo_store"
    using n(1) by (simp add: demo_store_def)
  with n(3) show ?thesis by (simp add: demo_store_def insert_tick_def schema_def)
qed

section \<open>The configuration endpoint\<close>

lemma nat_digits_json_int: "json_int (nat_digits n)"
proof (cases "n = 0")
  case True
  then show ?thesis by (subst True, subst nat_digits.simps) (simp add: json_int_def digit_char_props)
next
  case False
  then show ?thesis
    using nat_digits_hd_nonzero [of n] nat_digits_all_digits [of n] by (simp add: json_int_def)
qed

lemma encodes_int: "0 \<le> i \<Longrightarrow> encodes (itoa i) (JNum (itoa i))"
proof -
  assume i: "0 \<le> i"
  obtain c cs where c: "nat_digits (nat i) = c # cs" "is_digit c" using nat_digits_hd by blast
  have p: "num_parts (nat_digits (nat i)) [] CHR ''+'' []" by (simp add: num_parts_def nat_digits_json_int)
  have t: "num_text (nat_digits (nat i)) [] CHR ''+'' [] = itoa i" using i by (simp add: num_text_def itoa_def)
  have "next_token (itoa i @ r) = Some (TVal (JNum (itoa i)), r)" if "ends_value r" for r
  proof -
    have "\<not> is_space c" "c \<notin> set [CHR ''{'', CHR ''}'', CHR ''['', CHR '']'', CHR '':'', CHR '','', CHR 0x22, CHR ''t'', CHR ''f'', CHR ''n'', CHR ''-'']"
      using c(2) by (auto simp: is_space_def is_digit_def)
    moreover have "itoa i = c # cs" using i c(1) by (simp add: itoa_def)
    moreover have "parse_unsigned (itoa i @ r) = Some (itoa i, r)" using parse_unsigned_text [OF p that] by (simp only: t)
    ultimately show ?thesis by (simp add: next_token_def parse_num_def)
  qed
  then show ?thesis by (simp add: encodes_def)
qed

lemma validate_range:
  "validate c = [] \<longleftrightarrow> 0 \<le> Makers c \<and> Makers c \<le> 50 \<and> 0 \<le> Takers c \<and> Takers c \<le> 50 \<and>
     0 \<le> Whales c \<and> Whales c \<le> 20 \<and> 50 \<le> TickMs c \<and> TickMs c \<le> 5000"
  by (auto simp: validate_def)

text \<open>A valid configuration is read back from its JSON.\<close>

lemma config_json_reads:
  assumes "validate c = []"
  shows "decode_stream config_fields (config_json c @ r) zero_config = (False, c)"
proof -
  let ?ms = "[(''makers'', itoa (Makers c), JNum (itoa (Makers c))), (''takers'', itoa (Takers c), JNum (itoa (Takers c))),
    (''whales'', itoa (Whales c), JNum (itoa (Whales c))), (''tick_ms'', itoa (TickMs c), JNum (itoa (TickMs c)))]"
  have rng: "0 \<le> Makers c" "0 \<le> Takers c" "0 \<le> Whales c" "0 \<le> TickMs c" using assms by (auto simp: validate_range)
  have "list_all member_ok ?ms" using encodes_int rng by (simp add: member_ok_def plain_key_def)
  from json_value_object [OF _ this, of r]
  have v: "json_value (config_json c @ r) = Some (JObj [(''makers'', JNum (itoa (Makers c))), (''takers'', JNum (itoa (Takers c))),
      (''whales'', JNum (itoa (Whales c))), (''tick_ms'', JNum (itoa (TickMs c)))], r)"
    by (simp add: config_json_def)
  have a: "atoi (itoa (Makers c)) = Some (Makers c)" "atoi (itoa (Takers c)) = Some (Takers c)"
    "atoi (itoa (Whales c)) = Some (Whales c)" "atoi (itoa (TickMs c)) = Some (TickMs c)"
    using assms by (auto simp: validate_range int64_min_def int64_max_def intro!: atoi_itoa)
  show ?thesis by (simp add: decode_stream_def v config_fields_def find_field_def int_field_def a zero_config_def)
qed

text \<open>Property C39. What one configuration request does, on its own: a body that is not JSON or out of range is
  answered with status 400 and changes nothing; a valid one becomes the current configuration and the launch arguments
  of the next engine start, and a GET that follows returns a body that decodes to exactly that
  configuration.\<close>

theorem config_post_then_get:
  assumes "req_method req = ''POST''" "ConfigHandler sig req st = (resp, st')"
    and "req_method get = ''GET''"
  shows "(resp_status resp = 400 \<and> st' = st \<and> (\<exists>msg. post_check (req_body req) = Inl msg)) \<or>
    (resp_status resp = 200 \<and> (\<exists>cfg. post_check (req_body req) = Inr cfg \<and> current st' = cfg \<and> validate cfg = [] \<and>
       args (cfg_runner st') = config_args cfg \<and>
       decode_stream config_fields (resp_body (fst (ConfigHandler sig' get st'))) zero_config = (False, cfg)))"
proof (cases "post_check (req_body req)")
  case (Inl msg)
  then show ?thesis using assms by (auto simp: ConfigHandler_def reply_def)
next
  case (Inr cfg)
  then have v: "validate cfg = []" by (auto simp: post_check_def split: prod.splits if_splits)
  let ?st = "post_set_args cfg (post_set_current cfg st)"
  obtain r where r: "Restart sig (cfg_runner ?st) = (fst (Restart sig (cfg_runner ?st)), r)" by (metis prod.collapse)
  have "args r = args (cfg_runner ?st)" using r by (rule Restart_cases) simp_all
  then have "st' = ?st\<lparr>cfg_runner := r\<rparr>" "resp_status resp = 200" "args r = config_args cfg"
    using assms(1,2) Inr r
    by (auto simp: ConfigHandler_def post_restart_def reply_def post_set_args_def SetArgs_def split: prod.splits option.splits)
  then show ?thesis using Inr v assms(3) config_json_reads [OF v]
    by (auto simp: ConfigHandler_def reply_def post_set_args_def post_set_current_def)
qed

definition demo_config :: EngineConfig where
  "demo_config = \<lparr>Makers = 3, Takers = 4, Whales = 1, TickMs = 100\<rparr>"

definition demo_post :: http_request where
  "demo_post = \<lparr>req_method = ''POST'', req_path = ''/api/config'', limit_arg = [], req_body = config_json demo_config\<rparr>"

lemma demo_post_check: "validate c = [] \<Longrightarrow> post_check (config_json c) = Inr c"
  using config_json_reads [of c "[]"] by (simp add: post_check_def)

lemma demo_config_valid: "validate demo_config = []" "validate (demo_config\<lparr>Makers := n\<rparr>) = (if 0 \<le> n \<and> n \<le> 50 then [] else ''makers must be 0-50'')"
  by (auto simp: validate_def demo_config_def)

theorem config_post_then_get_witness:
  "\<exists>resp st'. ConfigHandler None demo_post \<lparr>current = zero_config, cfg_runner = demo_runner\<rparr> = (resp, st') \<and>
     current st' = demo_config \<and> args (cfg_runner st') = config_args demo_config"
proof -
  let ?st = "\<lparr>current = zero_config, cfg_runner = demo_runner\<rparr>"
  obtain resp st' where c: "ConfigHandler None demo_post ?st = (resp, st')" by (metis prod.collapse)
  have "req_method demo_post = ''POST''" "req_method (demo_post\<lparr>req_method := ''GET''\<rparr>) = ''GET''"
    "post_check (req_body demo_post) = Inr demo_config"
    using demo_post_check [OF demo_config_valid(1)] by (simp_all add: demo_post_def)
  with config_post_then_get [OF _ c, of "demo_post\<lparr>req_method := ''GET''\<rparr>" None] c show ?thesis by auto
qed

text \<open>Only checked configurations are ever current, and only their arguments are ever set.\<close>

definition config_ok :: "config_sys \<Rightarrow> bool" where
  "config_ok s \<longleftrightarrow> validate (current (conf s)) = [] \<and>
     (\<exists>c. validate c = [] \<and> args (cfg_runner (conf s)) = config_args c) \<and>
     (\<forall>i req. map_of (posts s) i = Some (CurrentSet req) \<or> map_of (posts s) i = Some (ArgsSet req) \<longrightarrow> validate req = [])"

lemma post_restart_args: "args (cfg_runner (snd (post_restart sig req st))) = args (cfg_runner st)"
  "current (snd (post_restart sig req st)) = current st"
proof -
  obtain e r where r: "Restart sig (cfg_runner st) = (e, r)" by (metis prod.collapse)
  have "args r = args (cfg_runner st)" using r by (rule Restart_cases) simp_all
  with r show "args (cfg_runner (snd (post_restart sig req st))) = args (cfg_runner st)"
    "current (snd (post_restart sig req st)) = current st"
    by (cases e; simp add: post_restart_def)+
qed

lemma config_ok_step: "config_ok s \<Longrightarrow> config_step s t \<Longrightarrow> config_ok t"
proof (erule config_step.cases, goal_cases)
  case (1 s' i body req)
  then have "validate req = []" by (auto simp: post_check_def split: prod.splits if_splits)
  with 1 show ?case by (auto simp: config_ok_def post_set_current_def update_conv')
next
  case (2 s' i req)
  then have "validate req = []" by (auto simp: config_ok_def)
  with 2 show ?case by (auto simp: config_ok_def post_set_args_def SetArgs_def update_conv')
next
  case (3 s' i req sig)
  then show ?case by (auto simp: config_ok_def post_restart_args delete_conv')
next
  case (4 r s')
  then show ?case by (auto simp: config_ok_def)
qed

definition config_start :: "EngineConfig \<Rightarrow> runner \<Rightarrow> config_sys" where
  "config_start c r = \<lparr>conf = \<lparr>current = c, cfg_runner = SetArgs (config_args c) r\<rparr>, posts = []\<rparr>"

interpretation config_endpoint: guarded_system
  "\<lambda>s. \<exists>c r. validate c = [] \<and> s = config_start c r" config_step config_ok
proof
  show "config_ok s" if "\<exists>c r. validate c = [] \<and> s = config_start c r" for s
    using that by (auto simp: config_ok_def config_start_def SetArgs_def)
qed (rule config_ok_step)

text \<open>However concurrent configuration requests interleave, a server started with a valid
  configuration only ever shows a valid one, and the engine is only ever given the arguments of a valid
  one: at most 50 makers, 50 takers, 20 whales and a tick interval of 50 to 5000 ms.\<close>

theorem config_always_valid:
  assumes "validate c = []" "config_step\<^sup>*\<^sup>* (config_start c r) s"
  shows "validate (current (conf s)) = [] \<and> (\<exists>c'. validate c' = [] \<and> args (cfg_runner (conf s)) = config_args c')"
proof -
  have "config_ok s" using config_endpoint.reachable_good [OF _ assms(2)] assms(1) by blast
  then show ?thesis by (simp add: config_ok_def)
qed

text \<open>Two requests whose sections cross.\<close>

lemma crossed_posts:
  assumes "validate a = []" "validate b = []"
  shows "\<exists>s. config_step\<^sup>*\<^sup>* (config_start c r) s \<and> posts s = [] \<and> current (conf s) = b \<and> args (cfg_runner (conf s)) = config_args a"
proof -
  let ?s0 = "config_start c r"
  let ?s1 = "?s0\<lparr>conf := post_set_current a (conf ?s0), posts := put 0 (CurrentSet a) (posts ?s0)\<rparr>"
  let ?s2 = "?s1\<lparr>conf := post_set_current b (conf ?s1), posts := put 1 (CurrentSet b) (posts ?s1)\<rparr>"
  let ?s3 = "?s2\<lparr>conf := post_set_args b (conf ?s2), posts := put 1 (ArgsSet b) (posts ?s2)\<rparr>"
  let ?s4 = "?s3\<lparr>conf := snd (post_restart None b (conf ?s3)), posts := del 1 (posts ?s3)\<rparr>"
  let ?s5 = "?s4\<lparr>conf := post_set_args a (conf ?s4), posts := put 0 (ArgsSet a) (posts ?s4)\<rparr>"
  let ?s6 = "?s5\<lparr>conf := snd (post_restart None a (conf ?s5)), posts := del 0 (posts ?s5)\<rparr>"
  have "config_step ?s0 ?s1"
    by (rule config_step.post_current [OF _ demo_post_check [OF assms(1)]]) (simp add: config_start_def)
  moreover have "config_step ?s1 ?s2"
    by (rule config_step.post_current [OF _ demo_post_check [OF assms(2)]]) (simp add: config_start_def)
  moreover have "config_step ?s2 ?s3" by (rule config_step.post_args) (simp add: config_start_def)
  moreover have "config_step ?s3 ?s4" by (rule config_step.post_done) (simp add: config_start_def)
  moreover have "config_step ?s4 ?s5" by (rule config_step.post_args) (simp add: config_start_def)
  moreover have "config_step ?s5 ?s6" by (rule config_step.post_done) (simp add: config_start_def)
  ultimately have "config_step\<^sup>*\<^sup>* ?s0 ?s6" by (meson rtranclp.rtrancl_into_rtrancl rtranclp.rtrancl_refl)
  moreover have "posts ?s6 = []" "current (conf ?s6) = b" "args (cfg_runner (conf ?s6)) = config_args a"
    by (simp_all add: config_start_def post_restart_args post_set_args_def post_set_current_def SetArgs_def)
  ultimately show ?thesis by blast
qed

theorem config_always_valid_witness:
  "\<exists>s :: config_sys. validate (current (conf s)) = [] \<and> current (conf s) = demo_config\<lparr>Makers := 7\<rparr>"
proof -
  have v: "validate (demo_config\<lparr>Makers := 7\<rparr>) = []" by (simp add: demo_config_valid)
  obtain s where "config_step\<^sup>*\<^sup>* (config_start demo_config demo_runner) s" "current (conf s) = demo_config\<lparr>Makers := 7\<rparr>"
    using crossed_posts [OF demo_config_valid(1) v] by blast
  moreover from this(1) have "validate (current (conf s)) = []"
    using config_always_valid [OF demo_config_valid(1)] by blast
  ultimately show ?thesis by blast
qed

text \<open>Concurrent configuration requests can leave the server in a lasting disagreement: after both
  have been answered, the configuration it reports is not the one whose arguments the engine is
  started with.\<close>

theorem config_posts_may_disagree:
  "\<exists>s. config_step\<^sup>*\<^sup>* (config_start demo_config r) s \<and> posts s = [] \<and>
     args (cfg_runner (conf s)) \<noteq> config_args (current (conf s))"
proof -
  have v: "validate (demo_config\<lparr>Makers := 7\<rparr>) = []" by (simp add: demo_config_valid)
  have "config_args demo_config \<noteq> config_args (demo_config\<lparr>Makers := 7\<rparr>)"
    using decimal.encode_inj [of 3 7] by (auto simp: config_args_def demo_config_def int64_range_def int64_min_def int64_max_def)
  with crossed_posts [OF demo_config_valid(1) v] show ?thesis by metis
qed

section \<open>The trader endpoint\<close>

definition demo_request :: "bytes \<Rightarrow> bytes \<Rightarrow> bytes \<Rightarrow> http_request" where
  "demo_request meth path body = \<lparr>req_method = meth, req_path = path, limit_arg = [], req_body = body\<rparr>"

lemma spawn_refusals_eq: "set spawn_refusals = set spawn_rejections"
  by (auto simp: spawn_refusals_def spawn_rejections_def)

lemma trader_path_collection: "req_path req = ''/api/traders'' \<Longrightarrow> TraderHandler env req m = trader_collection env req m"
  by (simp add: TraderHandler_def trim_prefix_def)

text \<open>Property C40. The status code of a spawn request tells the caller exactly what happened: 200 means that the
  sandbox is running under the requested id; 400 means that the request was refused and nothing changed at
  all; 500 means that the id is now taken by a failed entry that does not count towards the cap.  No other
  code is possible, and no other sandbox is affected.\<close>

theorem spawn_endpoint_outcomes:
  assumes "req_path req = ''/api/traders''" "req_method req = ''POST''"
    and "decode_stream spawn_fields (req_body req) zero_spawn_req = (err, sr)"
    and "TraderHandler env req m = (resp, m')"
  shows "resp_status resp = 200 \<and> \<not> err \<and>
      (\<exists>e. map_of (sandboxes m') (sr_TraderID sr) = Some e \<and> Status (info e) = StatusRunning) \<and>
      (\<forall>k. k \<noteq> sr_TraderID sr \<longrightarrow> map_of (sandboxes m') k = map_of (sandboxes m) k) \<or>
    resp_status resp = 400 \<and> m' = m \<or>
    resp_status resp = 500 \<and> \<not> err \<and> active m' = active m \<and>
      (\<exists>e. map_of (sandboxes m') (sr_TraderID sr) = Some e \<and> Status (info e) = StatusError) \<and>
      (\<forall>k. k \<noteq> sr_TraderID sr \<longrightarrow> map_of (sandboxes m') k = map_of (sandboxes m) k)"
proof -
  have t: "post_trader env (req_body req) m = (resp, m')"
    using assms(1,2,4) by (simp add: trader_path_collection trader_collection_def)
  show ?thesis
  proof (cases err)
    case True
    then show ?thesis using t assms(3) by (auto simp: post_trader_def reply_def)
  next
    case False
    obtain res m2 where s: "Spawn (spawn_outcome env) (sr_TraderID sr) (sr_Script sr) m = (res, m2)" by (metis prod.collapse)
    show ?thesis
    proof (cases res)
      case None
      with s obtain cid where
        "map_of (sandboxes m2) = (map_of (sandboxes m))(sr_TraderID sr \<mapsto> running_entry (spawn_outcome env) (sr_TraderID sr) (sr_Script sr) cid)"
        using Spawn_success_state by metis
      then show ?thesis using t assms(3) False s None by (auto simp: post_trader_def reply_def running_entry_def)
    next
      case (Some e)
      have f: "Spawn (spawn_outcome env) (sr_TraderID sr) (sr_Script sr) m = (Some e, m2)" using s Some by simp
      have "resp = reply (if e \<in> set spawn_rejections then 400 else 500) (error_body e)" "m' = m2"
        using t assms(3) False f by (simp_all add: post_trader_def spawn_refusals_eq)
      then show ?thesis using f False by (elim Spawn_failure_state) (auto simp: reply_def)
    qed
  qed
qed

definition demo_env :: trader_env where
  "demo_env = \<lparr>spawn_outcome = env_ok ''c1'', remove_outcome = Removed, log_reply = Inr [], log_demux = id, time_json = (\<lambda>_. json_string ''t'')\<rparr>"

theorem spawn_endpoint_outcomes_witness:
  "\<exists>resp. TraderHandler demo_env (demo_request ''POST'' ''/api/traders'' ''x'') empty_manager = (resp, empty_manager) \<and> resp_status resp = 400"
proof -
  let ?req = "demo_request ''POST'' ''/api/traders'' ''x''"
  have "next_token ''x'' = None"
    by (simp add: next_token_def is_space_def parse_num_def parse_unsigned_def num_int_def is_digit_def)
  then have d: "decode_stream spawn_fields (req_body ?req) zero_spawn_req = (True, zero_spawn_req)"
    by (simp add: decode_stream_def demo_request_def json_value_def) (subst scan.simps, simp)
  obtain resp m' where r: "TraderHandler demo_env ?req empty_manager = (resp, m')" by (metis prod.collapse)
  from spawn_endpoint_outcomes [OF _ _ d r] have "resp_status resp = 400 \<and> m' = empty_manager"
    by (simp add: demo_request_def)
  with r show ?thesis by blast
qed

text \<open>Every request to the trader endpoint, with any method, path and body and whatever Docker and the
  operating system answer, keeps the manager well-formed and within the cap of five sandboxes; and a request that
  is neither POST nor DELETE leaves the table of sandboxes unchanged.\<close>

theorem trader_requests_keep_cap:
  assumes "mgr_ok m" "TraderHandler env req m = (resp, m')"
  shows "mgr_ok m' \<and> active m' \<le> 5 \<and>
    (req_method req \<noteq> ''POST'' \<and> req_method req \<noteq> ''DELETE'' \<longrightarrow> sandboxes m' = sandboxes m)"
proof -
  have logs: "sandboxes (snd (ContainerLogs dm rp k tl' m)) = sandboxes m" for dm rp k tl'
    by (auto simp: ContainerLogs_def Let_def split: option.splits sum.splits)
  have mlog: "mgr_ok (snd (trader_log env k m)) \<and> sandboxes (snd (trader_log env k m)) = sandboxes m" for k
    using assms(1) logs [of "log_demux env" "log_reply env" k "''100''"]
    by (auto simp: trader_log_def mgr_ok_def entries_ok_def active_def split: prod.splits sum.splits)
  have item: "mgr_ok (snd (trader_item env req k m)) \<and>
      (req_method req \<noteq> ''DELETE'' \<longrightarrow> sandboxes (snd (trader_item env req k m)) = sandboxes m)" for k
    using assms(1) mgr_ok_Kill [OF assms(1), of "remove_outcome env" k] by (auto simp: trader_item_def split: option.splits prod.splits)
  have post: "mgr_ok (snd (post_trader env body m))" for body
    using assms(1) mgr_ok_Spawn [OF assms(1)]
    by (auto simp: post_trader_def split: prod.splits option.splits) (metis snd_conv)+
  have "mgr_ok (snd (trader_collection env req m)) \<and>
      (req_method req \<noteq> ''POST'' \<longrightarrow> sandboxes (snd (trader_collection env req m)) = sandboxes m)"
    using assms(1) post by (auto simp: trader_collection_def)
  with mlog item have "mgr_ok (snd (TraderHandler env req m)) \<and>
      (req_method req \<noteq> ''POST'' \<and> req_method req \<noteq> ''DELETE'' \<longrightarrow> sandboxes (snd (TraderHandler env req m)) = sandboxes m)"
    by (auto simp: TraderHandler_def Let_def)
  then show ?thesis using assms(2) by (simp add: mgr_ok_def maxConcurrentSandboxes_def)
qed

theorem trader_requests_keep_cap_witness:
  "\<exists>resp m'. TraderHandler demo_env (demo_request ''GET'' ''/api/traders/abc/log'' []) empty_manager = (resp, m') \<and>
     active m' \<le> 5 \<and> sandboxes m' = []"
proof -
  let ?req = "demo_request ''GET'' ''/api/traders/abc/log'' []"
  obtain resp m' where r: "TraderHandler demo_env ?req empty_manager = (resp, m')" by (metis prod.collapse)
  from trader_requests_keep_cap [OF mgr_ok_empty_manager r] r show ?thesis
    by (auto simp: demo_request_def empty_manager_def)
qed

text \<open>A deleted sandbox is still there, as stopped.\<close>

lemma get_after_delete:
  assumes "req_method del_req = ''DELETE''" "req_method get = ''GET''" "GetInfo k m = Some i"
  shows "trader_item env get k (snd (trader_item env del_req k m)) =
    (reply 200 (info_json (time_json env) (i\<lparr>Status := StatusStopped\<rparr>)), snd (trader_item env del_req k m))"
  using assms by (auto simp: trader_item_def GetInfo_def Kill_def mark_stopped_def)

end
