(* ===== verification/Protocol.thy ===== *)
theory Protocol
  imports Json
begin

text \<open>
  The reader of string members in the engine's line protocol (\<^verbatim>\<open>src/Protocol.h\<close>,
  \<^verbatim>\<open>protocol::detail::extractString\<close>).  It does not parse JSON: it searches for the quoted key followed
  by a colon and a quote, and takes everything up to the next quote.  The theory shows what that
  search finds in the objects the server writes: because the server escapes every quote inside a
  string, the search is never deceived by the contents of another member.
\<close>

section \<open>The reader\<close>

abbreviation dquote :: char where "dquote \<equiv> CHR 0x22"
abbreviation backslash :: char where "backslash \<equiv> CHR 0x5C"

definition key_needle :: "bytes \<Rightarrow> bytes" where
  "key_needle key = dquote # key @ [dquote, CHR '':'']"

definition needle_for :: "bytes \<Rightarrow> bytes" where
  "needle_for key = key_needle key @ [dquote]"

definition extractString :: "bytes \<Rightarrow> bytes \<Rightarrow> bytes" where
  "extractString json key =
     (case index_of (needle_for key) json of
        None \<Rightarrow> []
      | Some pos \<Rightarrow>
          let r = drop (pos + length (needle_for key)) json
          in (case index_of [dquote] r of
                None \<Rightarrow> []
              | Some n \<Rightarrow> take n r))"

section \<open>Searching\<close>

lemma index_of_here: "index_of p (p @ b) = Some 0"
proof (cases "p @ b")
  case (Cons x xs)
  have "prefix p (x # xs)" by (simp flip: Cons)
  then show ?thesis by (simp add: Cons)
qed simp

lemma index_of_skip:
  "(\<And>i. i < length a \<Longrightarrow> \<not> prefix p (drop i (a @ b))) \<Longrightarrow> index_of p (a @ b) = map_option ((+) (length a)) (index_of p b)"
proof (induction a)
  case Nil
  then show ?case by (simp add: option.map_ident)
next
  case (Cons x a)
  have "\<not> prefix p (x # a @ b)" using Cons.prems [of 0] by simp
  moreover have "index_of p (a @ b) = map_option ((+) (length a)) (index_of p b)"
    using Cons.prems [of "Suc i" for i] by (intro Cons.IH) auto
  ultimately show ?case by (cases "index_of p b") simp_all
qed

lemma index_of_quote: "dquote \<notin> set a \<Longrightarrow> index_of [dquote] (a @ dquote # b) = Some (length a)"
  by (induction a) auto

text \<open>What a match of the needle says about single characters.\<close>

lemma needle_match:
  assumes "prefix (key_needle key) (drop i t)"
  shows "t ! i = dquote" "\<And>j. j < length key \<Longrightarrow> t ! (Suc i + j) = key ! j"
    "t ! (Suc i + length key) = dquote" "t ! (Suc (Suc i) + length key) = CHR '':''"
proof -
  from assms obtain u where u: "drop i t = dquote # key @ [dquote, CHR '':''] @ u"
    by (auto simp: prefix_def key_needle_def)
  from arg_cong [OF this, of length] have i: "i \<le> length t" by simp
  have at: "t ! (i + n) = (dquote # key @ [dquote, CHR '':''] @ u) ! n" for n
    using u i by (metis nth_drop)
  show "t ! i = dquote" using at [of 0] by simp
  show "t ! (Suc i + j) = key ! j" if "j < length key" for j using at [of "Suc j"] that by (simp add: nth_append)
  show "t ! (Suc i + length key) = dquote" using at [of "Suc (length key)"] by (simp add: nth_append)
  show "t ! (Suc (Suc i) + length key) = CHR '':''" using at [of "Suc (Suc (length key))"] by (simp add: nth_append)
qed

text \<open>Text without quotes holds no match.\<close>

lemma no_match_plain: "dquote \<notin> set a \<Longrightarrow> i < length a \<Longrightarrow> \<not> prefix (key_needle key) (drop i (a @ b))"
  using needle_match(1) [of key i "a @ b"] by (metis nth_append nth_mem)

text \<open>Nor does another key.\<close>

lemma no_match_key:
  assumes "dquote \<notin> set k" "dquote \<notin> set key" "CHR '':'' \<notin> set key" "key \<noteq> []" "k \<noteq> key"
    and "i < length (dquote # k @ [dquote])"
  shows "\<not> prefix (key_needle key) (drop i ((dquote # k @ [dquote]) @ CHR '':'' # b))"
proof
  let ?t = "(dquote # k @ [dquote]) @ CHR '':'' # b"
  assume m: "prefix (key_needle key) (drop i ?t)"
  note f = needle_match [OF m]
  consider "i = 0" | j where "i = Suc j" "j < length k" | "i = Suc (length k)"
    using assms(6) by (cases i) (auto simp: less_Suc_eq)
  then show False
  proof cases
    case 1
    with m obtain u where "key @ dquote # CHR '':'' # u = k @ dquote # CHR '':'' # b"
      by (auto simp: prefix_def key_needle_def)
    then show False using append_sep_eq [OF assms(2,1)] assms(5) by metis
  next
    case 2
    then have "k ! j = dquote" using f(1) by (simp add: nth_append)
    with 2 assms(1) show False by (metis nth_mem)
  next
    case 3
    then have "key ! 0 = CHR '':''" using f(2) [of 0] assms(4) by (simp add: nth_append)
    with assms(3,4) show False by (metis length_greater_0_conv nth_mem)
  qed
qed

section \<open>Escaped text\<close>

text \<open>Every quote of the text follows a backslash.\<close>

definition escaped :: "bytes \<Rightarrow> bool" where
  "escaped e \<longleftrightarrow> (\<forall>i < length e. e ! i = dquote \<longrightarrow> 0 < i \<and> e ! (i - 1) = backslash)"

lemma escaped_append: "escaped a \<Longrightarrow> escaped b \<Longrightarrow> escaped (a @ b)"
  unfolding escaped_def
proof (intro allI impI)
  fix i
  assume a: "\<forall>i < length a. a ! i = dquote \<longrightarrow> 0 < i \<and> a ! (i - 1) = backslash"
    and b: "\<forall>i < length b. b ! i = dquote \<longrightarrow> 0 < i \<and> b ! (i - 1) = backslash"
    and i: "i < length (a @ b)" "(a @ b) ! i = dquote"
  show "0 < i \<and> (a @ b) ! (i - 1) = backslash"
  proof (cases "i < length a")
    case True
    then show ?thesis using a i by (auto simp: nth_append)
  next
    case False
    then have "b ! (i - length a) = dquote" "i - length a < length b" using i by (auto simp: nth_append)
    then have "0 < i - length a" "b ! (i - length a - 1) = backslash" using b by auto
    then show ?thesis using False by (auto simp: nth_append)
  qed
qed

lemma escaped_plain: "dquote \<notin> set e \<Longrightarrow> escaped e"
  unfolding escaped_def by (metis nth_mem)

lemma hex_digit_not_quote: "hex_digit (byte c div 16) \<noteq> dquote" "hex_digit (byte c mod 16) \<noteq> dquote"
  using hex_digit_byte [of "byte c div 16"] hex_digit_byte [of "byte c mod 16"] byte_bound [of c]
  by (auto simp: less_mult_imp_div_less)

lemma escaped_ascii: "escaped (escape_ascii c)"
proof (cases "c = dquote")
  case True
  then show ?thesis by (auto simp: escape_ascii_def escaped_def less_Suc_eq)
next
  case False
  then show ?thesis using hex_digit_not_quote [of c]
    by (intro escaped_plain) (auto simp: escape_ascii_def)
qed

lemma escaped_json_escape: "escaped (json_escape s)"
proof (induction s rule: length_induct)
  case (1 s)
  show ?case
  proof (cases s)
    case Nil
    then show ?thesis by (simp add: escaped_def)
  next
    case (Cons c cs)
    have ih: "escaped (json_escape (drop (Suc n) s))" for n using 1 Cons by (simp add: le_imp_less_Suc)
    let ?n = "utf8_len (c # cs)"
    have dr: "escaped (json_escape (drop ?n (c # cs)))" if "?n \<noteq> 0"
      using ih [of "?n - 1"] that by (simp add: Cons del: utf8_len.simps)
    show ?thesis
    proof (rule json_escape_step [of c cs])
      assume "json_escape (c # cs) = escape_ascii c @ json_escape cs"
      then show ?thesis using escaped_append [OF escaped_ascii] ih [of 0] by (simp add: Cons)
    next
      assume "json_escape (c # cs) = backslash # ''ufffd'' @ json_escape cs"
      then show ?thesis
        using escaped_append [OF escaped_plain [of "backslash # ''ufffd''"] ih [of 0]] by (simp add: Cons)
    next
      fix d
      assume d: "?n \<noteq> 0" "d = CHR ''8'' \<or> d = CHR ''9''"
        "json_escape (c # cs) = backslash # ''u202'' @ d # json_escape (drop ?n (c # cs))"
      have "escaped (backslash # ''u202'' @ [d])" using d(2) by (intro escaped_plain) auto
      from escaped_append [OF this dr [OF d(1)]] show ?thesis by (simp add: Cons d(3) del: utf8_len.simps)
    next
      assume d: "?n \<noteq> 0" "json_escape (c # cs) = take ?n (c # cs) @ json_escape (drop ?n (c # cs))"
      have "dquote \<notin> set (take ?n (c # cs))"
        using utf8_len_bytes [OF d(1), of dquote] by (auto simp del: utf8_len.simps)
      from escaped_append [OF escaped_plain [OF this] dr [OF d(1)]] show ?thesis by (simp add: Cons d(2) del: utf8_len.simps)
    qed
  qed
qed

text \<open>A quoted value followed by a comma holds no match, not even across its closing quote.\<close>

lemma no_match_value:
  assumes "escaped e" "key \<noteq> []" "dquote \<notin> set key" "backslash \<notin> set key" "CHR '','' \<notin> set key"
    and "i < length (dquote # e @ [dquote])"
  shows "\<not> prefix (key_needle key) (drop i ((dquote # e @ [dquote]) @ CHR '','' # b))"
proof
  let ?t = "(dquote # e @ [dquote]) @ CHR '','' # b" and ?j = "Suc i + length key"
  assume m: "prefix (key_needle key) (drop i ?t)"
  note f = needle_match [OF m]
  have last: "?t ! (?j - 1) \<noteq> backslash"
    using f(2) [of "length key - 1"] assms(2,4) by (cases key rule: rev_cases) (auto simp: nth_append)
  consider "i = Suc (length e)" | "i \<le> length e" "?j \<le> length e" | "i \<le> length e" "?j = Suc (length e)"
    | "i \<le> length e" "Suc (length e) < ?j"
    using assms(6) by force
  then show False
  proof cases
    case 1
    then have "key ! 0 = CHR '',''" using f(2) [of 0] assms(2) by (simp add: nth_append)
    with assms(2,5) show False by (metis length_greater_0_conv nth_mem)
  next
    case 2
    then have "e ! (?j - 1) = dquote" "?j - 1 < length e" using f(3) assms(2) by (auto simp: nth_append nth_Cons')
    then have "0 < ?j - 1" "e ! (?j - 1 - 1) = backslash" using assms(1) unfolding escaped_def by blast+
    then have "?t ! (?j - 1) = backslash" using \<open>?j - 1 < length e\<close> by (simp add: nth_append nth_Cons')
    with last show False by simp
  next
    case 3
    then have "?t ! Suc (Suc (length e)) = CHR '':''" using f(4) by simp
    then show False by (simp add: nth_append)
  next
    case 4
    define l where "l = length e - i"
    have l: "l < length key" "Suc i + l = Suc (length e)" using 4 by (auto simp: l_def)
    then have "key ! l = dquote" using f(2) [OF l(1)] by (simp add: nth_append del: append.simps)
    with l(1) assms(3) show False by (metis nth_mem)
  qed
qed

section \<open>Reading members of a written object\<close>

definition good_key :: "bytes \<Rightarrow> bool" where
  "good_key key \<longleftrightarrow> key \<noteq> [] \<and> dquote \<notin> set key \<and> backslash \<notin> set key \<and> CHR '':'' \<notin> set key \<and> CHR '','' \<notin> set key"

text \<open>A member before the one that is looked for: another key, and a value that is a string or has no quotes.\<close>

definition other_member :: "bytes \<Rightarrow> bytes \<times> bytes \<Rightarrow> bool" where
  "other_member key m \<longleftrightarrow> (case m of (k, t) \<Rightarrow>
     k \<noteq> key \<and> dquote \<notin> set k \<and> ((\<exists>s. t = json_string s) \<or> dquote \<notin> set t))"

lemma skip_member:
  assumes "good_key key" "other_member key (k, t)" "prefix (key_needle key) n"
  shows "index_of n ((dquote # k @ dquote # CHR '':'' # t @ [CHR '','']) @ b) =
    map_option ((+) (length (dquote # k @ dquote # CHR '':'' # t @ [CHR '','']))) (index_of n b)"
proof -
  have no: "\<not> prefix n x" if "\<not> prefix (key_needle key) x" for x using that assms(3) prefix_order.trans by blast
  have k: "k \<noteq> key" "dquote \<notin> set k" and t: "(\<exists>s. t = json_string s) \<or> dquote \<notin> set t"
    using assms(2) by (auto simp: other_member_def)
  have 1: "index_of n ((dquote # k @ [dquote]) @ CHR '':'' # t @ CHR '','' # b) =
      map_option ((+) (length (dquote # k @ [dquote]))) (index_of n (CHR '':'' # t @ CHR '','' # b))"
    by (rule index_of_skip, rule no, rule no_match_key) (use assms(1) k in \<open>auto simp: good_key_def\<close>)
  have 2: "index_of n ([CHR '':''] @ t @ CHR '','' # b) = map_option ((+) 1) (index_of n (t @ CHR '','' # b))"
    using index_of_skip [of "[CHR '':'']" n "t @ CHR '','' # b", OF no [OF no_match_plain]] by simp
  have 3: "index_of n (t @ CHR '','' # b) = map_option ((+) (length t)) (index_of n (CHR '','' # b))"
    using t
  proof
    assume "\<exists>s. t = json_string s"
    then obtain s where s: "t = dquote # json_escape s @ [dquote]" by (auto simp: json_string_def)
    show ?thesis unfolding s
      by (rule index_of_skip, rule no, rule no_match_value [OF escaped_json_escape]) (use assms(1) in \<open>auto simp: good_key_def\<close>)
  next
    assume "dquote \<notin> set t"
    then show ?thesis by (intro index_of_skip no no_match_plain)
  qed
  have 4: "index_of n ([CHR '',''] @ b) = map_option ((+) 1) (index_of n b)"
    using index_of_skip [of "[CHR '','']" n b, OF no [OF no_match_plain]] by simp
  from 1 2 3 4 show ?thesis by (cases "index_of n b") simp_all
qed

lemma json_members_Cons:
  "ms \<noteq> [] \<Longrightarrow> json_members ((k, t) # ms) = (dquote # k @ dquote # CHR '':'' # t @ [CHR '','']) @ json_members ms"
  by (cases ms) auto

lemma json_members_first: "\<exists>u. json_members ((k, t) # post) @ r = key_needle k @ t @ u \<and> u = (if post = [] then r else CHR '','' # json_members post @ r)"
  by (cases post) (auto simp: key_needle_def)

text \<open>The search stops at the member looked for.\<close>

lemma find_member:
  assumes "good_key key" "list_all (other_member key) pre" "prefix (key_needle key) n" "prefix n (key_needle key @ t)"
  shows "\<exists>a. json_members (pre @ (key, t) # post) @ r = a @ json_members ((key, t) # post) @ r \<and>
    index_of n (json_members (pre @ (key, t) # post) @ r) = Some (length a)"
  using assms(2)
proof (induction pre)
  case Nil
  obtain u where "json_members ((key, t) # post) @ r = (key_needle key @ t) @ u" using json_members_first by fastforce
  moreover obtain v where "key_needle key @ t = n @ v" using assms(4) by (auto simp: prefix_def)
  ultimately have "json_members ((key, t) # post) @ r = n @ v @ u" by simp
  then have "index_of n (json_members ((key, t) # post) @ r) = Some 0" by (simp only: index_of_here)
  then show ?case by (intro exI [of _ "[]"]) simp
next
  case (Cons m pre)
  obtain k x where m: "m = (k, x)" by (cases m)
  let ?c = "dquote # k @ dquote # CHR '':'' # x @ [CHR '','']" and ?ms = "pre @ (key, t) # post"
  obtain a where a: "json_members ?ms @ r = a @ json_members ((key, t) # post) @ r"
    "index_of n (json_members ?ms @ r) = Some (length a)"
    using Cons by auto
  have ms: "json_members ((m # pre) @ (key, t) # post) @ r = ?c @ json_members ?ms @ r"
    using json_members_Cons [of ?ms k x] by (simp add: m)
  have "index_of n (?c @ json_members ?ms @ r) = Some (length (?c @ a))"
    using skip_member [OF assms(1) _ assms(3), of k x "json_members ?ms @ r"] Cons.prems a(2) by (simp add: m)
  moreover have "?c @ json_members ?ms @ r = (?c @ a) @ json_members ((key, t) # post) @ r" using a(1) by simp
  ultimately show ?case unfolding ms by blast
qed

text \<open>The same for a whole object: the text that follows the key.\<close>

lemma find_in_object:
  assumes "good_key key" "list_all (other_member key) pre" "prefix (key_needle key) n" "prefix n (key_needle key @ t)"
  shows "\<exists>pos u. index_of n (json_object (pre @ (key, t) # post)) = Some pos \<and>
    drop pos (json_object (pre @ (key, t) # post)) = key_needle key @ t @ u \<and>
    u = (if post = [] then ''}'' else CHR '','' # json_members post @ ''}'')"
proof -
  let ?ms = "json_members (pre @ (key, t) # post) @ ''}''"
  obtain a where a: "?ms = a @ json_members ((key, t) # post) @ ''}''" "index_of n ?ms = Some (length a)"
    using find_member [OF assms] by blast
  have "index_of n (''{'' @ ?ms) = map_option ((+) 1) (index_of n ?ms)"
    using index_of_skip [of "''{''" n ?ms] no_match_plain [of "''{''" _ key ?ms] assms(3) prefix_order.trans by fastforce
  then have i: "index_of n (json_object (pre @ (key, t) # post)) = Some (Suc (length a))"
    using a(2) by (simp add: json_object_def)
  have d: "drop (Suc (length a)) (json_object (pre @ (key, t) # post)) = json_members ((key, t) # post) @ ''}''"
    using a(1) by (simp add: json_object_def)
  show ?thesis using i d json_members_first [of key t post "''}''"] by auto
qed

text \<open>The text up to the first quote, which is the whole text when it has none.\<close>

lemma index_of_quote_prefix: "index_of [dquote] (e @ dquote # u) = Some (length (takeWhile (\<lambda>c. c \<noteq> dquote) e))"
  by (induction e) auto

lemma take_to_quote: "take (length (takeWhile P e)) (e @ b) = takeWhile P e"
  by (induction e) auto

lemma extract_member:
  assumes "good_key key" "list_all (other_member key) pre"
  shows "extractString (json_object (pre @ (key, json_string s) # post)) key = takeWhile (\<lambda>c. c \<noteq> dquote) (json_escape s)"
proof -
  let ?o = "json_object (pre @ (key, json_string s) # post)"
  have "prefix (needle_for key) (key_needle key @ json_string s)" by (simp add: needle_for_def json_string_def)
  from find_in_object [OF assms _ this, of post] obtain pos u where
    i: "index_of (needle_for key) ?o = Some pos" and d: "drop pos ?o = key_needle key @ json_string s @ u"
    by (auto simp: needle_for_def)
  have "drop (pos + length (needle_for key)) ?o = drop (length (needle_for key)) (drop pos ?o)" by (simp add: add.commute)
  also have "\<dots> = json_escape s @ dquote # u" unfolding d by (simp add: needle_for_def json_string_def)
  finally show ?thesis
    unfolding extractString_def i option.case Let_def by (simp add: index_of_quote_prefix take_to_quote del: take_append)
qed

text \<open>Text of letters, digits, underscores and the like is written and read as it is.\<close>

definition bare :: "char \<Rightarrow> bool" where
  "bare c \<longleftrightarrow> 32 \<le> byte c \<and> byte c < 128 \<and> c \<noteq> dquote \<and> c \<noteq> backslash \<and> \<not> html_special c"

lemma json_escape_bare: "list_all bare s \<Longrightarrow> json_escape s = s"
  by (induction s) (auto simp: bare_def json_escape.simps(2) escape_ascii_def)

lemma extract_bare_member:
  assumes "good_key key" "list_all (other_member key) pre" "list_all bare s"
  shows "extractString (json_object (pre @ (key, json_string s) # post)) key = s"
  using extract_member [OF assms(1,2), of s post] assms(3)
  by (simp add: json_escape_bare takeWhile_eq_all_conv) (auto simp: bare_def list_all_iff)

lemma no_quote_float: "f64_finite x \<Longrightarrow> format_float x = Some t \<Longrightarrow> dquote \<notin> set t"
  using format_float_bytes [of x t dquote] by (auto simp: is_digit_def)

end
