(* ===== verification/Server.thy ===== *)
theory Server
  imports Hub Relay Sandbox_Concurrency Handlers Protocol
begin

text \<open>
  The server process (\<^verbatim>\<open>server/main.go\<close>): how the components are created, wired and shut down.  \<open>boot\<close> is
  \<^verbatim>\<open>main\<close> up to the point where its goroutines run; \<open>fan_main\<close> is one turn of the goroutine that
  hands engine events to the hub, the relay and the store; \<open>dispatch\<close> is the routing of a request to the
  handlers.  The Go components share one runner through a pointer: here it is the runner of the field
  \<open>eng\<close>, and \<open>hub_view\<close> and \<open>relay_view\<close> are the components as they see it.  \<open>server_step\<close> interleaves
  the goroutines of all components; its rules are the steps of the component models, so every
  component runs inside the server as it does alone, and the invariants of the components hold together.
\<close>

section \<open>Start-up\<close>

record flags =
  enginePath :: bytes
  dbPath :: bytes
  port :: bytes
  tickMs :: int
  makers :: int
  takers :: int
  whales :: int

definition default_flags :: flags where
  "default_flags = \<lparr>enginePath = ''../build/quantsim'', dbPath = ''./quantsim.db'', port = ''8080'',
     tickMs = 500, makers = 10, takers = 20, whales = 2\<rparr>"

definition initialCfg :: "flags \<Rightarrow> EngineConfig" where
  "initialCfg f = \<lparr>Makers = makers f, Takers = takers f, Whales = whales f, TickMs = tickMs f\<rparr>"

text \<open>Where the goroutine that forwards events is: which event it holds and what it has still to do with it.\<close>

datatype fan_phase = FanIdle | FanBroadcast event | FanRelay event | FanStore event

record server =
  eng :: engine_sys
  srv_hub :: hub
  srv_relay :: relay_sys
  srv_mgr :: mgr_sys
  srv_store :: store_sys
  srv_current :: EngineConfig
  srv_posts :: "(nat, post_phase) gomap"
  fan :: fan_phase

text \<open>What the world answers while the server starts: the database, and the creation of the Docker client.\<close>

record boot_env =
  db_env :: open_env
  docker_err :: "go_error option"

definition boot :: "(bytes \<Rightarrow> bytes) \<Rightarrow> boot_env \<Rightarrow> flags \<Rightarrow> go_error + server" where
  "boot quote env f =
     (case NewStore quote (db_env env) (dbPath f) of
        Inl e \<Rightarrow> Inl (''db: '' @ e)
      | Inr d \<Rightarrow>
          let runner = NewRunner (enginePath f) (config_args (initialCfg f)) (make_chan 500);
              hub = NewHub runner;
              relay = relay_init runner
          in (case NewManager (docker_err env) of
                Inl e \<Rightarrow> Inl (''sandbox: '' @ e)
              | Inr m \<Rightarrow>
                  Inr \<lparr>eng = engine_init runner, srv_hub = hub, srv_relay = relay,
                       srv_mgr = sys_init\<lparr>mg := m\<rparr>, srv_store = store_init d,
                       srv_current = initialCfg f, srv_posts = [], fan = FanIdle\<rparr>))"

section \<open>Forwarding engine events\<close>

definition fan_broadcast :: "event \<Rightarrow> server \<Rightarrow> server option" where
  "fan_broadcast ev s = map_option (\<lambda>h. s\<lparr>srv_hub := h, fan := FanRelay ev\<rparr>) (Broadcast (Raw ev) (srv_hub s))"

definition fan_relay :: "event \<Rightarrow> server \<Rightarrow> server option" where
  "fan_relay ev s =
     map_option (\<lambda>ch. s\<lparr>srv_relay := (srv_relay s)\<lparr>rly := (rly (srv_relay s))\<lparr>tickSub := ch\<rparr>\<rparr>, fan := FanStore ev\<rparr>)
       (offer (tickSub (rly (srv_relay s))) (Raw ev))"

text \<open>The errors of \<^verbatim>\<open>StoreTick\<close> are logged and otherwise ignored.\<close>

definition fan_store :: "go_error \<Rightarrow> go_error option \<Rightarrow> event \<Rightarrow> server \<Rightarrow> server" where
  "fan_store jerr eerr ev s =
     (if EvType ev = ''tick'' then
        (case StoreTick jerr eerr (Raw ev) (db (srv_store s)) of
           (_, stored, d) \<Rightarrow>
             s\<lparr>srv_store := (srv_store s)\<lparr>db := d,
                   tick_log := (if stored then tick_log (srv_store s) @ [last (rows d)] else tick_log (srv_store s)),
                   trims := trims (srv_store s) + (if stored then 1 else 0)\<rparr>,
               fan := FanIdle\<rparr>)
      else s\<lparr>fan := FanIdle\<rparr>)"

definition fan_main :: "go_error \<Rightarrow> go_error option \<Rightarrow> event \<Rightarrow> server \<Rightarrow> server option" where
  "fan_main jerr eerr ev s =
     (case fan_broadcast ev s of
        None \<Rightarrow> None
      | Some s1 \<Rightarrow> map_option (fan_store jerr eerr ev) (fan_relay ev s1))"

definition fan_receive :: "server \<Rightarrow> (event \<times> server) option" where
  "fan_receive s =
     (case try_recv (eventChan (rn (eng s))) of
        Received ev ch \<Rightarrow>
          Some (ev, s\<lparr>eng := (eng s)\<lparr>rn := (rn (eng s))\<lparr>eventChan := ch\<rparr>, consumed := consumed (eng s) @ [ev]\<rparr>\<rparr>)
      | _ \<Rightarrow> None)"

text \<open>The loop over the event channel, one element of the list of database outcomes per turn; it stops where the
  Go code would wait for the next event.\<close>

fun fan_loop :: "(go_error \<times> go_error option) list \<Rightarrow> server \<Rightarrow> server option" where
  "fan_loop [] s = Some s"
| "fan_loop ((jerr, eerr) # xs) s =
     (case fan_receive s of
        None \<Rightarrow> Some s
      | Some (ev, s1) \<Rightarrow> (case fan_main jerr eerr ev s1 of None \<Rightarrow> None | Some s2 \<Rightarrow> fan_loop xs s2))"

section \<open>Requests\<close>

datatype endpoint = WsEndpoint | HistoryEndpoint | ConfigEndpoint | TradersEndpoint | StaticFiles

text \<open>The patterns of the request multiplexer, for paths it does not redirect.\<close>

definition route :: "bytes \<Rightarrow> endpoint" where
  "route path =
     (if path = ''/ws'' then WsEndpoint
      else if path = ''/api/history'' then HistoryEndpoint
      else if path = ''/api/config'' then ConfigEndpoint
      else if path = ''/api/traders'' \<or> prefix ''/api/traders/'' path then TradersEndpoint
      else StaticFiles)"

text \<open>What the world decides about one request; \<open>static_files\<close> is the file server of the library, \<open>upgraded\<close>
  the client record allocated when the WebSocket handshake succeeds.\<close>

record request_env =
  restart_err :: "go_error option"
  query :: query_env
  traders :: trader_env
  upgraded :: "nat option"
  static_files :: "http_request \<Rightarrow> http_response"

text \<open>A request to the WebSocket endpoint has no reply of its own.\<close>

definition dispatch :: "request_env \<Rightarrow> http_request \<Rightarrow> server \<Rightarrow> http_response option \<times> server" where
  "dispatch env req s =
     (case route (req_path req) of
        WsEndpoint \<Rightarrow>
          (None, (case upgraded env of None \<Rightarrow> s | Some c \<Rightarrow> s\<lparr>srv_hub := ServeWS c (srv_hub s)\<rparr>))
      | HistoryEndpoint \<Rightarrow> (Some (HistoryHandler (query env) req (db (srv_store s))), s)
      | ConfigEndpoint \<Rightarrow>
          (case ConfigHandler (restart_err env) req \<lparr>current = srv_current s, cfg_runner = rn (eng s)\<rparr> of
             (resp, st) \<Rightarrow> (Some resp, s\<lparr>srv_current := current st, eng := (eng s)\<lparr>rn := cfg_runner st\<rparr>\<rparr>))
      | TradersEndpoint \<Rightarrow>
          (case TraderHandler (traders env) req (mg (srv_mgr s)) of
             (resp, m) \<Rightarrow> (Some resp, s\<lparr>srv_mgr := (srv_mgr s)\<lparr>mg := m\<rparr>\<rparr>))
      | StaticFiles \<Rightarrow> (Some (static_files env req), s))"

text \<open>After the signal: every sandbox is killed; the HTTP server and the database are closed.\<close>

definition shutdown :: "(string \<Rightarrow> remove_result) \<Rightarrow> server \<Rightarrow> server" where
  "shutdown rms s = s\<lparr>srv_mgr := (srv_mgr s)\<lparr>mg := KillAll rms (mg (srv_mgr s))\<rparr>\<rparr>"

section \<open>The whole server\<close>

definition hub_view :: "server \<Rightarrow> hub" where
  "hub_view s = (srv_hub s)\<lparr>hub_runner := rn (eng s)\<rparr>"

definition relay_view :: "server \<Rightarrow> relay_sys" where
  "relay_view s = (srv_relay s)\<lparr>rly := (rly (srv_relay s))\<lparr>rl_runner := rn (eng s)\<rparr>\<rparr>"

text \<open>The order text a browser message leads to, and the one a line of a sandbox leads to (with the state
  of its rate limiter afterwards).\<close>

definition inbound_order :: "bytes \<Rightarrow> bytes option" where
  "inbound_order raw =
     (case unmarshal inbound_fields raw zero_msg of
        (err, msg) \<Rightarrow>
          if err \<or> im_Type msg \<noteq> ''order'' \<or> \<not> validateOrder msg then None
          else marshal_engineOrder (to_engineOrder msg))"

definition sandbox_order :: "bytes \<Rightarrow> int \<Rightarrow> bytes \<Rightarrow> rl_state \<Rightarrow> (bytes \<times> rl_state) option" where
  "sandbox_order k clk raw rl =
     (if \<not> is_order raw then None
      else case rate_limit clk rl of
             (ok, rl') \<Rightarrow> if ok then map_option (\<lambda>t. (t, rl')) (marshal_relay_order k (order_of raw)) else None)"

text \<open>The runner after an attempt to send an order.\<close>

definition order_sent :: "bytes \<Rightarrow> go_error option \<Rightarrow> runner \<Rightarrow> engine_sys \<Rightarrow> engine_sys" where
  "order_sent ord res r e =
     e\<lparr>rn := r, accepted := (if res = None then accepted e @ [ord] else accepted e),
       write_failed := (write_failed e \<or> (stdinPipe r \<noteq> None \<and> res \<noteq> None))\<rparr>"

text \<open>The rules for the runner's loop, the hub, the sessions and the trims take any step of the component's own relation
  that is not one of its rules for its surroundings: the loop of the runner always changes its
  phase, a publication changes neither the hub's clients nor its history, an event pushed to the relay
  makes its queue longer, and only a trim lowers the number of trims.\<close>

inductive server_step :: "server \<Rightarrow> server \<Rightarrow> bool" where
  engine_turn:
    "runner_step (eng s) e \<Longrightarrow> phase e \<noteq> phase (eng s) \<Longrightarrow> server_step s (s\<lparr>eng := e\<rparr>)"
| signal: "server_step s (s\<lparr>eng := (eng s)\<lparr>ctx_done := True\<rparr>\<rparr>)"
| receive_event: "fan s = FanIdle \<Longrightarrow> fan_receive s = Some (ev, s') \<Longrightarrow> server_step s (s'\<lparr>fan := FanBroadcast ev\<rparr>)"
| broadcast_event: "fan s = FanBroadcast ev \<Longrightarrow> fan_broadcast ev s = Some s' \<Longrightarrow> server_step s s'"
| relay_event: "fan s = FanRelay ev \<Longrightarrow> fan_relay ev s = Some s' \<Longrightarrow> server_step s s'"
| store_event: "fan s = FanStore ev \<Longrightarrow> server_step s (fan_store jerr eerr ev s)"
| hub_turn:
    "hub_step (hub_view s) h \<Longrightarrow> heap h \<noteq> heap (srv_hub s) \<or> history h \<noteq> history (srv_hub s) \<Longrightarrow>
     hub_runner h = rn (eng s) \<Longrightarrow> server_step s (s\<lparr>srv_hub := h\<rparr>)"
| hub_order:
    "map_of (heap (srv_hub s)) c = Some cl \<Longrightarrow> reader cl = RHandling raw \<Longrightarrow> inbound_order raw = Some ord \<Longrightarrow>
     SendOrder w ord (rn (eng s)) = (res, r) \<Longrightarrow>
     server_step s (s\<lparr>srv_hub := at_client c (reader_update (\<lambda>_. RReading)) (srv_hub s), eng := order_sent ord res r (eng s)\<rparr>)"
| session_attach:
    "GoHandleSandbox k \<in> set (started (mg (srv_mgr s))) \<Longrightarrow> map_of (sessions (srv_relay s)) p = None \<Longrightarrow>
     server_step s (s\<lparr>srv_relay := (srv_relay s)\<lparr>rly := hs_attach k p (rly (srv_relay s)),
       sessions := put p \<lparr>ses_trader = k, ses_phase = SAttached, ses_rl = rl_init, ses_written = []\<rparr>
         (sessions (srv_relay s))\<rparr>\<rparr>)"
| relay_turn:
    "relay_step (relay_view s) r \<Longrightarrow> keys (sessions r) = keys (sessions (srv_relay s)) \<Longrightarrow>
     length (ch_buf (tickSub (rly r))) \<le> length (ch_buf (tickSub (rly (srv_relay s)))) \<Longrightarrow>
     rl_runner (rly r) = rn (eng s) \<Longrightarrow> server_step s (s\<lparr>srv_relay := r\<rparr>)"
| session_order:
    "map_of (sessions (srv_relay s)) p = Some x \<Longrightarrow> ses_phase x = SRunning \<Longrightarrow>
     sandbox_order (ses_trader x) clk raw (ses_rl x) = Some (ord, rl) \<Longrightarrow>
     SendOrder w ord (rn (eng s)) = (res, r) \<Longrightarrow>
     server_step s (s\<lparr>srv_relay := (srv_relay s)\<lparr>sessions := adjust p (ses_rl_update (\<lambda>_. rl)) (sessions (srv_relay s))\<rparr>,
       eng := order_sent ord res r (eng s)\<rparr>)"
| manager_turn: "mgr_step any_kill (srv_mgr s) m \<Longrightarrow> server_step s (s\<lparr>srv_mgr := m\<rparr>)"
| store_trim:
    "store_step (srv_store s) d \<Longrightarrow> trims d < trims (srv_store s) \<Longrightarrow> server_step s (s\<lparr>srv_store := d\<rparr>)"
| config_current:
    "map_of (srv_posts s) i = None \<Longrightarrow> post_check body = Inr req \<Longrightarrow>
     server_step s (s\<lparr>srv_current := req, srv_posts := put i (CurrentSet req) (srv_posts s)\<rparr>)"
| config_args:
    "map_of (srv_posts s) i = Some (CurrentSet req) \<Longrightarrow>
     server_step s (s\<lparr>eng := (eng s)\<lparr>rn := SetArgs (config_args req) (rn (eng s))\<rparr>, srv_posts := put i (ArgsSet req) (srv_posts s)\<rparr>)"
| config_restart:
    "map_of (srv_posts s) i = Some (ArgsSet req) \<Longrightarrow> Restart sig (rn (eng s)) = (res, r) \<Longrightarrow>
     server_step s (s\<lparr>eng := (eng s)\<lparr>rn := r\<rparr>, srv_posts := del i (srv_posts s)\<rparr>)"

section \<open>Every component runs as it does alone\<close>

text \<open>A part of a larger system: each step of the whole is a run of the part.  Then everything reachable by
  the part inside the whole is reachable by the part alone.\<close>

locale component_of =
  fixes whole :: "'s \<Rightarrow> 's \<Rightarrow> bool"
    and part :: "'s \<Rightarrow> 'p"
    and part_step :: "'p \<Rightarrow> 'p \<Rightarrow> bool"
  assumes moves: "whole s t \<Longrightarrow> part_step\<^sup>*\<^sup>* (part s) (part t)"
begin

lemma runs: "whole\<^sup>*\<^sup>* s t \<Longrightarrow> part_step\<^sup>*\<^sup>* (part s) (part t)"
proof (induction rule: rtranclp_induct)
  case (step t u)
  then show ?case using moves rtranclp_trans by metis
qed simp

text \<open>An invariant of the part is one of the whole.\<close>

lemma part_invariant:
  "(\<And>x y. good x \<Longrightarrow> part_step x y \<Longrightarrow> good y) \<Longrightarrow> good (part s) \<Longrightarrow> whole\<^sup>*\<^sup>* s t \<Longrightarrow> good (part t)"
proof -
  assume step: "\<And>x y. good x \<Longrightarrow> part_step x y \<Longrightarrow> good y" and s: "good (part s)" and r: "whole\<^sup>*\<^sup>* s t"
  from runs [OF r] s show "good (part t)" by (induction rule: rtranclp_induct) (auto intro: step)
qed

end

lemma engine_moves: "server_step s t \<Longrightarrow> eng t = eng s \<or> runner_step (eng s) (eng t)"
proof (induction rule: server_step.cases)
  case (hub_order s c cl raw ord w res r)
  then show ?case using runner_step.send_order [of w ord "eng s" res r] by (auto simp: order_sent_def)
next
  case (session_order s p x clk raw ord rl w res r)
  then show ?case using runner_step.send_order [of w ord "eng s" res r] by (auto simp: order_sent_def)
next
  case (receive_event s ev s')
  then show ?case
    using runner_step.consume [of "eng s"] by (auto simp: fan_receive_def split: recv_result.splits)
qed (auto simp: fan_broadcast_def fan_relay_def fan_store_def
      intro: runner_step.set_args runner_step.restart runner_step.cancel split: prod.splits)

lemma engine_runs: "server_step s t \<Longrightarrow> runner_step\<^sup>*\<^sup>* (eng s) (eng t)"
  using engine_moves by fastforce

lemma handle_inbound_order:
  "inbound_order raw = Some ord \<Longrightarrow> handle_inbound w raw ch r = Some (ch, snd (SendOrder w ord r))"
  by (auto simp: inbound_order_def handle_inbound_def split: prod.splits if_splits option.splits)

lemma relay_line_order:
  "sandbox_order k clk raw rl = Some (ord, rl') \<Longrightarrow>
   relay_line k p clk w raw (rl, r) = Some (rl', r\<lparr>rl_runner := snd (SendOrder w ord (rl_runner r))\<rparr>)"
  by (auto simp: sandbox_order_def relay_line_def is_order_def order_of_def split: prod.splits if_splits option.splits)

lemma store_runs: "server_step s t \<Longrightarrow> store_step\<^sup>*\<^sup>* (srv_store s) (srv_store t)"
proof (induction rule: server_step.cases)
  case (store_event s ev jerr eerr)
  obtain res stored d where r: "StoreTick jerr eerr (Raw ev) (db (srv_store s)) = (res, stored, d)"
    by (cases "StoreTick jerr eerr (Raw ev) (db (srv_store s))")
  show ?case using store_step.store_tick [OF r] store_event by (auto simp: fan_store_def r)
qed (auto simp: fan_receive_def fan_broadcast_def fan_relay_def split: recv_result.splits)

lemma hub_runs: "server_step s t \<Longrightarrow> hub_step\<^sup>*\<^sup>* (srv_hub s) (srv_hub t)"
proof (induction rule: server_step.cases)
  case (broadcast_event s ev s')
  then show ?case using hub_step.publish [of "Raw ev" "srv_hub s"] by (auto simp: fan_broadcast_def)
next
  case (hub_turn s h)
  have "hub_step (srv_hub s) (hub_view s)" unfolding hub_view_def by (rule hub_step.runner_moves)
  then show ?case using hub_turn by (auto intro: converse_rtranclp_into_rtranclp)
next
  case (hub_order s c cl raw ord w res r)
  let ?h = "srv_hub s" and ?r = "snd (SendOrder w ord (hub_runner (srv_hub s)))"
  let ?h1 = "at_client c (\<lambda>x. x\<lparr>send := send cl, reader := RReading\<rparr>) (?h\<lparr>hub_runner := ?r\<rparr>)"
  have "hub_step ?h ?h1"
    by (rule hub_step.handle_message [OF hub_order(3,4) handle_inbound_order [OF hub_order(5)]])
  moreover have "hub_step ?h1 (?h1\<lparr>hub_runner := hub_runner ?h\<rparr>)" by (rule hub_step.runner_moves)
  moreover have "?h1\<lparr>hub_runner := hub_runner ?h\<rparr> = at_client c (reader_update (\<lambda>_. RReading)) ?h"
    using adjust_cong [OF hub_order(3), of "\<lambda>x. x\<lparr>send := send cl, reader := RReading\<rparr>" "reader_update (\<lambda>_. RReading)"]
    by (simp add: at_client_def)
  ultimately have "hub_step\<^sup>*\<^sup>* ?h (at_client c (reader_update (\<lambda>_. RReading)) ?h)" using two_steps by metis
  then show ?case using hub_order(2) by (simp add: hub_order(1))
qed (auto simp: fan_receive_def fan_relay_def fan_store_def split: recv_result.splits prod.splits)

lemma relay_runs: "server_step s t \<Longrightarrow> relay_step\<^sup>*\<^sup>* (srv_relay s) (srv_relay t)"
proof (induction rule: server_step.cases)
  case (relay_event s ev s')
  then show ?case using relay_step.push_event [of "srv_relay s" "Raw ev"] by (auto simp: fan_relay_def)
next
  case (session_attach k s p)
  then show ?case using relay_step.attach [of "srv_relay s" p k] by auto
next
  case (relay_turn s r)
  have "relay_step (srv_relay s) (relay_view s)" unfolding relay_view_def by (rule relay_step.runner_moves)
  then show ?case using relay_turn by (auto intro: converse_rtranclp_into_rtranclp)
next
  case (session_order s p x clk raw ord rl w res r)
  let ?s = "srv_relay s"
  let ?r = "(rly ?s)\<lparr>rl_runner := snd (SendOrder w ord (rl_runner (rly ?s)))\<rparr>"
  let ?s1 = "at_session p (ses_rl_update (\<lambda>_. rl)) ?r ?s"
  have "relay_step ?s ?s1"
    by (rule relay_step.line [OF session_order(3,4) relay_line_order [OF session_order(5)]])
  moreover have "relay_step ?s1 (?s1\<lparr>rly := (rly ?s1)\<lparr>rl_runner := rl_runner (rly ?s)\<rparr>\<rparr>)" by (rule relay_step.runner_moves)
  moreover have "?s1\<lparr>rly := (rly ?s1)\<lparr>rl_runner := rl_runner (rly ?s)\<rparr>\<rparr> =
      ?s\<lparr>sessions := adjust p (ses_rl_update (\<lambda>_. rl)) (sessions ?s)\<rparr>"
    by (simp add: at_session_def)
  ultimately have "relay_step\<^sup>*\<^sup>* ?s (?s\<lparr>sessions := adjust p (ses_rl_update (\<lambda>_. rl)) (sessions ?s)\<rparr>)"
    using two_steps by metis
  then show ?case using session_order(2) by (simp add: session_order(1))
qed (auto simp: fan_receive_def fan_broadcast_def fan_store_def split: recv_result.splits prod.splits)

lemma manager_runs: "server_step s t \<Longrightarrow> (mgr_step any_kill)\<^sup>*\<^sup>* (srv_mgr s) (srv_mgr t)"
  by (induction rule: server_step.cases)
     (auto simp: fan_receive_def fan_broadcast_def fan_relay_def fan_store_def split: recv_result.splits prod.splits)

interpretation engine_part: component_of server_step eng runner_step
  by unfold_locales (rule engine_runs)

interpretation hub_part: component_of server_step srv_hub hub_step
  by unfold_locales (rule hub_runs)

interpretation relay_part: component_of server_step srv_relay relay_step
  by unfold_locales (rule relay_runs)

interpretation store_part: component_of server_step srv_store store_step
  by unfold_locales (rule store_runs)

interpretation manager_part: component_of server_step srv_mgr "mgr_step any_kill"
  by unfold_locales (rule manager_runs)

section \<open>The forwarding loop\<close>

text \<open>A line the store accepts.\<close>

definition stored_line :: "bytes \<Rightarrow> bool" where
  "stored_line raw \<longleftrightarrow> (case unmarshal tick_fields raw zero_tick of (err, t) \<Rightarrow> \<not> err \<and> tr_Type t = ''tick'')"

definition logged :: "server \<Rightarrow> bytes list" where
  "logged s = map row_raw (tick_log (srv_store s))"

lemma fan_store_logged:
  "logged (fan_store jerr None ev s) = logged s @ (if EvType ev = ''tick'' \<and> stored_line (Raw ev) then [Raw ev] else [])"
  by (auto simp: fan_store_def logged_def stored_line_def StoreTick_def insert_tick_def split: prod.splits)

lemma fan_main_ok:
  assumes "chan_live (broadcast (srv_hub s))" "chan_live (tickSub (rly (srv_relay s)))"
  shows "\<exists>t b q. fan_main jerr None ev s = Some t \<and> eng t = eng s \<and>
    offer (broadcast (srv_hub s)) (Raw ev) = Some b \<and> broadcast (srv_hub t) = b \<and> chan_live b \<and>
    offer (tickSub (rly (srv_relay s))) (Raw ev) = Some q \<and> tickSub (rly (srv_relay t)) = q \<and> chan_live q \<and>
    logged t = logged s @ (if EvType ev = ''tick'' \<and> stored_line (Raw ev) then [Raw ev] else [])"
proof -
  obtain b q where b: "offer (broadcast (srv_hub s)) (Raw ev) = Some b" and q: "offer (tickSub (rly (srv_relay s))) (Raw ev) = Some q"
    using assms go_chan.push_total by meson
  let ?s1 = "s\<lparr>srv_hub := (srv_hub s)\<lparr>broadcast := b\<rparr>, srv_relay := (srv_relay s)\<lparr>rly := (rly (srv_relay s))\<lparr>tickSub := q\<rparr>\<rparr>, fan := FanStore ev\<rparr>"
  have m: "fan_main jerr None ev s = Some (fan_store jerr None ev ?s1)"
    by (simp add: fan_main_def fan_broadcast_def fan_relay_def Broadcast_def b q)
  have keep: "eng (fan_store jerr None ev ?s1) = eng s" "srv_hub (fan_store jerr None ev ?s1) = srv_hub ?s1"
    "srv_relay (fan_store jerr None ev ?s1) = srv_relay ?s1"
    by (simp_all add: fan_store_def split: prod.splits)
  have "logged ?s1 = logged s" by (simp add: logged_def)
  then show ?thesis
    using m keep fan_store_logged [of jerr ev ?s1] b q offer_live [OF assms(1) b] offer_live [OF assms(2) q] by simp
qed

lemma fan_loop_pushes:
  assumes "ch_buf (eventChan (rn (eng s))) = evs" "length evs \<le> length xs" "\<forall>(jerr, eerr) \<in> set xs. eerr = None"
    and "chan_live (broadcast (srv_hub s))" "chan_live (tickSub (rly (srv_relay s)))"
  shows "\<exists>t. fan_loop xs s = Some t \<and> ch_buf (eventChan (rn (eng t))) = [] \<and> consumed (eng t) = consumed (eng s) @ evs \<and>
    go_chan.push_all (broadcast (srv_hub s)) (map Raw evs) = Some (broadcast (srv_hub t)) \<and>
    go_chan.push_all (tickSub (rly (srv_relay s))) (map Raw evs) = Some (tickSub (rly (srv_relay t))) \<and>
    logged t = logged s @ map Raw (filter (\<lambda>ev. EvType ev = ''tick'' \<and> stored_line (Raw ev)) evs)"
  using assms
proof (induction evs arbitrary: s xs)
  case Nil
  have "fan_loop xs s = Some s" using Nil.prems(1) by (cases xs) (auto simp: fan_receive_def try_recv_def)
  then show ?case using Nil by simp
next
  case (Cons ev evs)
  obtain jerr xs' where xs: "xs = (jerr, None) # xs'" using Cons.prems(2,3) by (cases xs) auto
  let ?e = "(eng s)\<lparr>rn := (rn (eng s))\<lparr>eventChan := (eventChan (rn (eng s)))\<lparr>ch_buf := evs\<rparr>\<rparr>, consumed := consumed (eng s) @ [ev]\<rparr>"
  have recv: "fan_receive s = Some (ev, s\<lparr>eng := ?e\<rparr>)" using Cons.prems(1) by (simp add: fan_receive_def try_recv_def)
  obtain t where t: "fan_main jerr None ev (s\<lparr>eng := ?e\<rparr>) = Some t" "eng t = ?e"
    "offer (broadcast (srv_hub s)) (Raw ev) = Some (broadcast (srv_hub t))" "chan_live (broadcast (srv_hub t))"
    "offer (tickSub (rly (srv_relay s))) (Raw ev) = Some (tickSub (rly (srv_relay t)))" "chan_live (tickSub (rly (srv_relay t)))"
    "logged t = logged s @ (if EvType ev = ''tick'' \<and> stored_line (Raw ev) then [Raw ev] else [])"
    using fan_main_ok [of "s\<lparr>eng := ?e\<rparr>" jerr ev] Cons.prems(4,5) by (auto simp: logged_def)
  have "ch_buf (eventChan (rn (eng t))) = evs" by (simp add: t(2))
  from Cons.IH [OF this _ _ t(4,6), of xs'] Cons.prems(2,3) show ?case
    by (auto simp: xs recv t)
qed

text \<open>A server started with default flags and an empty database.\<close>

definition demo_boot_env :: boot_env where
  "demo_boot_env = \<lparr>db_env = \<lparr>sql_open_err = None, wal_err = None, schema_err = None, on_disk = None\<rparr>, docker_err = None\<rparr>"

definition demo_boot :: server where
  "demo_boot = \<lparr>eng = engine_init (NewRunner (enginePath default_flags) (config_args (initialCfg default_flags)) (make_chan 500)),
     srv_hub = NewHub (NewRunner (enginePath default_flags) (config_args (initialCfg default_flags)) (make_chan 500)),
     srv_relay = relay_init (NewRunner (enginePath default_flags) (config_args (initialCfg default_flags)) (make_chan 500)),
     srv_mgr = sys_init, srv_store = store_init schema, srv_current = initialCfg default_flags, srv_posts = [], fan = FanIdle\<rparr>"

lemma demo_booted: "boot id demo_boot_env default_flags = Inr demo_boot" "table_ok (db (srv_store demo_boot))"
  by (simp_all add: boot_def demo_boot_env_def NewStore_def NewManager_def demo_boot_def sys_init_def store_init_def schema_ok Let_def)

lemma demo_tick_type: "EvType (mk_event demo_tick) = ''tick''"
  by (simp add: mk_event_def extractType_def type_marker_def demo_tick_def json_object_def json_string_def
      json_escape.simps(2) escape_ascii_def html_special_def contains_def)

text \<open>Property C26. The forwarding loop works through everything that is queued: with as many turns as there are queued events, and a
  database that accepts insertions, it empties the event channel without a panic; the hub and the relay get the events in order as far
  as their queues have room, the rest is dropped for them; and the history gets, in order and however full those
  queues are, exactly the queued ticks whose line the store can parse (a line that only looks like a tick is refused and lost).\<close>

theorem forwarding_loop_drains:
  assumes "chan_live (broadcast (srv_hub s))" "chan_live (tickSub (rly (srv_relay s)))"
    and "ch_buf (eventChan (rn (eng s))) = evs" "length evs \<le> length xs" "\<forall>(jerr, eerr) \<in> set xs. eerr = None"
  shows "\<exists>t. fan_loop xs s = Some t \<and> ch_buf (eventChan (rn (eng t))) = [] \<and>
    ch_buf (broadcast (srv_hub t)) = ch_buf (broadcast (srv_hub s)) @
      take (ch_cap (broadcast (srv_hub s)) - length (ch_buf (broadcast (srv_hub s)))) (map Raw evs) \<and>
    ch_buf (tickSub (rly (srv_relay t))) = ch_buf (tickSub (rly (srv_relay s))) @
      take (ch_cap (tickSub (rly (srv_relay s))) - length (ch_buf (tickSub (rly (srv_relay s))))) (map Raw evs) \<and>
    map row_raw (tick_log (srv_store t)) = map row_raw (tick_log (srv_store s)) @
      map Raw (filter (\<lambda>ev. EvType ev = ''tick'' \<and> stored_line (Raw ev)) evs)"
  using fan_loop_pushes [OF assms(3,4,5,1,2)] go_chan.push_all_spec [OF assms(1), of "map Raw evs"]
    go_chan.push_all_spec [OF assms(2), of "map Raw evs"]
  unfolding logged_def by fastforce

theorem forwarding_loop_drains_witness:
  "\<exists>t. fan_loop [([], None), ([], None)]
       (demo_boot\<lparr>eng := (eng demo_boot)\<lparr>rn := (rn (eng demo_boot))\<lparr>eventChan :=
          \<lparr>ch_buf = [mk_event demo_tick, mk_event ''{}''], ch_cap = 500, ch_closed = False\<rparr>\<rparr>\<rparr>\<rparr>) = Some t \<and>
     ch_buf (broadcast (srv_hub t)) = [demo_tick, ''{}''] \<and> map row_raw (tick_log (srv_store t)) = [demo_tick]"
proof -
  have "EvType (mk_event ''{}'') = []" "Raw (mk_event demo_tick) = demo_tick" "Raw (mk_event ''{}'') = ''{}''"
    by (simp_all add: mk_event_def extractType_def type_marker_def contains_def)
  moreover have "stored_line demo_tick" by (simp add: stored_line_def demo_tick_decoded) (simp add: demo_row_def)
  ultimately show ?thesis
    using forwarding_loop_drains [of "demo_boot\<lparr>eng := (eng demo_boot)\<lparr>rn := (rn (eng demo_boot))\<lparr>eventChan :=
          \<lparr>ch_buf = [mk_event demo_tick, mk_event ''{}''], ch_cap = 500, ch_closed = False\<rparr>\<rparr>\<rparr>\<rparr>"
        "[mk_event demo_tick, mk_event ''{}'']" "[([], None), ([], None)]"]
    by (auto simp: demo_boot_def NewHub_def relay_init_def NewRelay_def store_init_def schema_def demo_tick_type)
qed

section \<open>Start-up and requests\<close>

text \<open>The server starts exactly if the database opens, switches to write-ahead logging and has its schema,
  and the Docker client can be created; otherwise \<^verbatim>\<open>main\<close> stops with a message that names the part that
  failed.  When it has started, the configuration endpoint reports the command line's configuration, the engine will be started with the same, no sandbox exists,
  and the history is the table found on disk.\<close>

theorem boot_outcome:
  "((\<exists>s. boot quote env f = Inr s) \<longleftrightarrow>
     sql_open_err (db_env env) = None \<and> wal_err (db_env env) = None \<and> schema_err (db_env env) = None \<and> docker_err env = None) \<and>
   (\<forall>e. boot quote env f = Inl e \<longrightarrow> prefix ''db: '' e \<or> prefix ''sandbox: docker client: '' e) \<and>
   (\<forall>s renv req. boot quote env f = Inr s \<and> req_path req = ''/api/config'' \<and> req_method req = ''GET'' \<longrightarrow>
      dispatch renv req s = (Some (reply 200 (config_json (initialCfg f))), s) \<and>
      args (rn (eng s)) = config_args (initialCfg f) \<and> active (mg (srv_mgr s)) = 0 \<and>
      db (srv_store s) = (case on_disk (db_env env) of None \<Rightarrow> schema | Some d \<Rightarrow> d))"
  by (auto simp: boot_def NewStore_def NewManager_def Let_def dispatch_def route_def ConfigHandler_def engine_init_def
      NewRunner_def sys_init_def empty_manager_def active_def store_init_def split: option.splits sum.splits)

definition demo_request_env :: request_env where
  "demo_request_env = \<lparr>restart_err = None, query = no_errors, traders = demo_env, upgraded = None,
     static_files = (\<lambda>_. reply_empty 404)\<rparr>"

theorem boot_outcome_witness:
  "dispatch demo_request_env \<lparr>req_method = ''GET'', req_path = ''/api/config'', limit_arg = [], req_body = []\<rparr> demo_boot =
     (Some (reply 200 (config_json (initialCfg default_flags))), demo_boot)"
  using boot_outcome [of id demo_boot_env default_flags] demo_booted(1) by simp

lemma reads_keep_sandboxes:
  "req_method req = ''GET'' \<Longrightarrow> TraderHandler env req m = (resp, m') \<Longrightarrow> sandboxes m' = sandboxes m \<and> files m' = files m"
  by (auto simp: TraderHandler_def trader_collection_def trader_item_def trader_log_def ContainerLogs_def Let_def
      split: if_splits option.splits sum.splits prod.splits)

text \<open>Requests only touch the component they are addressed to, and reading is harmless: a request to the
  history or to a static file changes nothing, one to the configuration at most the configuration, the engine's arguments and its process,
  one to the traders at most the sandbox manager, and the WebSocket endpoint at most adds a client that is not
  registered yet.  A GET of the configuration changes nothing, and a GET of the traders changes neither
  their table nor their files.\<close>

theorem requests_touch_own_component:
  assumes "dispatch env req s = (resp, t)"
  shows "(case route (req_path req) of
      HistoryEndpoint \<Rightarrow> t = s
    | StaticFiles \<Rightarrow> t = s
    | WsEndpoint \<Rightarrow> t = s\<lparr>srv_hub := srv_hub t\<rparr> \<and> clients (srv_hub t) = clients (srv_hub s) \<and> broadcast (srv_hub t) = broadcast (srv_hub s)
    | ConfigEndpoint \<Rightarrow> t = s\<lparr>srv_current := srv_current t, eng := eng t\<rparr> \<and> eventChan (rn (eng t)) = eventChan (rn (eng s)) \<and>
        stdinPipe (rn (eng t)) = stdinPipe (rn (eng s)) \<and> (req_method req = ''GET'' \<longrightarrow> t = s)
    | TradersEndpoint \<Rightarrow> t = s\<lparr>srv_mgr := srv_mgr t\<rparr> \<and>
        (req_method req = ''GET'' \<longrightarrow> sandboxes (mg (srv_mgr t)) = sandboxes (mg (srv_mgr s)) \<and> files (mg (srv_mgr t)) = files (mg (srv_mgr s))))"
proof (cases "route (req_path req)")
  case ConfigEndpoint
  then show ?thesis
    using assms
    by (auto simp: dispatch_def ConfigHandler_def post_restart_def post_set_args_def post_set_current_def Restart_def SetArgs_def
        split: prod.splits if_splits sum.splits option.splits)
next
  case TradersEndpoint
  then show ?thesis using assms reads_keep_sandboxes by (fastforce simp: dispatch_def split: prod.splits)
qed (use assms in \<open>auto simp: dispatch_def ServeWS_def split: option.splits\<close>)

theorem requests_touch_own_component_witness:
  "snd (dispatch demo_request_env \<lparr>req_method = ''GET'', req_path = ''/api/history'', limit_arg = [], req_body = []\<rparr> demo_boot) = demo_boot"
  using requests_touch_own_component [OF surjective_pairing, of demo_request_env
      "\<lparr>req_method = ''GET'', req_path = ''/api/history'', limit_arg = [], req_body = []\<rparr>" demo_boot]
  by (simp add: route_def)

section \<open>Two gaps at the edges\<close>

text \<open>The flags of the command line are not checked: the server starts, reports and would run the engine with a configuration that
  its own endpoint refuses.\<close>

theorem flags_not_validated:
  "\<exists>s. boot id demo_boot_env (default_flags\<lparr>makers := 1000\<rparr>) = Inr s \<and> validate (srv_current s) = ''makers must be 0-50'' \<and>
     args (rn (eng s)) = config_args (srv_current s)"
proof -
  have "validate (initialCfg (default_flags\<lparr>makers := 1000\<rparr>)) = ''makers must be 0-50''"
    by (simp add: validate_def initialCfg_def default_flags_def)
  then show ?thesis
    by (simp add: boot_def demo_boot_env_def NewStore_def NewManager_def engine_init_def NewRunner_def Let_def)
qed

definition demo_spawn :: http_request where
  "demo_spawn = \<lparr>req_method = ''POST'', req_path = ''/api/traders'', limit_arg = [],
     req_body = json_object [(''trader_id'', json_string ''bot_1''), (''script'', json_string ''pass'')]\<rparr>"

lemma demo_spawn_decoded:
  "decode_stream spawn_fields (req_body demo_spawn) zero_spawn_req = (False, \<lparr>sr_TraderID = ''bot_1'', sr_Script = ''pass''\<rparr>)"
proof -
  let ?ms = "[(''trader_id'', json_string ''bot_1'', JStr ''bot_1''), (''script'', json_string ''pass'', JStr ''pass'')]"
  have "list_all member_ok ?ms" using encodes_string by (simp add: member_ok_def plain_key_def)
  from json_value_object [OF _ this, of "[]"] show ?thesis
    by (simp add: demo_spawn_def decode_stream_def spawn_fields_def find_field_def str_field_def zero_spawn_req_def)
qed

text \<open>The HTTP server is shut down only after the sandboxes were killed, so a request in between starts a
  container that nobody stops any more.\<close>

theorem late_spawn_survives_shutdown:
  "\<exists>t. dispatch demo_request_env demo_spawn (shutdown (\<lambda>_. Removed) demo_boot) =
       (Some (reply 200 (json_object [(''status'', json_string ''spawning''), (''trader_id'', json_string ''bot_1'')])), t) \<and>
     active (mg (srv_mgr t)) = 1"
proof -
  have m: "KillAll (\<lambda>_. Removed) empty_manager = empty_manager" by (simp add: KillAll_def empty_manager_def)
  have "traderIDRegex ''bot_1''" "length ''pass'' \<le> maxScriptBytes" by (simp_all add: traderIDRegex_def id_char_def is_digit_def maxScriptBytes_def)
  then obtain m' where s: "Spawn (env_ok ''c1'') ''bot_1'' ''pass'' empty_manager = (None, m')"
    using Spawn_env_ok_succeeds [of "''bot_1''" "''pass''" empty_manager "''c1''"] by (auto simp: empty_manager_def active_def)
  have "active m' = 1" using Spawn_success_active [OF s] by (simp add: empty_manager_def active_def)
  moreover have "post_trader demo_env (req_body demo_spawn) empty_manager =
      (reply 200 (json_object [(''status'', json_string ''spawning''), (''trader_id'', json_string ''bot_1'')]), m')"
    by (simp add: post_trader_def demo_spawn_decoded) (simp add: demo_env_def s)
  then have "TraderHandler demo_env demo_spawn empty_manager =
      (reply 200 (json_object [(''status'', json_string ''spawning''), (''trader_id'', json_string ''bot_1'')]), m')"
    by (simp add: TraderHandler_def trader_collection_def demo_spawn_def trim_prefix_def)
  ultimately show ?thesis
    by (simp add: dispatch_def shutdown_def demo_boot_def sys_init_def m demo_request_env_def)
       (simp add: route_def demo_spawn_def)
qed

end
