(* ===== verification/End_To_End.thy ===== *)
theory End_To_End
  imports Server
begin

text \<open>
  Invariants of the whole server, on top of \<open>server_step\<close>: the way of engine output to browsers and
  to the database, and the way of orders and arguments to the engine.  The components' own invariants come from their
  theories through the interpretations of \<open>component_of\<close>; what is proved here is how the components
  are connected.
\<close>

section \<open>What the engine reads of an order\<close>

lemma id_char_bare: "id_char c \<Longrightarrow> bare c"
  by (auto simp: id_char_def bare_def is_digit_def html_special_def Let_def)

lemma trader_id_bare: "traderIDRegex k \<Longrightarrow> list_all bare k"
  by (auto simp: traderIDRegex_def list_all_iff id_char_bare)

lemma bare_utf8: "list_all bare k \<Longrightarrow> valid_utf8 k"
  by (induction k) (auto simp: bare_def)

text \<open>The members before a string member of a marshalled order.\<close>

lemma relay_order_strings:
  assumes "marshal_relay_order k m = Some t" "order_msg_clean m"
  shows "extractString t ''order_id'' = takeWhile (\<lambda>c. c \<noteq> dquote) (json_escape (om_OrderID m))"
    and "extractString t ''side'' = takeWhile (\<lambda>c. c \<noteq> dquote) (json_escape (om_Side m))"
    and "extractString t ''trader_id'' = takeWhile (\<lambda>c. c \<noteq> dquote) (json_escape k)"
proof -
  obtain p q where pq: "format_float (om_Price m) = Some p" "format_float (om_Qty m) = Some q"
    using assms(1) by (auto simp: marshal_relay_order_def split: option.splits)
  let ?ty = "(''type'', json_string (if om_OrderType m = [] then ''LIMIT'' else om_OrderType m))"
  have t: "t = json_object [(''order_id'', json_string (om_OrderID m)), (''price'', p), (''qty'', q),
     (''side'', json_string (om_Side m)), (''trader_id'', json_string k), ?ty]"
    using assms(1) by (simp add: marshal_relay_order_def pq)
  have no: "dquote \<notin> set p" "dquote \<notin> set q"
    using assms(2) no_quote_float pq by (auto simp: order_msg_clean_def)
  have other: "list_all (other_member ''side'') [(''order_id'', json_string (om_OrderID m)), (''price'', p), (''qty'', q)]"
    "list_all (other_member ''trader_id'') [(''order_id'', json_string (om_OrderID m)), (''price'', p), (''qty'', q), (''side'', json_string (om_Side m))]"
    using no by (auto simp: other_member_def)
  show "extractString t ''order_id'' = takeWhile (\<lambda>c. c \<noteq> dquote) (json_escape (om_OrderID m))"
    using extract_member [of "''order_id''" "[]"] by (simp add: t good_key_def)
  show "extractString t ''side'' = takeWhile (\<lambda>c. c \<noteq> dquote) (json_escape (om_Side m))"
    using extract_member [OF _ other(1)] by (simp add: t good_key_def)
  show "extractString t ''trader_id'' = takeWhile (\<lambda>c. c \<noteq> dquote) (json_escape k)"
    using extract_member [OF _ other(2)] by (simp add: t good_key_def)
qed

lemma takeWhile_bare: "list_all bare s \<Longrightarrow> takeWhile (\<lambda>c. c \<noteq> dquote) (json_escape s) = s"
  by (simp add: json_escape_bare takeWhile_eq_all_conv) (auto simp: bare_def list_all_iff)

section \<open>What single steps keep\<close>

lemma runner_turn_keeps:
  "runner_step e e' \<Longrightarrow> phase e' \<noteq> phase e \<Longrightarrow>
   consumed e' = consumed e \<and> args (rn e') = args (rn e) \<and> (accepted e' = accepted e \<or> accepted e' = [])"
proof (induction rule: runner_step.cases)
  case (launch_ok s as l r)
  then show ?case by (auto dest: run_launch_InrD)
next
  case (read_line s raw raws r)
  then show ?case by (auto simp: forward_def)
qed (auto simp: run_clear_def)

lemma deliver_keeps: "deliver msg c h = Some h' \<Longrightarrow> broadcast h' = broadcast h \<and> history h' = history h"
  by (auto simp: deliver_def split: option.splits send_result.splits)

lemma hub_broadcast_keeps: "hub_broadcast cs msg h = Some h' \<Longrightarrow> broadcast h' = broadcast h \<and> history h' = history h"
  by (induction cs msg h rule: hub_broadcast.induct) (auto dest: deliver_keeps split: option.splits)

text \<open>Published messages wait in the queue and then move to the history.\<close>

lemma hub_turn_keeps:
  "hub_step h h' \<Longrightarrow> heap h' \<noteq> heap h \<or> history h' \<noteq> history h \<Longrightarrow>
   history h' @ ch_buf (broadcast h') = history h @ ch_buf (broadcast h)"
proof (induction rule: hub_step.cases)
  case (unregister h c cl h')
  then show ?case by (auto simp: hub_unregister_def at_client_def split: option.splits if_splits)
next
  case (run_broadcast h msg ch order h')
  then show ?case
    by (auto dest!: hub_broadcast_keeps simp: try_recv_def split: list.splits if_splits)
qed (auto simp: at_client_def hub_register_def ServeWS_def Broadcast_def)

lemma store_trim_keeps: "store_step d d' \<Longrightarrow> trims d' < trims d \<Longrightarrow> tick_log d' = tick_log d"
  by (erule store_step.cases) auto

section \<open>From the engine to browsers and to the database\<close>

text \<open>What the forwarding goroutine still holds for the hub, and for the database.\<close>

definition pending :: "server \<Rightarrow> bytes list" where
  "pending s = (case fan s of FanBroadcast ev \<Rightarrow> [Raw ev] | _ \<Rightarrow> [])"

definition unstored :: "server \<Rightarrow> bytes list" where
  "unstored s = (case fan s of FanIdle \<Rightarrow> []
     | FanBroadcast ev \<Rightarrow> if EvType ev = ''tick'' then [Raw ev] else []
     | FanRelay ev \<Rightarrow> if EvType ev = ''tick'' then [Raw ev] else []
     | FanStore ev \<Rightarrow> if EvType ev = ''tick'' then [Raw ev] else [])"

definition hub_flow :: "server \<Rightarrow> bool" where
  "hub_flow s \<longleftrightarrow>
     subseq (history (srv_hub s) @ ch_buf (broadcast (srv_hub s)) @ pending s) (map Raw (consumed (eng s)))"

definition store_flow :: "bytes list \<Rightarrow> server \<Rightarrow> bool" where
  "store_flow base s \<longleftrightarrow>
     (\<exists>ls. map row_raw (tick_log (srv_store s)) = base @ ls \<and>
        subseq (ls @ unstored s) (map Raw (filter (\<lambda>ev. EvType ev = ''tick'') (consumed (eng s)))))"

lemma Broadcast_queue:
  "Broadcast msg h = Some h' \<Longrightarrow> history h' = history h \<and>
     (ch_buf (broadcast h') = ch_buf (broadcast h) @ [msg] \<or> ch_buf (broadcast h') = ch_buf (broadcast h))"
  by (auto simp: Broadcast_def offer_def try_send_def split: if_splits)

lemma subseq_drop_last: "subseq (xs @ ys) zs \<Longrightarrow> subseq xs zs"
  by (meson prefix_imp_subseq prefixI subseq_order.trans)

lemma hub_flow_step: "server_step s t \<Longrightarrow> hub_flow s \<Longrightarrow> hub_flow t"
proof (induction rule: server_step.cases)
  case (engine_turn s e)
  then show ?case using runner_turn_keeps [of "eng s" e] by (simp add: hub_flow_def pending_def)
next
  case (receive_event s ev s')
  then show ?case
    by (auto simp: hub_flow_def pending_def fan_receive_def list_emb_append_mono simp flip: append_assoc split: recv_result.splits)
next
  case (broadcast_event s ev s')
  then show ?case
    by (auto simp: hub_flow_def pending_def fan_broadcast_def dest!: Broadcast_queue intro: subseq_drop_last simp flip: append_assoc)
next
  case (hub_turn s h)
  then show ?case using hub_turn_keeps [of "hub_view s" h] by (auto simp: hub_flow_def pending_def hub_view_def simp flip: append_assoc)
qed (auto simp: hub_flow_def pending_def fan_relay_def fan_store_def at_client_def order_sent_def split: prod.splits)

text \<open>Events are taken from the channel in the order in which the lines were printed.\<close>

lemma consumed_events: "engine_ok n e \<Longrightarrow> subseq (consumed e) (map mk_event (scanned e))"
  unfolding engine_ok_def by (blast intro: subseq_drop_last)

lemma consumed_printed: "engine_ok n e \<Longrightarrow> subseq (map Raw (consumed e)) (scanned e)"
proof -
  assume "engine_ok n e"
  from subseq_map [OF consumed_events [OF this], of Raw] show ?thesis by (simp add: mk_event_def o_def)
qed

lemma consumed_ticks_printed:
  assumes "engine_ok n e"
  shows "subseq (map Raw (filter (\<lambda>ev. EvType ev = ''tick'') (consumed e))) (filter (\<lambda>x. extractType x = ''tick'') (scanned e))"
proof -
  have "subseq (filter (\<lambda>ev. EvType ev = ''tick'') (consumed e)) (filter (\<lambda>ev. EvType ev = ''tick'') (map mk_event (scanned e)))"
    by (rule subseq_filter [OF consumed_events [OF assms]])
  from subseq_map [OF this, of Raw] show ?thesis by (simp add: mk_event_def filter_map o_def)
qed

lemma store_flow_step: "server_step s t \<Longrightarrow> store_flow base s \<Longrightarrow> store_flow base t"
proof (induction rule: server_step.cases)
  case (engine_turn s e)
  then show ?case using runner_turn_keeps [of "eng s" e] by (simp add: store_flow_def unstored_def)
next
  case (receive_event s ev s')
  then show ?case
    by (auto simp: store_flow_def unstored_def fan_receive_def list_emb_append_mono intro: subseq_drop_last split: recv_result.splits)
next
  case (store_event s ev jerr eerr)
  obtain res stored d where r: "StoreTick jerr eerr (Raw ev) (db (srv_store s)) = (res, stored, d)"
    by (cases "StoreTick jerr eerr (Raw ev) (db (srv_store s))")
  show ?case
  proof (cases "EvType ev = ''tick'' \<and> stored")
    case True
    from r True have "row_raw (last (rows d)) = Raw ev" by (auto elim!: StoreTick_cases simp: insert_tick_def)
    then show ?thesis using True store_event by (auto simp: store_flow_def unstored_def fan_store_def r)
  next
    case False
    then show ?thesis using store_event
      by (auto simp: store_flow_def unstored_def fan_store_def r intro: subseq_drop_last split: if_splits)
  qed
next
  case (store_trim s d)
  then show ?case using store_trim_keeps [of "srv_store s" d] by (simp add: store_flow_def unstored_def)
qed (auto simp: store_flow_def unstored_def fan_relay_def fan_broadcast_def order_sent_def split: prod.splits)

section \<open>From traders to the engine\<close>

text \<open>Only validated trader ids get as far as a session.\<close>

definition ids_ok :: "mgr_sys \<Rightarrow> bool" where
  "ids_ok m \<longleftrightarrow> (\<forall>k f. map_of (flights m) k = Some f \<longrightarrow> traderIDRegex k) \<and>
     (\<forall>k. GoHandleSandbox k \<in> set (started (mg m)) \<longrightarrow> traderIDRegex k)"

lemma kill_started [simp]: "started (kill_begin k m) = started m" "started (kill_end rm k m) = started m"
  by (auto simp: kill_begin_def kill_end_def stop_container_def cleanup_def mark_stopped_def removeAll_dir_def split: option.splits)

lemma ids_ok_step: "ids_ok m \<Longrightarrow> mgr_step any_kill m m' \<Longrightarrow> ids_ok m'"
proof (erule mgr_step.cases, goal_cases)
  case (1 k scr t m m1)
  then show ?case by (auto simp: ids_ok_def update_conv' reserve_InrD split: if_splits)
qed (auto simp: ids_ok_def update_conv' delete_conv' setError_def spawn_finish_def split: if_splits)

lemma started_grows: "mgr_step any_kill m m' \<Longrightarrow> set (started (mg m)) \<subseteq> set (started (mg m'))"
  by (erule mgr_step.cases) (auto simp: reserve_InrD setError_def spawn_finish_def)

lemma keys_put_absent: "map_of m p = None \<Longrightarrow> keys (put p v m) \<noteq> keys m"
  by (metis update_conv' fun_upd_same map_of_eq_None_iff option.distinct(1) list.set_map)

lemma session_trader_kept:
  assumes "relay_step r r'" "keys (sessions r') = keys (sessions r)" "map_of (sessions r') p = Some x'"
  shows "\<exists>x. map_of (sessions r) p = Some x \<and> ses_trader x' = ses_trader x"
  using assms
  by (cases rule: relay_step.cases) (auto simp: at_session_def map_of_adjust keys_put_absent split: if_splits)

definition sessions_ok :: "server \<Rightarrow> bool" where
  "sessions_ok s \<longleftrightarrow>
     (\<forall>p x. map_of (sessions (srv_relay s)) p = Some x \<longrightarrow> GoHandleSandbox (ses_trader x) \<in> set (started (mg (srv_mgr s))))"

lemma sessions_ok_step: "server_step s t \<Longrightarrow> sessions_ok s \<Longrightarrow> sessions_ok t"
proof (induction rule: server_step.cases)
  case (session_attach k s p)
  then show ?case by (auto simp: sessions_ok_def update_conv' split: if_splits)
next
  case (relay_turn s r)
  then show ?case using session_trader_kept [of "relay_view s" r] by (fastforce simp: sessions_ok_def relay_view_def)
next
  case (session_order s p x clk raw ord rl w res r)
  then show ?case by (auto simp: sessions_ok_def map_of_adjust split: if_splits)
next
  case (manager_turn s m)
  then show ?case using started_grows [of "srv_mgr s" m] by (auto simp: sessions_ok_def)
qed (auto simp: sessions_ok_def fan_receive_def fan_broadcast_def fan_relay_def fan_store_def
      split: recv_result.splits prod.splits)

text \<open>Where an order on the engine's input comes from: a valid message of a browser, or a line of a sandbox.\<close>

definition from_browser :: "bytes \<Rightarrow> bool" where
  "from_browser ord \<longleftrightarrow> (\<exists>raw. inbound_order raw = Some ord)"

definition from_sandbox :: "bytes \<Rightarrow> bytes \<Rightarrow> bool" where
  "from_sandbox k ord \<longleftrightarrow> (\<exists>raw. is_order raw \<and> marshal_relay_order k (order_of raw) = Some ord)"

definition orders_ok :: "server \<Rightarrow> bool" where
  "orders_ok s \<longleftrightarrow>
     (\<forall>ord \<in> set (accepted (eng s)). from_browser ord \<or>
        (\<exists>k. GoHandleSandbox k \<in> set (started (mg (srv_mgr s))) \<and> from_sandbox k ord))"

lemma sandbox_order_source: "sandbox_order k clk raw rl = Some (ord, rl') \<Longrightarrow> from_sandbox k ord"
  by (auto simp: sandbox_order_def from_sandbox_def split: if_splits prod.splits)

lemma orders_ok_step: "server_step s t \<Longrightarrow> sessions_ok s \<Longrightarrow> orders_ok s \<Longrightarrow> orders_ok t"
proof (induction rule: server_step.cases)
  case (engine_turn s e)
  then show ?case using runner_turn_keeps [of "eng s" e] by (auto simp: orders_ok_def)
next
  case (hub_order s c cl raw ord w res r)
  then have "from_browser ord" by (auto simp: from_browser_def)
  with hub_order show ?case by (auto simp: orders_ok_def order_sent_def)
next
  case (session_order s p x clk raw ord rl w res r)
  then have "from_sandbox (ses_trader x) ord" "GoHandleSandbox (ses_trader x) \<in> set (started (mg (srv_mgr s)))"
    by (auto simp: sessions_ok_def intro: sandbox_order_source)
  with session_order show ?case by (auto simp: orders_ok_def order_sent_def)
next
  case (manager_turn s m)
  then show ?case using started_grows [of "srv_mgr s" m] by (auto simp: orders_ok_def)
qed (auto simp: orders_ok_def fan_receive_def fan_broadcast_def fan_relay_def fan_store_def
      split: recv_result.splits prod.splits)

lemma from_browser_line: "from_browser ord \<Longrightarrow> newline \<notin> set ord"
proof -
  assume "from_browser ord"
  then obtain raw where raw: "inbound_order raw = Some ord" by (auto simp: from_browser_def)
  obtain err m where em: "unmarshal inbound_fields raw zero_msg = (err, m)" by (cases "unmarshal inbound_fields raw zero_msg")
  have m: "unmarshal inbound_fields raw zero_msg = (False, m)" "marshal_engineOrder (to_engineOrder m) = Some ord"
    using raw em by (auto simp: inbound_order_def split: if_splits)
  have "order_clean (to_engineOrder m)" by (rule to_engineOrder_clean [OF inbound_clean [OF m(1)]])
  from marshal_engineOrder_reads [OF this] m(2) show ?thesis by (metis option.inject)
qed

lemma from_sandbox_line:
  assumes "from_sandbox k ord" "traderIDRegex k"
  shows "newline \<notin> set ord" "extractString ord ''trader_id'' = k"
proof -
  obtain raw where raw: "is_order raw" "marshal_relay_order k (order_of raw) = Some ord"
    using assms(1) by (auto simp: from_sandbox_def)
  note clean = is_order_clean [OF raw(1)] and bare = trader_id_bare [OF assms(2)]
  show "newline \<notin> set ord"
    using marshal_relay_reads [OF clean bare_utf8 [OF bare]] raw(2) by (metis option.inject order_line_def)
  show "extractString ord ''trader_id'' = k"
    using relay_order_strings(3) [OF raw(2) clean] by (simp add: takeWhile_bare [OF bare])
qed

section \<open>The arguments of the engine\<close>

definition engine_args :: "(bytes list \<Rightarrow> bool) \<Rightarrow> bytes \<Rightarrow> engine_sys \<Rightarrow> bool" where
  "engine_args P path e \<longleftrightarrow> binaryPath (rn e) = path \<and> P (args (rn e)) \<and> (\<forall>as. phase e = Launching as \<longrightarrow> P as) \<and>
     (\<forall>c. cmd (rn e) = Some c \<longrightarrow> cmd_path c = path \<and> P (cmd_args c))"

lemma engine_args_step:
  "runner_step e e' \<Longrightarrow> engine_args P path e \<Longrightarrow> P (args (rn e')) \<Longrightarrow> engine_args P path e'"
proof (induction rule: runner_step.cases)
  case (launch_ok s as l r)
  then show ?case by (auto simp: engine_args_def dest!: run_launch_InrD)
next
  case (restart sig s res r)
  from restart(3) show ?case by (rule Restart_cases) (use restart in \<open>auto simp: engine_args_def\<close>)
next
  case (send_order w ord s res r)
  from send_order(3) show ?case by (rule SendOrder_cases) (use send_order in \<open>auto simp: engine_args_def\<close>)
qed (auto simp: engine_args_def forward_def SetArgs_def run_clear_def)

text \<open>A configuration of the command line or one that passed the checks of the endpoint.\<close>

definition config_known :: "flags \<Rightarrow> EngineConfig \<Rightarrow> bool" where
  "config_known f c \<longleftrightarrow> c = initialCfg f \<or> validate c = []"

definition args_known :: "flags \<Rightarrow> bytes list \<Rightarrow> bool" where
  "args_known f as \<longleftrightarrow> (\<exists>c. config_known f c \<and> as = config_args c)"

definition config_flow :: "flags \<Rightarrow> server \<Rightarrow> bool" where
  "config_flow f s \<longleftrightarrow> engine_args (args_known f) (enginePath f) (eng s) \<and> config_known f (srv_current s) \<and>
     (\<forall>i c. map_of (srv_posts s) i = Some (CurrentSet c) \<or> map_of (srv_posts s) i = Some (ArgsSet c) \<longrightarrow> validate c = [])"

lemma post_check_valid: "post_check body = Inr req \<Longrightarrow> validate req = []"
  by (auto simp: post_check_def split: prod.splits if_splits)

lemma args_moves:
  assumes "server_step s t" "config_flow f s"
  shows "args_known f (args (rn (eng t)))"
  using assms
proof (induction rule: server_step.cases)
  case (engine_turn s e)
  then show ?case using runner_turn_keeps [of "eng s" e] by (simp add: config_flow_def engine_args_def)
next
  case (config_args s i req)
  then show ?case by (auto simp: config_flow_def args_known_def config_known_def SetArgs_def)
next
  case (config_restart s i req sig res r)
  from config_restart(4) show ?case by (rule Restart_cases) (use config_restart in \<open>auto simp: config_flow_def engine_args_def\<close>)
next
  case (hub_order s c cl raw ord w res r)
  from hub_order(6) show ?case
    by (rule SendOrder_cases) (use hub_order in \<open>auto simp: config_flow_def engine_args_def order_sent_def\<close>)
next
  case (session_order s p x clk raw ord rl w res r)
  from session_order(6) show ?case
    by (rule SendOrder_cases) (use session_order in \<open>auto simp: config_flow_def engine_args_def order_sent_def\<close>)
qed (auto simp: config_flow_def engine_args_def fan_receive_def fan_broadcast_def fan_relay_def fan_store_def
      split: recv_result.splits prod.splits)

lemma posts_moves:
  assumes "server_step s t" "config_flow f s"
  shows "config_known f (srv_current t) \<and>
    (\<forall>i c. map_of (srv_posts t) i = Some (CurrentSet c) \<or> map_of (srv_posts t) i = Some (ArgsSet c) \<longrightarrow> validate c = [])"
  using assms
  by (induction rule: server_step.cases)
     (auto simp: config_flow_def config_known_def fan_receive_def fan_broadcast_def fan_relay_def fan_store_def
        update_conv' delete_conv' dest: post_check_valid split: recv_result.splits prod.splits if_splits)

lemma config_flow_step: "server_step s t \<Longrightarrow> config_flow f s \<Longrightarrow> config_flow f t"
proof -
  assume step: "server_step s t" and ok: "config_flow f s"
  have "engine_args (args_known f) (enginePath f) (eng s)" using ok by (simp add: config_flow_def)
  then have "engine_args (args_known f) (enginePath f) (eng t)"
    using engine_moves [OF step] engine_args_step args_moves [OF step ok] by metis
  then show ?thesis using posts_moves [OF step ok] by (simp add: config_flow_def)
qed

section \<open>The invariant of the server\<close>

definition server_ok :: "flags \<Rightarrow> bytes list \<Rightarrow> server \<Rightarrow> bool" where
  "server_ok f base s \<longleftrightarrow>
     engine_ok 500 (eng s) \<and> hub_ok (srv_hub s) \<and> relay_ok (srv_relay s) \<and> store_ok (srv_store s) \<and> ids_ok (srv_mgr s) \<and>
     hub_flow s \<and> store_flow base s \<and> sessions_ok s \<and> orders_ok s \<and> config_flow f s"

lemma boot_InrD:
  assumes "boot quote env f = Inr s"
  obtains d where "NewStore quote (db_env env) (dbPath f) = Inr d" "docker_err env = None"
    "s = \<lparr>eng = engine_init (NewRunner (enginePath f) (config_args (initialCfg f)) (make_chan 500)),
          srv_hub = NewHub (NewRunner (enginePath f) (config_args (initialCfg f)) (make_chan 500)),
          srv_relay = relay_init (NewRunner (enginePath f) (config_args (initialCfg f)) (make_chan 500)),
          srv_mgr = sys_init, srv_store = store_init d, srv_current = initialCfg f, srv_posts = [], fan = FanIdle\<rparr>"
  using assms
  by (auto simp: boot_def NewManager_def sys_init_def Let_def split: sum.splits option.splits)

definition booted :: "flags \<Rightarrow> bytes list \<Rightarrow> server \<Rightarrow> bool" where
  "booted f base s \<longleftrightarrow> (\<exists>quote env. boot quote env f = Inr s) \<and> table_ok (db (srv_store s)) \<and>
     base = map row_raw (rows (db (srv_store s)))"

lemma server_ok_boot: "booted f base s \<Longrightarrow> server_ok f base s"
proof -
  assume b: "booted f base s"
  then obtain quote env where boot: "boot quote env f = Inr s" by (auto simp: booted_def)
  then obtain d where s: "s = \<lparr>eng = engine_init (NewRunner (enginePath f) (config_args (initialCfg f)) (make_chan 500)),
          srv_hub = NewHub (NewRunner (enginePath f) (config_args (initialCfg f)) (make_chan 500)),
          srv_relay = relay_init (NewRunner (enginePath f) (config_args (initialCfg f)) (make_chan 500)),
          srv_mgr = sys_init, srv_store = store_init d, srv_current = initialCfg f, srv_posts = [], fan = FanIdle\<rparr>"
    by (rule boot_InrD)
  have d: "table_ok d" "base = map row_raw (rows d)" using b by (simp_all add: booted_def s store_init_def)
  have parts: "engine_ok 500 (eng s)" "hub_ok (srv_hub s)" "relay_ok (srv_relay s)" "store_ok (srv_store s)"
    using d(1) by (simp_all add: s engine_ok_init hub_ok_new relay_ok_init store_ok_init)
  have "ids_ok (srv_mgr s)" by (simp add: s ids_ok_def sys_init_def empty_manager_def)
  moreover have "hub_flow s" "store_flow base s"
    by (simp_all add: s hub_flow_def store_flow_def pending_def unstored_def NewHub_def store_init_def d(2))
  moreover have "sessions_ok s" "orders_ok s"
    by (simp_all add: s sessions_ok_def orders_ok_def relay_init_def engine_init_def)
  moreover have "config_flow f s"
    by (auto simp: s config_flow_def engine_args_def args_known_def config_known_def engine_init_def NewRunner_def)
  ultimately show ?thesis using parts by (simp add: server_ok_def)
qed

lemma server_ok_step:
  assumes "server_ok f base s" "server_step s t"
  shows "server_ok f base t"
proof -
  have parts: "engine_ok 500 (eng s)" "hub_ok (srv_hub s)" "relay_ok (srv_relay s)" "store_ok (srv_store s)" "ids_ok (srv_mgr s)"
    using assms(1) by (simp_all add: server_ok_def)
  note run = r_into_rtranclp [of server_step, OF assms(2)]
  have "engine_ok 500 (eng t)"
    using engine_part.part_invariant [of "engine_ok 500" s t, OF _ parts(1) run] engine_ok_step by blast
  moreover have "hub_ok (srv_hub t)"
    using hub_part.part_invariant [of "hub_ok" s t, OF _ parts(2) run] hub_ok_step by blast
  moreover have "relay_ok (srv_relay t)"
    using relay_part.part_invariant [of "relay_ok" s t, OF _ parts(3) run] relay_ok_step by blast
  moreover have "store_ok (srv_store t)"
    using store_part.part_invariant [of "store_ok" s t, OF _ parts(4) run] store_ok_step by blast
  moreover have "ids_ok (srv_mgr t)"
    using manager_part.part_invariant [of "ids_ok" s t, OF _ parts(5) run] ids_ok_step by blast
  ultimately show ?thesis
    using assms hub_flow_step store_flow_step sessions_ok_step orders_ok_step config_flow_step
    by (simp add: server_ok_def)
qed

interpretation whole_server: guarded_system "booted f base" server_step "server_ok f base" for f base
  by unfold_locales (auto intro: server_ok_boot server_ok_step)

lemma boot_ok:
  "boot quote env f = Inr s0 \<Longrightarrow> table_ok (db (srv_store s0)) \<Longrightarrow> server_step\<^sup>*\<^sup>* s0 s \<Longrightarrow>
   server_ok f (map row_raw (rows (db (srv_store s0)))) s"
  by (rule whole_server.reachable_good) (auto simp: booted_def)

section \<open>An example run\<close>

text \<open>The server starts with default flags and an empty database, the engine prints one tick, and a browser that connected
  before gets it and then sends an order.\<close>

definition demo_child :: "bytes \<Rightarrow> event list \<Rightarrow> runner" where
  "demo_child p evs = \<lparr>binaryPath = enginePath default_flags, args = config_args (initialCfg default_flags),
     eventChan = \<lparr>ch_buf = evs, ch_cap = 500, ch_closed = False\<rparr>, stdinPipe = Some p,
     cmd = Some \<lparr>cmd_path = enginePath default_flags, cmd_args = config_args (initialCfg default_flags),
                 cmd_Process = Some 7, cmd_sigterms = 0\<rparr>\<rparr>"

definition demo_running :: "phase \<Rightarrow> bytes list \<Rightarrow> event list \<Rightarrow> event list \<Rightarrow> engine_sys" where
  "demo_running ph ls evs done = \<lparr>rn = demo_child [] evs, phase = ph, ctx_done = False, launches = 1, scanned = ls,
     consumed = done, accepted = [], write_failed = False\<rparr>"

lemma demo_tick_line: "child_lines (demo_launch (unlines [demo_tick])) = [demo_tick]"
proof -
  have "framed maxLine [demo_tick]"
    by (simp add: framed_def demo_tick_def json_object_def json_string_def json_escape.simps(2) escape_ascii_def html_special_def
        newline_def carriage_def maxLine_def plain_line_def)
  then show ?thesis using scan_unlines by (simp add: child_lines_def demo_launch_def framed_def)
qed

lemma demo_prints:
  "server_step\<^sup>*\<^sup>* demo_boot (demo_boot\<lparr>eng := demo_running (Reading []) [demo_tick] [mk_event demo_tick] []\<rparr>)"
proof -
  let ?e0 = "eng demo_boot"
  let ?e1 = "?e0\<lparr>phase := Launching (args (rn ?e0))\<rparr>"
  note defs = demo_boot_def engine_init_def NewRunner_def demo_running_def demo_child_def make_chan_def
  have 1: "server_step demo_boot (demo_boot\<lparr>eng := ?e1\<rparr>)"
    by (rule server_step.engine_turn [OF runner_step.loop_run]) (simp_all add: defs)
  have "run_launch (demo_launch (unlines [demo_tick])) (args (rn ?e0)) (rn ?e1) = Inr (demo_child [] [])"
    by (simp add: run_launch_def demo_launch_def defs)
  from runner_step.launch_ok [of ?e1, OF _ this]
  have "runner_step ?e1 (demo_running (Reading [demo_tick]) [] [] [])"
    by (simp add: demo_tick_line) (simp add: defs)
  then have 2: "server_step (demo_boot\<lparr>eng := ?e1\<rparr>) (demo_boot\<lparr>eng := demo_running (Reading [demo_tick]) [] [] []\<rparr>)"
    using server_step.engine_turn [of "demo_boot\<lparr>eng := ?e1\<rparr>"] by (simp add: defs)
  have "runner_step (demo_running (Reading [demo_tick]) [] [] []) (demo_running (Reading []) [demo_tick] [mk_event demo_tick] [])"
    using runner_step.read_line [of "demo_running (Reading [demo_tick]) [] [] []" demo_tick "[]" "demo_child [] [mk_event demo_tick]"]
    by (simp add: defs forward_def chan_defs)
  then have 3: "server_step (demo_boot\<lparr>eng := demo_running (Reading [demo_tick]) [] [] []\<rparr>)
      (demo_boot\<lparr>eng := demo_running (Reading []) [demo_tick] [mk_event demo_tick] []\<rparr>)"
    using server_step.engine_turn [of "demo_boot\<lparr>eng := demo_running (Reading [demo_tick]) [] [] []\<rparr>"]
    by (simp add: demo_running_def)
  from 1 2 3 show ?thesis by (meson rtranclp.rtrancl_into_rtrancl rtranclp.rtrancl_refl)
qed

text \<open>The forwarding goroutine takes the tick through its sections.\<close>

definition demo_forwarded :: server where
  "demo_forwarded = demo_boot\<lparr>eng := demo_running (Reading []) [demo_tick] [] [mk_event demo_tick],
     srv_hub := (srv_hub demo_boot)\<lparr>broadcast := \<lparr>ch_buf = [demo_tick], ch_cap = 256, ch_closed = False\<rparr>\<rparr>,
     srv_relay := (srv_relay demo_boot)\<lparr>rly := (rly (srv_relay demo_boot))\<lparr>tickSub := \<lparr>ch_buf = [demo_tick], ch_cap = 256, ch_closed = False\<rparr>\<rparr>\<rparr>,
     srv_store := demo_store\<rparr>"

lemma demo_forwards: "server_step\<^sup>*\<^sup>* demo_boot demo_forwarded"
proof -
  let ?ev = "mk_event demo_tick"
  let ?s3 = "demo_boot\<lparr>eng := demo_running (Reading []) [demo_tick] [?ev] []\<rparr>"
  let ?s4 = "demo_boot\<lparr>eng := demo_running (Reading []) [demo_tick] [] [?ev], fan := FanBroadcast ?ev\<rparr>"
  let ?s5 = "?s4\<lparr>srv_hub := srv_hub demo_forwarded, fan := FanRelay ?ev\<rparr>"
  let ?s6 = "?s5\<lparr>srv_relay := srv_relay demo_forwarded, fan := FanStore ?ev\<rparr>"
  have raw: "Raw ?ev = demo_tick" by (simp add: mk_event_def)
  note defs = demo_forwarded_def demo_boot_def demo_running_def demo_child_def NewHub_def relay_init_def NewRelay_def
    fan_broadcast_def fan_relay_def fan_receive_def Broadcast_def make_chan_def chan_defs raw
  have "server_step ?s3 ?s4"
    using server_step.receive_event [of ?s3 ?ev "?s4\<lparr>fan := FanIdle\<rparr>"] by (simp add: defs)
  moreover have "server_step ?s4 ?s5" by (rule server_step.broadcast_event [of _ ?ev]) (simp_all add: defs)
  moreover have "server_step ?s5 ?s6" by (rule server_step.relay_event [of _ ?ev]) (simp_all add: defs)
  moreover have "fan_store [] None ?ev ?s6 = demo_forwarded"
    by (simp add: fan_store_def demo_tick_type raw demo_stored demo_boot_def demo_forwarded_def store_init_def demo_store_def schema_def)
  then have "server_step ?s6 demo_forwarded"
    using server_step.store_event [of ?s6 ?ev "[]" None] by simp
  ultimately show ?thesis using demo_prints by (meson rtranclp.rtrancl_into_rtrancl)
qed

text \<open>A browser connects, gets the tick, and its order is being handled.\<close>

definition demo_client :: client where
  "demo_client = \<lparr>send = \<lparr>ch_buf = [demo_tick], ch_cap = 256, ch_closed = False\<rparr>, conn_closed = False, writer_done = False,
     reader = RHandling demo_order, taken = [], got = [demo_tick], joined = 0\<rparr>"

definition demo_served :: server where
  "demo_served = demo_forwarded\<lparr>srv_hub := \<lparr>clients = [1], broadcast = make_chan 256, hub_runner = demo_child [] [],
     heap = [(1, demo_client)], history = [demo_tick]\<rparr>\<rparr>"

lemma demo_hub_turn:
  "hub_step (h\<lparr>hub_runner := demo_child [] []\<rparr>) h' \<Longrightarrow> heap h' \<noteq> heap h \<or> history h' \<noteq> history h \<Longrightarrow>
   hub_runner h' = demo_child [] [] \<Longrightarrow> server_step (demo_forwarded\<lparr>srv_hub := h\<rparr>) (demo_forwarded\<lparr>srv_hub := h'\<rparr>)"
  using server_step.hub_turn [of "demo_forwarded\<lparr>srv_hub := h\<rparr>" h']
  by (simp add: hub_view_def demo_forwarded_def demo_running_def)

lemma demo_serves: "server_step\<^sup>*\<^sup>* demo_boot demo_served"
proof -
  let ?q = "\<lparr>ch_buf = [demo_tick], ch_cap = 256, ch_closed = False\<rparr>"
  let ?h = "\<lambda>cs b hp hist. \<lparr>clients = cs, broadcast = b, hub_runner = demo_child [] [], heap = hp, history = hist\<rparr>"
  let ?c2 = "new_client\<lparr>reader := RReading, joined := 0\<rparr>"
  let ?c3 = "demo_client\<lparr>reader := RReading\<rparr>"
  have 1: "server_step demo_forwarded (demo_forwarded\<lparr>srv_hub := ?h [] ?q [(1, new_client)] []\<rparr>)"
    using demo_hub_turn [OF hub_step.connect [of _ 1], of "srv_hub demo_forwarded"]
    by (simp add: demo_forwarded_def demo_boot_def NewHub_def ServeWS_def)
  have "hub_step (?h [] ?q [(1, new_client)] []) (?h [1] ?q [(1, ?c2)] [])"
    using hub_step.register [of "?h [] ?q [(1, new_client)] []" 1 new_client]
    by (simp add: new_client_def at_client_def hub_register_def)
  then have 2: "server_step (demo_forwarded\<lparr>srv_hub := ?h [] ?q [(1, new_client)] []\<rparr>) (demo_forwarded\<lparr>srv_hub := ?h [1] ?q [(1, ?c2)] []\<rparr>)"
    by (intro demo_hub_turn) (simp_all add: new_client_def)
  have "hub_step (?h [1] ?q [(1, ?c2)] []) (?h [1] (make_chan 256) [(1, ?c3)] [demo_tick])"
    by (rule hub_step.run_broadcast [of _ demo_tick "make_chan 256" "[1]"])
       (simp_all add: go_eval deliver_def new_client_def demo_client_def)
  then have 3: "server_step (demo_forwarded\<lparr>srv_hub := ?h [1] ?q [(1, ?c2)] []\<rparr>) (demo_forwarded\<lparr>srv_hub := ?h [1] (make_chan 256) [(1, ?c3)] [demo_tick]\<rparr>)"
    by (intro demo_hub_turn) simp_all
  have "hub_step (?h [1] (make_chan 256) [(1, ?c3)] [demo_tick]) (srv_hub demo_served)"
    using hub_step.read_message [of "?h [1] (make_chan 256) [(1, ?c3)] [demo_tick]" 1 ?c3 demo_order]
    by (simp add: at_client_def demo_served_def demo_client_def)
  then have 4: "server_step (demo_forwarded\<lparr>srv_hub := ?h [1] (make_chan 256) [(1, ?c3)] [demo_tick]\<rparr>) demo_served"
    using demo_hub_turn [of "?h [1] (make_chan 256) [(1, ?c3)] [demo_tick]" "srv_hub demo_served"]
    by (simp add: demo_served_def demo_client_def)
  from 1 2 3 4 show ?thesis using demo_forwards by (meson rtranclp.rtrancl_into_rtrancl)
qed

end
