(* ===== verification/Float_Arith.thy ===== *)
theory Float_Arith
  imports Float64
begin

text \<open>
  Arithmetic and comparison of binary64 numbers as the C++ engine uses them: the exact result is
  rounded to nearest, ties to even; overflow gives an infinity, an undefined result a NaN; comparisons with a NaN
  are false.  The lemmas are the facts the engine's proofs rest on: rounding is monotone, numbers of one
  grid are added and subtracted exactly, and subtracting a smaller number never gives zero.
\<close>

section \<open>Operations\<close>

text \<open>An exact result as a number; the flag is the sign of an exact zero.\<close>

definition f64_signed :: "bool \<Rightarrow> rat \<Rightarrow> float64" where
  "f64_signed z v = (if v = 0 then F64 z 0 else to_f64 (v < 0) \<bar>v\<bar>)"

fun f64_neg :: "float64 \<Rightarrow> float64" where
  "f64_neg (F64 s q) = F64 (\<not> s) q"
| "f64_neg (F64Inf s) = F64Inf (\<not> s)"
| "f64_neg F64NaN = F64NaN"

fun f64_add :: "float64 \<Rightarrow> float64 \<Rightarrow> float64" where
  "f64_add (F64 a x) (F64 b y) = f64_signed (a \<and> b) (f64_val (F64 a x) + f64_val (F64 b y))"
| "f64_add (F64Inf a) (F64 b y) = F64Inf a"
| "f64_add (F64 a x) (F64Inf b) = F64Inf b"
| "f64_add (F64Inf a) (F64Inf b) = (if a = b then F64Inf a else F64NaN)"
| "f64_add _ _ = F64NaN"

definition f64_sub :: "float64 \<Rightarrow> float64 \<Rightarrow> float64" where
  "f64_sub x y = f64_add x (f64_neg y)"

fun f64_mul :: "float64 \<Rightarrow> float64 \<Rightarrow> float64" where
  "f64_mul (F64 a x) (F64 b y) = to_f64 (a \<noteq> b) (x * y)"
| "f64_mul (F64Inf a) (F64 b y) = (if y = 0 then F64NaN else F64Inf (a \<noteq> b))"
| "f64_mul (F64 a x) (F64Inf b) = (if x = 0 then F64NaN else F64Inf (a \<noteq> b))"
| "f64_mul (F64Inf a) (F64Inf b) = F64Inf (a \<noteq> b)"
| "f64_mul _ _ = F64NaN"

fun f64_div :: "float64 \<Rightarrow> float64 \<Rightarrow> float64" where
  "f64_div (F64 a x) (F64 b y) =
     (if y = 0 then (if x = 0 then F64NaN else F64Inf (a \<noteq> b)) else to_f64 (a \<noteq> b) (x / y))"
| "f64_div (F64Inf a) (F64 b y) = F64Inf (a \<noteq> b)"
| "f64_div (F64 a x) (F64Inf b) = F64 (a \<noteq> b) 0"
| "f64_div _ _ = F64NaN"

fun f64_lt :: "float64 \<Rightarrow> float64 \<Rightarrow> bool" where
  "f64_lt (F64 a x) (F64 b y) = (f64_val (F64 a x) < f64_val (F64 b y))"
| "f64_lt (F64Inf a) (F64 b y) = a"
| "f64_lt (F64 a x) (F64Inf b) = (\<not> b)"
| "f64_lt (F64Inf a) (F64Inf b) = (a \<and> \<not> b)"
| "f64_lt _ _ = False"

fun f64_eq :: "float64 \<Rightarrow> float64 \<Rightarrow> bool" where
  "f64_eq (F64 a x) (F64 b y) = (f64_val (F64 a x) = f64_val (F64 b y))"
| "f64_eq (F64Inf a) (F64Inf b) = (a = b)"
| "f64_eq _ _ = False"

definition f64_le :: "float64 \<Rightarrow> float64 \<Rightarrow> bool" where
  "f64_le x y \<longleftrightarrow> f64_lt x y \<or> f64_eq x y"

text \<open>\<^verbatim>\<open>std::min(a, b)\<close>\<close>

definition f64_min :: "float64 \<Rightarrow> float64 \<Rightarrow> float64" where
  "f64_min a b = (if f64_lt b a then b else a)"

text \<open>A constant of the source text.\<close>

definition f64_const :: "rat \<Rightarrow> float64" where
  "f64_const q = f64_signed False q"

section \<open>Rounding\<close>

lemma round_half_even_mono: "p \<le> q \<Longrightarrow> round_half_even p \<le> round_half_even q"
proof -
  assume le: "p \<le> q"
  then have f: "\<lfloor>p\<rfloor> \<le> \<lfloor>q\<rfloor>" by (rule floor_mono)
  show ?thesis
  proof (cases "\<lfloor>p\<rfloor> = \<lfloor>q\<rfloor>")
    case True
    then show ?thesis using le by (auto simp: round_half_even_def Let_def)
  next
    case False
    with f have "\<lfloor>p\<rfloor> + 1 \<le> \<lfloor>q\<rfloor>" by simp
    then show ?thesis by (auto simp: round_half_even_def Let_def)
  qed
qed

lemma flog2_mono: "0 < p \<Longrightarrow> p \<le> q \<Longrightarrow> flog 2 p \<le> flog 2 q"
proof -
  assume p: "0 < p" "p \<le> q"
  then have "rat_of_nat 2 powi flog 2 p < rat_of_nat 2 powi (flog 2 q + 1)"
    using flog_bounds(1) [of p 2] flog_bounds(2) [of q 2] by simp
  then show ?thesis using powi_mono_rev [of "rat_of_nat 2" "flog 2 p" "flog 2 q + 1"] by simp
qed

lemma f64_round_mono:
  assumes "0 \<le> p" "p \<le> q"
  shows "f64_round p \<le> f64_round q"
proof (cases "p = 0")
  case True
  then show ?thesis using f64_round_nonneg [of q] assms by (simp add: f64_round_def [of 0])
next
  case False
  then have p: "0 < p" "0 < q" using assms by simp_all
  let ?u = "ulp_exp p" and ?v = "ulp_exp q"
  have rp: "f64_round p = of_int (round_half_even (p / 2 powi ?u)) * 2 powi ?u" using p by (simp add: f64_round_def)
  have rq: "f64_round q = of_int (round_half_even (q / 2 powi ?v)) * 2 powi ?v" using p by (simp add: f64_round_def)
  have uv: "?u \<le> ?v" using flog2_mono [OF p(1) assms(2)] by (simp add: ulp_exp_def)
  show ?thesis
  proof (cases "?u = ?v")
    case True
    have "p / 2 powi ?v \<le> q / 2 powi ?v" using assms(2) by (intro divide_right_mono) simp_all
    then have "round_half_even (p / 2 powi ?v) \<le> round_half_even (q / 2 powi ?v)" by (rule round_half_even_mono)
    then show ?thesis unfolding rp rq True by simp
  next
    case False
    then have lt: "?u < ?v" using uv by simp
    then have v: "?v = flog 2 q - 52" by (auto simp: ulp_exp_def max_def split: if_splits)
    have "f64_round p \<le> 2 ^ 53 * 2 powi ?u"
    proof -
      have "rat_of_int (round_half_even (p / 2 powi ?u)) \<le> of_int (2 ^ 53)"
        using round_significand(2) [OF p(1)] by (simp only: of_int_le_iff)
      then show ?thesis unfolding rp by (intro mult_right_mono) simp_all
    qed
    also have "\<dots> = 2 powi (?u + 53)" by (subst power_int_add) simp_all
    also have "\<dots> \<le> 2 powi (?v + 52)" by (rule power_int_increasing) (use lt in simp_all)
    also have "\<dots> = of_int (2 ^ 52) * 2 powi ?v" by (subst power_int_add) simp_all
    also have "\<dots> \<le> of_int (round_half_even (q / 2 powi ?v)) * 2 powi ?v"
    proof -
      have "2 powi (?v + 52) \<le> q" using flog_bounds(1) [OF p(2), of 2] by (simp add: v)
      then have "of_int (2 ^ 52) \<le> q / 2 powi ?v" by (simp add: power_int_add field_simps)
      then have "2 ^ 52 \<le> round_half_even (q / 2 powi ?v)" by (rule round_half_even_mono_int(1))
      then have "rat_of_int (2 ^ 52) \<le> of_int (round_half_even (q / 2 powi ?v))" by (simp only: of_int_le_iff)
      then show ?thesis by (intro mult_right_mono) simp_all
    qed
    finally show ?thesis unfolding rq .
  qed
qed

lemma f64_mag_tiny: "f64_mag (2 powi (- 1074))"
proof -
  have "(2::rat) powi (- 1074) < 2 powi 1024" by (rule power_int_strict_increasing) simp_all
  then show ?thesis using f64_round_dyadic [of 1 "- 1074"] by (simp add: f64_mag_def)
qed

text \<open>Every finite magnitude is a multiple of the smallest one.\<close>

lemma f64_mag_multiple:
  assumes "f64_mag q"
  obtains m :: nat where "q = of_nat m * 2 powi (- 1074)"
proof (cases "q = 0")
  case True
  then show ?thesis using that [of 0] by simp
next
  case False
  then have pos: "0 < q" using assms by (simp add: f64_mag_def)
  define u where "u = ulp_exp q"
  define m where "m = round_half_even (q / 2 powi u)"
  have q: "q = of_int m * 2 powi u" using assms pos by (auto simp: f64_mag_def f64_round_def m_def u_def)
  have m: "0 \<le> m" using round_significand [OF pos] by (simp add: m_def u_def)
  have u: "0 \<le> u + 1074" by (simp add: u_def ulp_exp_def)
  have "(2::rat) powi u = 2 powi ((u + 1074) + (- 1074))" by simp
  also have "\<dots> = 2 powi (u + 1074) * 2 powi (- 1074)" by (subst power_int_add) simp_all
  also have "(2::rat) powi (u + 1074) = 2 ^ nat (u + 1074)" by (rule powi_nat [OF u])
  finally show ?thesis using that [of "nat m * 2 ^ nat (u + 1074)"] q m by simp
qed

lemma f64_round_mag: "0 \<le> q \<Longrightarrow> f64_round q < 2 ^ 1024 \<Longrightarrow> f64_mag (f64_round q)"
  by (simp add: f64_mag_def f64_round_nonneg f64_round_idem)

text \<open>Gradual underflow: a difference of different numbers is not rounded to zero, and it is rounded within the larger one.\<close>

lemma f64_round_diff:
  assumes "f64_mag x" "f64_mag y" "y < x"
  shows "f64_mag (f64_round (x - y))" "0 < f64_round (x - y)" "f64_round (x - y) \<le> x"
proof -
  obtain m n where m: "x = of_nat m * 2 powi (- 1074)" and n: "y = of_nat n * 2 powi (- 1074)"
    using f64_mag_multiple assms(1,2) by metis
  have "rat_of_nat n < of_nat m" using assms(3) by (simp add: m n)
  then have "Suc n \<le> m" by simp
  then have "rat_of_nat (Suc n) \<le> of_nat m" by (simp only: of_nat_le_iff)
  then have "2 powi (- 1074) \<le> x - y" unfolding m n by (simp add: left_diff_distrib [symmetric])
  then have "f64_round (2 powi (- 1074)) \<le> f64_round (x - y)" by (intro f64_round_mono) simp_all
  moreover have "f64_round (2 powi (- 1074)) = 2 powi (- 1074)" using f64_mag_tiny by (simp add: f64_mag_def)
  ultimately have "2 powi (- 1074) \<le> f64_round (x - y)" by simp
  then show "0 < f64_round (x - y)" by (rule less_le_trans [rotated]) simp
  have "f64_round (x - y) \<le> f64_round x"
    by (rule f64_round_mono) (use assms in \<open>simp_all add: f64_mag_def\<close>)
  then show le: "f64_round (x - y) \<le> x" using assms(1) by (simp add: f64_mag_def)
  show "f64_mag (f64_round (x - y))"
    by (rule f64_round_mag) (use assms le in \<open>auto simp: f64_mag_def\<close>)
qed

section \<open>Positive numbers\<close>

fun f64_pos :: "float64 \<Rightarrow> bool" where
  "f64_pos (F64 s q) = (\<not> s \<and> 0 < q \<and> f64_mag q)"
| "f64_pos (F64Inf s) = (\<not> s)"
| "f64_pos F64NaN = False"

definition fin_pos :: "float64 \<Rightarrow> bool" where
  "fin_pos x \<longleftrightarrow> f64_finite x \<and> f64_pos x"

lemma fin_posE:
  assumes "fin_pos x"
  obtains q where "x = F64 False q" "0 < q" "f64_mag q"
  using assms by (cases x) (auto simp: fin_pos_def)

lemma f64_posE:
  assumes "f64_pos x"
  obtains (fin) q where "x = F64 False q" "0 < q" "f64_mag q" | (inf) "x = F64Inf False"
  using assms by (cases x) auto

lemma fin_pos_simp [simp]: "fin_pos (F64 s q) \<longleftrightarrow> \<not> s \<and> 0 < q \<and> f64_mag q"
  by (auto simp: fin_pos_def)

lemma to_f64_pos: "0 < r \<Longrightarrow> 0 < f64_round r \<Longrightarrow> f64_pos (to_f64 False r)"
  by (auto simp: to_f64_def Let_def intro: f64_round_mag)

lemma f64_mag_to_f64: "f64_mag q \<Longrightarrow> to_f64 s q = F64 s q"
  by (simp add: to_f64_def f64_mag_def)

lemma f64_signed_mag: "f64_mag q \<Longrightarrow> f64_signed False q = F64 False q"
  using f64_mag_to_f64 [of q False] by (auto simp: f64_signed_def f64_mag_def)

lemma f64_add_pos:
  assumes "f64_pos x" "f64_pos y"
  shows "f64_pos (f64_add x y)"
proof (cases "f64_finite x \<and> f64_finite y")
  case True
  then obtain a b where x: "x = F64 False a" "0 < a" "f64_mag a" and y: "y = F64 False b" "0 < b" "f64_mag b"
    using assms by (metis f64_posE f64_finite.simps(2))
  have "f64_round a \<le> f64_round (a + b)" by (rule f64_round_mono) (use x y in simp_all)
  then have "0 < f64_round (a + b)" using x by (simp add: f64_mag_def)
  then show ?thesis using x y to_f64_pos [of "a + b"] by (simp add: f64_signed_def)
next
  case False
  then show ?thesis using assms by (elim f64_posE) auto
qed

lemma f64_zero_add: "f64_pos y \<Longrightarrow> f64_add f64_zero y = y"
  by (erule f64_posE) (simp_all add: f64_zero_def f64_signed_def f64_mag_to_f64)

lemma f64_sub_self: "fin_pos x \<Longrightarrow> f64_sub x x = F64 False 0"
  by (erule fin_posE) (simp add: f64_sub_def f64_signed_def)

lemma f64_sub_fin:
  assumes "fin_pos x" "fin_pos y" "f64_lt y x"
  shows "fin_pos (f64_sub x y)" "f64_le (f64_sub x y) x"
proof -
  obtain a b where x: "x = F64 False a" "0 < a" "f64_mag a" and y: "y = F64 False b" "0 < b" "f64_mag b"
    using assms(1,2) fin_posE by metis
  have lt: "b < a" using assms(3) by (simp add: x y)
  note d = f64_round_diff [OF x(3) y(3) lt]
  have "f64_round (a - b) < 2 ^ 1024" using d(1) by (simp add: f64_mag_def)
  then have s: "f64_sub x y = F64 False (f64_round (a - b))"
    using lt by (simp add: x y f64_sub_def f64_signed_def to_f64_def)
  show "fin_pos (f64_sub x y)" unfolding s using d by simp
  show "f64_le (f64_sub x y) x" unfolding s using d by (auto simp: x(1) f64_le_def)
qed

lemma f64_sub_pos:
  assumes "f64_pos x" "fin_pos y" "f64_lt y x"
  shows "f64_pos (f64_sub x y)"
  using assms(1)
proof (cases rule: f64_posE)
  case fin
  then show ?thesis using f64_sub_fin(1) [OF _ assms(2,3)] by (simp add: fin_pos_def)
next
  case inf
  then show ?thesis using assms(2) by (elim fin_posE) (simp add: f64_sub_def)
qed

lemma f64_pos_order:
  assumes "f64_pos x" "f64_pos y"
  shows "f64_lt x y \<or> x = y \<or> f64_lt y x" "\<not> (f64_lt x y \<and> f64_lt y x)" "\<not> f64_lt x x" "f64_eq x y \<longleftrightarrow> x = y"
  using assms by (auto elim!: f64_posE)

lemma f64_lt_trans: "f64_lt x y \<Longrightarrow> f64_lt y z \<Longrightarrow> f64_lt x z"
  by (cases x; cases y; cases z) (auto split: if_splits)

lemma f64_pos_gt0 [simp]: "f64_pos x \<Longrightarrow> f64_lt f64_zero x" "f64_pos x \<Longrightarrow> \<not> f64_eq x f64_zero" "f64_pos x \<Longrightarrow> \<not> f64_le0 x"
  by (auto elim!: f64_posE simp: f64_zero_def)

section \<open>Numbers of one grid\<close>

text \<open>The multiples of \<open>2\<^sup>e\<close> with a significand of 53 bits: sums and differences that stay among them are exact.\<close>

definition grid :: "int \<Rightarrow> float64 \<Rightarrow> bool" where
  "grid e x \<longleftrightarrow> (\<exists>m::nat. m < 2 ^ 53 \<and> x = F64 False (of_nat m * 2 powi e))"

definition grid_exp :: "int \<Rightarrow> bool" where
  "grid_exp e \<longleftrightarrow> - 1074 \<le> e \<and> e \<le> 971"

lemma grid_mag:
  assumes "grid_exp e" "m < 2 ^ 53"
  shows "f64_mag (of_nat m * 2 powi e)"
proof (cases "m = 0")
  case True
  then show ?thesis by (simp add: f64_mag_def f64_round_def)
next
  case False
  have "rat_of_nat m < of_nat (2 ^ 53)" using assms(2) by (simp only: of_nat_less_iff)
  then have "of_nat m * 2 powi e < 2 ^ 53 * (2::rat) powi e" by simp
  also have "\<dots> = 2 powi (e + 53)" by (subst power_int_add) simp_all
  also have "\<dots> \<le> 2 powi 1024" by (rule power_int_increasing) (use assms(1) in \<open>simp_all add: grid_exp_def\<close>)
  finally have "of_nat m * 2 powi e < (2::rat) ^ 1024" by simp
  moreover have "f64_round (of_int (int m) * 2 powi e) = of_int (int m) * 2 powi e"
    by (rule f64_round_dyadic) (use False assms in \<open>simp_all add: grid_exp_def\<close>)
  ultimately show ?thesis by (simp add: f64_mag_def)
qed

lemma grid_fin_pos: "grid_exp e \<Longrightarrow> grid e x \<Longrightarrow> f64_val x \<noteq> 0 \<Longrightarrow> fin_pos x"
  by (auto simp: grid_def grid_mag)

lemma grid_sub:
  assumes "grid_exp e" "grid e x" "grid e y" "f64_val y \<le> f64_val x"
  shows "grid e (f64_sub x y)" "f64_val (f64_sub x y) = f64_val x - f64_val y"
proof -
  obtain m n where m: "x = F64 False (of_nat m * 2 powi e)" "m < 2 ^ 53" and n: "y = F64 False (of_nat n * 2 powi e)"
    using assms(2,3) by (auto simp: grid_def)
  have le: "n \<le> m" using assms(4) by (simp add: m n)
  have d: "of_nat m * (2::rat) powi e - of_nat n * 2 powi e = of_nat (m - n) * 2 powi e"
    using le by (simp add: of_nat_diff algebra_simps)
  have "f64_mag (of_nat (m - n) * 2 powi e)" by (rule grid_mag [OF assms(1)]) (use m in simp)
  then have "f64_signed False (of_nat (m - n) * 2 powi e) = F64 False (of_nat (m - n) * 2 powi e)"
    by (rule f64_signed_mag)
  then have "f64_sub x y = F64 False (of_nat (m - n) * 2 powi e)"
    unfolding d [symmetric] by (simp add: m n f64_sub_def)
  then show "grid e (f64_sub x y)" "f64_val (f64_sub x y) = f64_val x - f64_val y"
    using m d by (auto simp: grid_def n)
qed

lemma grid_add:
  assumes "grid_exp e" "grid e x" "grid e y" "f64_val x + f64_val y < 2 powi (e + 53)"
  shows "grid e (f64_add x y)" "f64_val (f64_add x y) = f64_val x + f64_val y"
proof -
  obtain m n where m: "x = F64 False (of_nat m * 2 powi e)" "m < 2 ^ 53" and n: "y = F64 False (of_nat n * 2 powi e)"
    using assms(2,3) by (auto simp: grid_def)
  have d: "of_nat m * (2::rat) powi e + of_nat n * 2 powi e = of_nat (m + n) * 2 powi e"
    by (simp add: algebra_simps)
  have "of_nat (m + n) * 2 powi e < (2::rat) ^ 53 * 2 powi e"
    using assms(4) d by (simp add: m n power_int_add mult.commute)
  then have "rat_of_nat (m + n) < of_nat (2 ^ 53)" by simp
  then have mn: "m + n < 2 ^ 53" by (simp only: of_nat_less_iff)
  have "f64_mag (of_nat (m + n) * 2 powi e)" by (rule grid_mag [OF assms(1) mn])
  then have "f64_signed False (of_nat (m + n) * 2 powi e) = F64 False (of_nat (m + n) * 2 powi e)"
    by (rule f64_signed_mag)
  then have "f64_add x y = F64 False (of_nat (m + n) * 2 powi e)"
    unfolding d [symmetric] by (simp add: m n)
  then show "grid e (f64_add x y)" "f64_val (f64_add x y) = f64_val x + f64_val y"
    using mn d by (auto simp: grid_def m n)
qed

text \<open>Whole numbers are the grid with exponent 0.\<close>

definition dbl :: "nat \<Rightarrow> float64" where
  "dbl n = F64 False (of_nat n)"

lemma grid_exp_0 [simp]: "grid_exp 0"
  by (simp add: grid_exp_def)

lemma dbl_grid [simp]: "n < 2 ^ 53 \<Longrightarrow> grid 0 (dbl n)"
  by (auto simp: grid_def dbl_def)

lemma dbl_val [simp]: "f64_val (dbl n) = of_nat n"
  by (simp add: dbl_def)

lemma dbl_mag: "n < 2 ^ 53 \<Longrightarrow> f64_mag (of_nat n)"
  using grid_mag [of 0 n] by simp

lemma dbl_fin_pos [simp]: "0 < n \<Longrightarrow> n < 2 ^ 53 \<Longrightarrow> fin_pos (dbl n)"
  using dbl_mag [of n] by (simp add: dbl_def)

lemma grid_value: "grid e x \<Longrightarrow> x = F64 False (f64_val x)"
  by (auto simp: grid_def)

lemma dbl_sub: "m < 2 ^ 53 \<Longrightarrow> n \<le> m \<Longrightarrow> f64_sub (dbl m) (dbl n) = dbl (m - n)"
proof -
  assume "m < 2 ^ 53" "n \<le> m"
  then have "grid 0 (f64_sub (dbl m) (dbl n))" "f64_val (f64_sub (dbl m) (dbl n)) = of_nat (m - n)"
    using grid_sub [of 0 "dbl m" "dbl n"] by (simp_all add: of_nat_diff)
  then show ?thesis using grid_value [of 0 "f64_sub (dbl m) (dbl n)"] by (simp add: dbl_def)
qed

lemma dbl_add: "m + n < 2 ^ 53 \<Longrightarrow> f64_add (dbl m) (dbl n) = dbl (m + n)"
proof -
  assume mn: "m + n < 2 ^ 53"
  then have "rat_of_nat (m + n) < of_nat (2 ^ 53)" by (simp only: of_nat_less_iff)
  then have "grid 0 (f64_add (dbl m) (dbl n))" "f64_val (f64_add (dbl m) (dbl n)) = of_nat (m + n)"
    using grid_add [of 0 "dbl m" "dbl n"] mn by (simp_all add: powi_nat)
  then show ?thesis using grid_value [of 0 "f64_add (dbl m) (dbl n)"] by (simp add: dbl_def)
qed

lemma dbl_order [simp]: "f64_lt (dbl m) (dbl n) \<longleftrightarrow> m < n" "f64_eq (dbl m) (dbl n) \<longleftrightarrow> m = n"
  by (simp_all add: dbl_def)

lemma dbl_0: "f64_zero = dbl 0"
  by (simp add: dbl_def f64_zero_def)

section \<open>Signed numbers of one grid\<close>

definition sgrid :: "int \<Rightarrow> float64 \<Rightarrow> bool" where
  "sgrid e x \<longleftrightarrow> (\<exists>s. \<exists>m::nat. m < 2 ^ 53 \<and> x = F64 s (of_nat m * 2 powi e))"

lemma grid_sgrid: "grid e x \<Longrightarrow> sgrid e x"
  by (auto simp: grid_def sgrid_def)

lemma sgrid_neg [simp]: "sgrid e (f64_neg x) \<longleftrightarrow> sgrid e x"
proof -
  have "sgrid e x \<Longrightarrow> sgrid e (f64_neg x)" for x by (auto simp: sgrid_def)
  from this [of x] this [of "f64_neg x"] show ?thesis by (cases x) auto
qed

lemma f64_val_neg [simp]: "f64_val (f64_neg x) = - f64_val x"
  by (cases x) auto

lemma sgrid_int:
  assumes "sgrid e x"
  obtains i :: int where "f64_val x = of_int i * 2 powi e" "\<bar>i\<bar> < 2 ^ 53"
proof -
  from assms obtain s m where m: "m < 2 ^ 53" "x = F64 s (of_nat m * 2 powi e)" by (auto simp: sgrid_def)
  then have "f64_val x = of_int (if s then - int m else int m) * 2 powi e" by simp
  then show ?thesis using m by (intro that [of "if s then - int m else int m"]) auto
qed

lemma sgrid_add:
  assumes "grid_exp e" "sgrid e x" "sgrid e y" "\<bar>f64_val x + f64_val y\<bar> < 2 powi (e + 53)"
  shows "sgrid e (f64_add x y)" "f64_val (f64_add x y) = f64_val x + f64_val y"
proof -
  obtain i j where i: "f64_val x = of_int i * 2 powi e" and j: "f64_val y = of_int j * 2 powi e"
    using sgrid_int assms(2,3) by metis
  define v where "v = f64_val x + f64_val y"
  define m where "m = nat \<bar>i + j\<bar>"
  have v: "v = of_int (i + j) * 2 powi e" by (simp add: v_def i j algebra_simps)
  then have av: "\<bar>v\<bar> = of_nat m * 2 powi e" by (simp add: m_def abs_mult)
  have "of_nat m * 2 powi e < (2::rat) ^ 53 * 2 powi e"
    using assms(4) av by (simp add: v_def power_int_add mult.commute)
  then have "rat_of_nat m < of_nat (2 ^ 53)" by simp
  then have m: "m < 2 ^ 53" by (simp only: of_nat_less_iff)
  obtain s a t b where xy: "x = F64 s a" "y = F64 t b" using assms(2,3) by (auto simp: sgrid_def)
  have mag: "f64_mag \<bar>v\<bar>" unfolding av by (rule grid_mag [OF assms(1) m])
  have "f64_add x y = f64_signed (s \<and> t) v" by (simp add: xy v_def)
  also have "\<dots> = F64 (if v = 0 then s \<and> t else v < 0) \<bar>v\<bar>"
    using f64_mag_to_f64 [OF mag] by (simp add: f64_signed_def)
  finally have r: "f64_add x y = F64 (if v = 0 then s \<and> t else v < 0) \<bar>v\<bar>" .
  show "sgrid e (f64_add x y)" unfolding r sgrid_def av using m by blast
  show "f64_val (f64_add x y) = f64_val x + f64_val y" unfolding r by (simp add: v_def [symmetric])
qed

lemma sgrid_sub:
  assumes "grid_exp e" "sgrid e x" "sgrid e y" "\<bar>f64_val x - f64_val y\<bar> < 2 powi (e + 53)"
  shows "sgrid e (f64_sub x y)" "f64_val (f64_sub x y) = f64_val x - f64_val y"
  using sgrid_add [of e x "f64_neg y"] assms by (simp_all add: f64_sub_def)

text \<open>Numbers that are neither infinite nor NaN compare as their values.\<close>

fun f64_num :: "float64 \<Rightarrow> bool" where
  "f64_num (F64 s q) = True"
| "f64_num _ = False"

lemma f64_num_order: "f64_num x \<Longrightarrow> f64_num y \<Longrightarrow> f64_lt x y \<longleftrightarrow> f64_val x < f64_val y"
  "f64_num x \<Longrightarrow> f64_num y \<Longrightarrow> f64_le x y \<longleftrightarrow> f64_val x \<le> f64_val y"
  by (cases x; cases y; auto simp: f64_le_def)+

lemma sgrid_f64_num: "sgrid e x \<Longrightarrow> f64_num x"
  by (auto simp: sgrid_def)

lemma f64_num_zero [simp]: "f64_num f64_zero" "f64_val f64_zero = 0"
  by (simp_all add: f64_zero_def)

lemma sgrid_zero [simp]: "sgrid e f64_zero"
  by (auto simp: sgrid_def f64_zero_def intro!: exI [of _ "0::nat"])

lemma f64_num_neg [simp]: "f64_num (f64_neg x) = f64_num x"
  by (cases x) auto

lemma dbl_mul: "m * n < 2 ^ 53 \<Longrightarrow> f64_mul (dbl m) (dbl n) = dbl (m * n)"
  using f64_mag_to_f64 [OF dbl_mag [of "m * n"]] by (simp add: dbl_def)

lemma dbl_div: "0 < n \<Longrightarrow> m < 2 ^ 53 \<Longrightarrow> f64_div (dbl (n * m)) (dbl n) = dbl m"
  using f64_mag_to_f64 [OF dbl_mag [of m]] by (simp add: dbl_def)

lemma dbl_num [simp]: "f64_num (dbl n)"
  by (simp add: dbl_def)

section \<open>Relative error\<close>

lemma f64_round_near: "0 < v \<Longrightarrow> \<bar>f64_round v - v\<bar> \<le> 2 powi ulp_exp v / 2"
proof -
  assume v: "0 < v"
  let ?u = "2 powi ulp_exp v :: rat"
  have u: "0 < ?u" by simp
  have "\<bar>of_int (round_half_even (v / ?u)) - v / ?u\<bar> * ?u \<le> 1 / 2 * ?u"
    by (rule mult_right_mono [OF round_half_even_near]) (use u in simp)
  moreover have "\<bar>of_int (round_half_even (v / ?u)) - v / ?u\<bar> * ?u = \<bar>(of_int (round_half_even (v / ?u)) - v / ?u) * ?u\<bar>"
    using u by (simp add: abs_mult)
  moreover have "(of_int (round_half_even (v / ?u)) - v / ?u) * ?u = f64_round v - v"
    using u v by (simp add: f64_round_def algebra_simps)
  ultimately show ?thesis by simp
qed

lemma f64_round_rel:
  assumes "2 powi (- 1022) \<le> v"
  shows "\<bar>f64_round v - v\<bar> \<le> v / 2 ^ 53"
proof -
  have v: "0 < v" using assms by (rule less_le_trans [rotated]) simp
  have "- 1022 \<le> flog 2 v"
  proof -
    have "(2::rat) powi (- 1022) < 2 powi (flog 2 v + 1)"
      using assms flog_bounds(2) [OF v, of 2] by (simp add: le_less_trans)
    then show ?thesis using powi_mono_rev [of "2::rat" "- 1022" "flog 2 v + 1"] by simp
  qed
  then have "ulp_exp v = flog 2 v - 52" by (simp add: ulp_exp_def)
  then have "2 powi ulp_exp v = 2 powi flog 2 v / (2::rat) ^ 52" by (simp add: power_int_diff)
  moreover have "2 powi flog 2 v \<le> v" using flog_bounds(1) [OF v, of 2] by simp
  ultimately have "2 powi ulp_exp v / 2 \<le> v / 2 ^ 53" by (simp add: field_simps)
  with f64_round_near [OF v] show ?thesis by (rule order_trans)
qed

lemma to_f64_num: "0 \<le> v \<Longrightarrow> v < 2 ^ 1023 \<Longrightarrow> to_f64 s v = F64 s (f64_round v) \<and> f64_mag (f64_round v)"
proof -
  assume v: "0 \<le> v" "v < 2 ^ 1023"
  have "f64_round v \<le> f64_round (2 ^ 1023)" by (rule f64_round_mono) (use v in simp_all)
  also have "\<dots> = 2 ^ 1023" using f64_round_dyadic [of 1 1023] by simp
  also have "\<dots> < (2::rat) ^ 1024" by simp
  finally show ?thesis using f64_round_mag [OF v(1)] by (simp add: to_f64_def)
qed

end
