(* ===== verification/Engine_Book.thy ===== *)
theory Engine_Book
  imports Float_Arith "HOL-Library.Word"
begin

text \<open>
  The order book of the matching engine (\<^verbatim>\<open>src/OrderBook.cpp\<close>, \<^verbatim>\<open>src/Order.h\<close>).  Each side is a
  \<^verbatim>\<open>std::map\<close> from price to quantity, here the list of its entries in the map's order: bids by falling
  price, asks by rising price.  What does not depend on the direction is proved once, in the locale
  \<open>price_order\<close>, and used for both sides.  The exact matching of rational quantities is the
  specification; on quantities of one binary grid (whole numbers, for instance) the double arithmetic of
  the engine implements it.
\<close>

section \<open>Data\<close>

type_synonym uint64 = "64 word"
type_synonym ladder = "(float64 \<times> float64) list"

datatype Side = BUY | SELL

record Trade =
  aggressor_id :: uint64
  passive_id :: uint64
  t_price :: float64
  t_quantity :: float64

record OrderBook =
  bids :: ladder
  asks :: ladder
  nextId :: uint64

definition empty_book :: OrderBook where
  "empty_book = \<lparr>bids = [], asks = [], nextId = 1\<rparr>"

text \<open>The comparators \<^verbatim>\<open>std::less\<close> of the asks and \<^verbatim>\<open>std::greater\<close> of the bids.\<close>

definition bid_before :: "float64 \<Rightarrow> float64 \<Rightarrow> bool" where
  "bid_before x y = f64_lt y x"

section \<open>Operations\<close>

text \<open>\<^verbatim>\<open>book[price] += qty\<close>: a missing entry is created with the value 0.\<close>

fun level_add :: "(float64 \<Rightarrow> float64 \<Rightarrow> bool) \<Rightarrow> float64 \<Rightarrow> float64 \<Rightarrow> ladder \<Rightarrow> ladder" where
  "level_add before p q [] = [(p, f64_add f64_zero q)]"
| "level_add before p q ((k, v) # l) =
     (if before k p then (k, v) # level_add before p q l
      else if before p k then (p, f64_add f64_zero q) # (k, v) # l
      else (k, f64_add v q) # l)"

definition addLimitOrder :: "Side \<Rightarrow> float64 \<Rightarrow> float64 \<Rightarrow> OrderBook \<Rightarrow> uint64 \<times> OrderBook" where
  "addLimitOrder side p q b =
     (let b' = b\<lparr>nextId := nextId b + 1\<rparr> in
      (nextId b,
       case side of
         BUY \<Rightarrow> b'\<lparr>bids := level_add bid_before p q (bids b')\<rparr>
       | SELL \<Rightarrow> b'\<lparr>asks := level_add f64_lt p q (asks b')\<rparr>))"

text \<open>The lambda \<^verbatim>\<open>fill\<close> of \<^verbatim>\<open>addMarketOrder\<close>: take from the first level on; an emptied level is erased, a
  level that keeps something ends the loop.\<close>

fun fill :: "uint64 \<Rightarrow> float64 \<Rightarrow> ladder \<Rightarrow> Trade list \<times> ladder" where
  "fill aid remaining [] = ([], [])"
| "fill aid remaining ((p, v) # l) =
     (if f64_lt f64_zero remaining then
        let fillQty = f64_min remaining v;
            t = \<lparr>aggressor_id = aid, passive_id = 0, t_price = p, t_quantity = fillQty\<rparr>;
            v' = f64_sub v fillQty;
            remaining' = f64_sub remaining fillQty
        in if f64_eq v' f64_zero
           then let (ts, l') = fill aid remaining' l in (t # ts, l')
           else ([t], (p, v') # l)
      else ([], (p, v) # l))"

definition addMarketOrder :: "Side \<Rightarrow> float64 \<Rightarrow> OrderBook \<Rightarrow> Trade list \<times> OrderBook" where
  "addMarketOrder side q b =
     (let aid = nextId b; b' = b\<lparr>nextId := nextId b + 1\<rparr> in
      case side of
        BUY \<Rightarrow> let (ts, l) = fill aid q (asks b') in (ts, b'\<lparr>asks := l\<rparr>)
      | SELL \<Rightarrow> let (ts, l) = fill aid q (bids b') in (ts, b'\<lparr>bids := l\<rparr>))"

definition bestBid :: "OrderBook \<Rightarrow> float64" where
  "bestBid b = (case bids b of [] \<Rightarrow> f64_zero | e # _ \<Rightarrow> fst e)"

definition bestAsk :: "OrderBook \<Rightarrow> float64" where
  "bestAsk b = (case asks b of [] \<Rightarrow> f64_zero | e # _ \<Rightarrow> fst e)"

definition spread :: "OrderBook \<Rightarrow> float64" where
  "spread b = f64_sub (bestAsk b) (bestBid b)"

definition bidDepth :: "OrderBook \<Rightarrow> nat" where
  "bidDepth b = length (bids b)"

definition askDepth :: "OrderBook \<Rightarrow> nat" where
  "askDepth b = length (asks b)"

text \<open>\<^verbatim>\<open>find\<close>, subtract, and erase what is no longer positive.\<close>

fun level_remove :: "(float64 \<Rightarrow> float64 \<Rightarrow> bool) \<Rightarrow> float64 \<Rightarrow> float64 \<Rightarrow> ladder \<Rightarrow> ladder" where
  "level_remove before p q [] = []"
| "level_remove before p q ((k, v) # l) =
     (if before k p then (k, v) # level_remove before p q l
      else if before p k then (k, v) # l
      else let v' = f64_sub v q in if f64_le0 v' then l else (k, v') # l)"

definition removeQty :: "Side \<Rightarrow> float64 \<Rightarrow> float64 \<Rightarrow> OrderBook \<Rightarrow> OrderBook" where
  "removeQty side p q b =
     (case side of
        BUY \<Rightarrow> b\<lparr>bids := level_remove bid_before p q (bids b)\<rparr>
      | SELL \<Rightarrow> b\<lparr>asks := level_remove f64_lt p q (asks b)\<rparr>)"

definition clear_book :: "OrderBook \<Rightarrow> OrderBook" where
  "clear_book b = b\<lparr>bids := [], asks := []\<rparr>"

text \<open>\<^verbatim>\<open>bidLevels\<close> and \<^verbatim>\<open>askLevels\<close>: copy entries until there are \<open>maxLevels\<close> of them.\<close>

fun copy_levels :: "nat \<Rightarrow> ladder \<Rightarrow> ladder \<Rightarrow> ladder" where
  "copy_levels n acc [] = acc"
| "copy_levels n acc (e # l) = (if n \<le> length acc then acc else copy_levels n (acc @ [e]) l)"

definition bidLevels :: "nat \<Rightarrow> OrderBook \<Rightarrow> ladder" where
  "bidLevels n b = copy_levels n [] (bids b)"

definition askLevels :: "nat \<Rightarrow> OrderBook \<Rightarrow> ladder" where
  "askLevels n b = copy_levels n [] (asks b)"

section \<open>Well-formed sides\<close>

text \<open>Prices are positive and come in the order of the comparator, quantities are positive; infinities are possible, NaNs are not.\<close>

definition level_ok :: "float64 \<times> float64 \<Rightarrow> bool" where
  "level_ok e \<longleftrightarrow> f64_pos (fst e) \<and> f64_pos (snd e)"

definition ladder_ok :: "(float64 \<Rightarrow> float64 \<Rightarrow> bool) \<Rightarrow> ladder \<Rightarrow> bool" where
  "ladder_ok before l \<longleftrightarrow> sorted_wrt (\<lambda>x y. before (fst x) (fst y)) l \<and> list_all level_ok l"

definition book_ok :: "OrderBook \<Rightarrow> bool" where
  "book_ok b \<longleftrightarrow> ladder_ok bid_before (bids b) \<and> ladder_ok f64_lt (asks b)"

lemma ladder_ok_simps [simp]:
  "ladder_ok before []"
  "ladder_ok before (e # l) \<longleftrightarrow> (\<forall>x \<in> set l. before (fst e) (fst x)) \<and> level_ok e \<and> ladder_ok before l"
  by (auto simp: ladder_ok_def)

lemma level_ok_pair [simp]: "level_ok (p, v) \<longleftrightarrow> f64_pos p \<and> f64_pos v"
  by (simp add: level_ok_def)

lemma fin_pos_pos [simp]: "fin_pos x \<Longrightarrow> f64_pos x"
  by (simp add: fin_pos_def)

lemma fill_zero [simp]: "fill aid f64_zero l = ([], l)"
  by (cases l) (auto simp: f64_zero_def)

lemma f64_eq_zero [simp]: "f64_eq f64_zero f64_zero"
  by (simp add: f64_zero_def)

lemma f64_sub_same [simp]: "fin_pos x \<Longrightarrow> f64_sub x x = f64_zero"
  by (simp add: f64_sub_self f64_zero_def)

lemma fin_below: "f64_lt v r \<Longrightarrow> fin_pos r \<Longrightarrow> f64_pos v \<Longrightarrow> fin_pos v"
  by (cases v; cases r) (auto simp: fin_pos_def)

lemma lt_asym: "f64_lt x y \<Longrightarrow> \<not> f64_lt y x"
  by (cases x; cases y) auto

text \<open>One trade: what is left of the level and of the order.\<close>

lemma f64_pos_cases:
  assumes "fin_pos r" "f64_pos v"
  obtains (whole) "f64_lt v r" "fin_pos v" "fin_pos (f64_sub r v)" | (exact) "v = r" | (part) "f64_lt r v" "f64_pos (f64_sub v r)"
proof -
  consider "f64_lt v r" | "v = r" | "f64_lt r v" using f64_pos_order [OF assms(2), of r] assms(1) by auto
  then show ?thesis
    using whole exact part assms fin_below f64_sub_fin(1) f64_sub_pos by cases blast+
qed

lemma fill_whole:
  "fin_pos r \<Longrightarrow> f64_pos v \<Longrightarrow> f64_lt v r \<Longrightarrow>
   fill aid r ((p, v) # l) =
     (let (ts, l') = fill aid (f64_sub r v) l
      in (\<lparr>aggressor_id = aid, passive_id = 0, t_price = p, t_quantity = v\<rparr> # ts, l'))"
  by (simp add: Let_def f64_min_def fin_below)

lemma fill_exact:
  "fin_pos r \<Longrightarrow> fill aid r ((p, r) # l) = ([\<lparr>aggressor_id = aid, passive_id = 0, t_price = p, t_quantity = r\<rparr>], l)"
  by (simp add: Let_def f64_min_def)

lemma fill_part:
  "fin_pos r \<Longrightarrow> f64_pos v \<Longrightarrow> f64_lt r v \<Longrightarrow>
   fill aid r ((p, v) # l) = ([\<lparr>aggressor_id = aid, passive_id = 0, t_price = p, t_quantity = r\<rparr>], (p, f64_sub v r) # l)"
  using f64_sub_pos [of v r] by (simp add: Let_def f64_min_def lt_asym)

text \<open>The market order seen from the levels it meets.\<close>

definition level_trades :: "uint64 \<Rightarrow> ladder \<Rightarrow> Trade list" where
  "level_trades aid l = map (\<lambda>(p, v). \<lparr>aggressor_id = aid, passive_id = 0, t_price = p, t_quantity = v\<rparr>) l"

text \<open>Some levels are taken whole; then the order is used up, or the book, or the next level gives the rest
  of the order and stays.\<close>

definition matched :: "uint64 \<Rightarrow> float64 \<Rightarrow> ladder \<Rightarrow> Trade list \<Rightarrow> ladder \<Rightarrow> ladder \<Rightarrow> ladder \<Rightarrow> bool" where
  "matched aid r l ts l' whole rest \<longleftrightarrow> l = whole @ rest \<and>
     (let r' = foldl f64_sub r (map snd whole) in
      ts = level_trades aid whole \<and> l' = rest \<and> (rest = [] \<or> r' = f64_zero) \<or>
      (\<exists>p v rest'. rest = (p, v) # rest' \<and> fin_pos r' \<and> f64_lt r' v \<and>
         ts = level_trades aid (whole @ [(p, r')]) \<and> l' = (p, f64_sub v r') # rest'))"

lemma matched_whole:
  "matched aid (f64_sub r v) l ts l' wh rest \<Longrightarrow>
   matched aid r ((p, v) # l) (\<lparr>aggressor_id = aid, passive_id = 0, t_price = p, t_quantity = v\<rparr> # ts) l' ((p, v) # wh) rest"
  by (auto simp: matched_def level_trades_def Let_def)

lemma fill_matched:
  assumes "fin_pos r" "list_all level_ok l" "fill aid r l = (ts, l')"
  shows "\<exists>whole rest. matched aid r l ts l' whole rest"
  using assms
proof (induction l arbitrary: r ts l')
  case Nil
  then show ?case by (auto simp: matched_def level_trades_def)
next
  case (Cons e l)
  obtain p v where e: "e = (p, v)" by (cases e)
  have pos: "fin_pos r" "f64_pos v" and l: "list_all level_ok l" using Cons.prems by (simp_all add: e)
  show ?case
    using pos
  proof (cases rule: f64_pos_cases)
    case whole
    obtain ts0 where "fill aid (f64_sub r v) l = (ts0, l')"
      "ts = \<lparr>aggressor_id = aid, passive_id = 0, t_price = p, t_quantity = v\<rparr> # ts0"
      using Cons.prems(3) fill_whole [OF pos whole(1)] by (auto simp: e split: prod.splits)
    then show ?thesis using Cons.IH [OF whole(3) l] matched_whole [of aid r v l] by (metis e)
  next
    case exact
    then have "matched aid r (e # l) ts l' [(p, v)] l" using Cons.prems fill_exact [OF pos(1)]
      by (auto simp: matched_def level_trades_def e pos)
    then show ?thesis by blast
  next
    case part
    then have "matched aid r (e # l) ts l' [] (e # l)" using Cons.prems fill_part [OF pos part(1)]
      by (auto simp: matched_def level_trades_def e)
    then show ?thesis by blast
  qed
qed

section \<open>Sides in the order of a comparator\<close>

locale price_order =
  fixes before :: "float64 \<Rightarrow> float64 \<Rightarrow> bool"
  assumes before_irrefl: "f64_pos x \<Longrightarrow> \<not> before x x"
    and before_trans: "before x y \<Longrightarrow> before y z \<Longrightarrow> before x z"
    and before_total: "f64_pos x \<Longrightarrow> f64_pos y \<Longrightarrow> before x y \<or> x = y \<or> before y x"
begin

lemma before_asym: "f64_pos x \<Longrightarrow> before x y \<Longrightarrow> \<not> before y x"
  using before_irrefl before_trans by blast

lemma add_keys: "x \<in> set (level_add before p q l) \<Longrightarrow> fst x = p \<or> fst x \<in> fst ` set l"
  by (induction l) (auto split: if_splits)

lemma add_ok:
  assumes "ladder_ok before l" "f64_pos p" "f64_pos q"
  shows "ladder_ok before (level_add before p q l)"
  using assms
proof (induction l)
  case Nil
  then show ?case by (simp add: f64_zero_add)
next
  case (Cons e l)
  obtain k v where e: "e = (k, v)" by (cases e)
  have k: "f64_pos k" "f64_pos v" using Cons.prems by (simp_all add: e)
  consider "before k p" | "k = p" | "before p k" "\<not> before k p" "k \<noteq> p"
    using before_total [OF k(1) Cons.prems(2)] by blast
  then show ?case
  proof cases
    case 1
    then have "before k (fst x)" if "x \<in> set (level_add before p q l)" for x
      using Cons.prems(1) add_keys [OF that] by (auto simp: e)
    then show ?thesis using 1 Cons by (auto simp: e)
  next
    case 2
    then show ?thesis using Cons.prems before_irrefl k by (auto simp: e f64_add_pos)
  next
    case 3
    then show ?thesis using Cons.prems before_trans by (auto simp: e f64_zero_add)
  qed
qed

lemma add_lookup:
  assumes "ladder_ok before l" "f64_pos p" "f64_pos q"
  shows "map_of (level_add before p q l) = (map_of l)(p \<mapsto> (case map_of l p of None \<Rightarrow> q | Some v \<Rightarrow> f64_add v q))"
  using assms
proof (induction l)
  case Nil
  then show ?case by (simp add: f64_zero_add)
next
  case (Cons e l)
  obtain k v where e: "e = (k, v)" by (cases e)
  have k: "f64_pos k" using Cons.prems by (simp add: e)
  consider "before k p" "k \<noteq> p" | "k = p" | "before p k" "\<not> before k p" "k \<noteq> p"
    using before_total [OF k Cons.prems(2)] by blast
  then show ?case
  proof cases
    case 1
    then show ?thesis using Cons by (auto simp: e fun_upd_twist)
  next
    case 2
    then show ?thesis using before_irrefl k by (auto simp: e fun_eq_iff)
  next
    case 3
    have "map_of l p = None"
    proof (rule ccontr)
      assume "map_of l p \<noteq> None"
      then obtain x where "x \<in> set l" "fst x = p" by (auto dest: map_of_SomeD)
      then have "before k p" using Cons.prems by (auto simp: e)
      with 3 show False by simp
    qed
    then show ?thesis using 3 Cons.prems by (auto simp: e f64_zero_add fun_eq_iff)
  qed
qed

lemma remove_keys: "x \<in> set (level_remove before p q l) \<Longrightarrow> fst x \<in> fst ` set l"
  by (induction l) (auto simp: Let_def split: if_splits)

lemma remove_ok: "ladder_ok before l \<Longrightarrow> fin_pos q \<Longrightarrow> ladder_ok before (level_remove before p q l)"
proof (induction l)
  case (Cons e l)
  obtain k v where e: "e = (k, v)" by (cases e)
  have v: "f64_pos v" using Cons.prems by (simp add: e)
  have "f64_le0 (f64_sub v q) \<or> f64_pos (f64_sub v q)"
    using Cons.prems(2) v
  proof (cases rule: f64_pos_cases)
    case whole
    then show ?thesis using Cons.prems(2)
      by (elim fin_posE) (auto simp: f64_sub_def f64_signed_def to_f64_def Let_def)
  next
    case exact
    then show ?thesis using f64_sub_self [OF Cons.prems(2)] by simp
  qed simp
  then show ?case using Cons by (force simp: e Let_def dest: remove_keys)
qed simp

lemma tail_ok: "ladder_ok before (a @ b) \<Longrightarrow> ladder_ok before b"
  by (auto simp: ladder_ok_def sorted_wrt_append)

lemma fill_ok:
  assumes "ladder_ok before l" "fin_pos r"
  shows "ladder_ok before (snd (fill aid r l))"
proof -
  obtain ts l' where f: "fill aid r l = (ts, l')" by (cases "fill aid r l")
  from fill_matched [OF assms(2) _ f] assms(1) obtain wh rest where w: "matched aid r l ts l' wh rest"
    unfolding ladder_ok_def by blast
  then have "l = wh @ rest" by (simp add: matched_def)
  with assms(1) have "ladder_ok before rest" using tail_ok by simp
  with w have "ladder_ok before l'" by (auto simp: f64_sub_pos matched_def Let_def)
  then show ?thesis by (simp add: f)
qed

text \<open>The first level is the best one.\<close>

lemma first_best: "ladder_ok before (e # l) \<Longrightarrow> x \<in> set (e # l) \<Longrightarrow> fst x = fst e \<or> before (fst e) (fst x)"
  by auto

end

interpretation ask_order: price_order f64_lt
  by unfold_locales (use f64_pos_order in \<open>blast intro: f64_lt_trans\<close>)+

interpretation bid_order: price_order bid_before
  by (unfold_locales, unfold bid_before_def) (use f64_pos_order in \<open>blast intro: f64_lt_trans\<close>)+

section \<open>The specification: exact matching\<close>

fun match_exact :: "rat \<Rightarrow> (float64 \<times> rat) list \<Rightarrow> (float64 \<times> rat) list \<times> (float64 \<times> rat) list" where
  "match_exact r [] = ([], [])"
| "match_exact r ((p, v) # l) =
     (if r \<le> 0 then ([], (p, v) # l)
      else if v \<le> r then (let (ts, l') = match_exact (r - v) l in ((p, v) # ts, l'))
      else ([(p, r)], (p, v - r) # l))"

definition abs_ladder :: "ladder \<Rightarrow> (float64 \<times> rat) list" where
  "abs_ladder l = map (\<lambda>(p, v). (p, f64_val v)) l"

definition abs_trades :: "Trade list \<Rightarrow> (float64 \<times> rat) list" where
  "abs_trades ts = map (\<lambda>t. (t_price t, f64_val (t_quantity t))) ts"

definition sum_qty :: "('a \<times> rat) list \<Rightarrow> rat" where
  "sum_qty l = sum_list (map snd l)"

lemma sum_qty_simps [simp]: "sum_qty [] = 0" "sum_qty (e # l) = snd e + sum_qty l"
  by (simp_all add: sum_qty_def)

lemma sum_qty_nonneg: "list_all (\<lambda>e. 0 < snd e) l \<Longrightarrow> 0 \<le> sum_qty l"
  by (induction l) auto

lemma match_zero [simp]: "match_exact 0 l = ([], l)"
  by (cases l) auto

text \<open>Nothing is lost, and as much is traded as both sides allow.\<close>

lemma match_conserves:
  assumes "0 \<le> r" "list_all (\<lambda>e. 0 < snd e) l" "match_exact r l = (ts, l')"
  shows "sum_qty ts + sum_qty l' = sum_qty l" "sum_qty ts = min r (sum_qty l)"
  using assms
proof (induction r l arbitrary: ts l' rule: match_exact.induct)
  case (2 r p v l)
  case 1
  with "2.IH" sum_qty_nonneg [of l] show ?case by (auto split: if_splits prod.splits)
next
  case (2 r p v l)
  case 2
  with "2.IH" sum_qty_nonneg [of l] show ?case by (auto split: if_splits prod.splits)
qed simp_all

definition grid_side :: "int \<Rightarrow> ladder \<Rightarrow> bool" where
  "grid_side e l \<longleftrightarrow> list_all (\<lambda>(p, v). grid e v \<and> 0 < f64_val v) l"

lemma grid_side_simps [simp]:
  "grid_side e []" "grid_side e ((p, v) # l) \<longleftrightarrow> grid e v \<and> 0 < f64_val v \<and> grid_side e l"
  by (auto simp: grid_side_def)

lemma powi_not_le: "\<not> (2::rat) powi e \<le> 0"
  by (simp add: not_le)

lemma grid_zero: "grid e r \<Longrightarrow> f64_val r \<le> 0 \<Longrightarrow> r = f64_zero"
  by (auto simp: grid_def f64_zero_def mult_le_0_iff powi_not_le)

lemma grid_order: "grid e x \<Longrightarrow> grid e y \<Longrightarrow> f64_lt x y \<longleftrightarrow> f64_val x < f64_val y"
  "grid e x \<Longrightarrow> grid e y \<Longrightarrow> f64_val x = f64_val y \<Longrightarrow> x = y"
  by (auto simp: grid_def)

text \<open>On one grid the double arithmetic is exact, so the loop computes the exact matching.\<close>

lemma fill_refines:
  assumes "grid_exp e" "grid e r" "grid_side e l" "fill aid r l = (ts, l')"
  shows "match_exact (f64_val r) (abs_ladder l) = (abs_trades ts, abs_ladder l')" "grid_side e l'"
proof -
  have "match_exact (f64_val r) (abs_ladder l) = (abs_trades ts, abs_ladder l') \<and> grid_side e l'"
    using assms(2-)
  proof (induction l arbitrary: r ts l')
    case Nil
    then show ?case by (simp add: abs_ladder_def abs_trades_def)
  next
    case (Cons x l)
    obtain p v where x: "x = (p, v)" by (cases x)
    have v: "grid e v" "0 < f64_val v" "fin_pos v" and l: "grid_side e l"
      using Cons.prems grid_fin_pos [OF assms(1)] by (auto simp: x)
    note r = Cons.prems(1)
    consider "f64_val r \<le> 0" | "0 < f64_val r" "f64_val v < f64_val r" | "0 < f64_val r" "v = r"
      | "0 < f64_val r" "f64_val r < f64_val v"
      using grid_order(2) [OF v(1) r] by fastforce
    then show ?case
    proof cases
      case 1
      then have z: "r = f64_zero" "f64_val r = 0" using grid_zero [OF r] by (simp_all add: f64_zero_def)
      then show ?thesis using Cons.prems(2,3) by (auto simp: abs_trades_def simp del: fill.simps)
    next
      case 2
      then have pos: "fin_pos r" "f64_lt v r" using grid_fin_pos [OF assms(1) r] grid_order(1) [OF v(1) r] by auto
      note d = grid_sub [OF assms(1) r v(1)]
      obtain ts0 where f: "fill aid (f64_sub r v) l = (ts0, l')"
        "ts = \<lparr>aggressor_id = aid, passive_id = 0, t_price = p, t_quantity = v\<rparr> # ts0"
        using Cons.prems fill_whole [OF pos(1) _ pos(2)] v by (auto simp: x split: prod.splits)
      from Cons.IH [OF d(1) l f(1)] d(2) 2 show ?thesis by (simp add: x f abs_ladder_def abs_trades_def)
    next
      case 3
      then have "fin_pos r" using v by simp
      then show ?thesis using Cons.prems 3 fill_exact [of r] by (auto simp: x abs_ladder_def abs_trades_def)
    next
      case 4
      then have pos: "fin_pos r" "f64_lt r v" using grid_fin_pos [OF assms(1) r] grid_order(1) [OF r v(1)] by auto
      then have f: "ts = [\<lparr>aggressor_id = aid, passive_id = 0, t_price = p, t_quantity = r\<rparr>]" "l' = (p, f64_sub v r) # l"
        using Cons.prems fill_part [OF pos(1) _ pos(2)] v by (auto simp: x)
      show ?thesis using 4 l grid_sub [OF assms(1) v(1) r] by (simp add: f x abs_ladder_def abs_trades_def)
    qed
  qed
  then show "match_exact (f64_val r) (abs_ladder l) = (abs_trades ts, abs_ladder l')" "grid_side e l'" by simp_all
qed

section \<open>The book\<close>

text \<open>The side a market order takes from, and the comparator of that side.\<close>

definition taken_side :: "Side \<Rightarrow> OrderBook \<Rightarrow> ladder" where
  "taken_side side b = (case side of BUY \<Rightarrow> asks b | SELL \<Rightarrow> bids b)"

definition other_side :: "Side \<Rightarrow> OrderBook \<Rightarrow> ladder" where
  "other_side side b = (case side of BUY \<Rightarrow> bids b | SELL \<Rightarrow> asks b)"

lemma market_order_sides:
  "addMarketOrder side q b = (ts, b') \<longleftrightarrow>
     fill (nextId b) q (taken_side side b) = (ts, taken_side side b') \<and>
     other_side side b' = other_side side b \<and> nextId b' = nextId b + 1"
  by (cases side; cases b; cases b') (auto simp: addMarketOrder_def taken_side_def other_side_def split: prod.splits)

lemma book_ok_taken: "book_ok b \<Longrightarrow> list_all level_ok (taken_side side b)"
  by (cases side) (auto simp: book_ok_def ladder_ok_def taken_side_def)

lemma addLimitOrder_ok [keeps]: "book_ok b \<Longrightarrow> f64_pos p \<Longrightarrow> f64_pos q \<Longrightarrow> book_ok (snd (addLimitOrder side p q b))"
  by (cases side) (auto simp: book_ok_def addLimitOrder_def Let_def ask_order.add_ok bid_order.add_ok)

lemma addMarketOrder_ok [keeps]: "book_ok b \<Longrightarrow> fin_pos q \<Longrightarrow> book_ok (snd (addMarketOrder side q b))"
  using ask_order.fill_ok [of "asks b" q "nextId b"] bid_order.fill_ok [of "bids b" q "nextId b"]
  by (cases side) (auto simp: book_ok_def addMarketOrder_def Let_def split: prod.splits)

lemma removeQty_ok [keeps]: "book_ok b \<Longrightarrow> fin_pos q \<Longrightarrow> book_ok (removeQty side p q b)"
  by (cases side) (auto simp: book_ok_def removeQty_def ask_order.remove_ok bid_order.remove_ok)

lemma clear_book_ok [keeps]: "book_ok (clear_book b)"
  by (simp add: book_ok_def clear_book_def)

lemma empty_book_ok: "book_ok empty_book"
  by (simp add: book_ok_def empty_book_def)

lemma copy_levels_take: "length acc \<le> n \<Longrightarrow> copy_levels n acc l = acc @ take (n - length acc) l"
  by (induction l arbitrary: acc) (auto simp: not_le take_Cons' Suc_diff_Suc)

text \<open>A price the aggressor would rather trade at: lower for a buyer, higher for a seller.\<close>

definition better :: "Side \<Rightarrow> float64 \<Rightarrow> float64 \<Rightarrow> bool" where
  "better side = (case side of BUY \<Rightarrow> f64_lt | SELL \<Rightarrow> bid_before)"

lemma book_ok_better: "book_ok b \<Longrightarrow> ladder_ok (better side) (taken_side side b)"
  by (cases side) (simp_all add: book_ok_def better_def taken_side_def)

lemma better_order: "price_order (better side)"
  by (cases side) (simp_all add: better_def ask_order.price_order_axioms bid_order.price_order_axioms)

lemma matched_trades_first:
  assumes "matched aid r l ts l' whole rest" "ladder_ok before l" "t \<in> set ts" "x \<in> set l'"
  shows "t_price t = fst x \<or> before (t_price t) (fst x)"
proof -
  have sorted: "sorted_wrt (\<lambda>x y. before (fst x) (fst y)) (whole @ rest)"
    using assms(1,2) by (simp add: matched_def ladder_ok_def)
  show ?thesis using assms(1,3,4) sorted
    by (fastforce simp: matched_def level_trades_def Let_def sorted_wrt_append)
qed

lemma matched_some: "matched aid r l ts l' whole rest \<Longrightarrow> fin_pos r \<Longrightarrow> ts = [] \<longleftrightarrow> l = []"
  by (auto simp: matched_def level_trades_def Let_def f64_zero_def)

section \<open>Properties\<close>

text \<open>Property C6. A market order (\<^verbatim>\<open>addMarketOrder\<close>) on a well-formed book takes the opposite side level
  by level from the best price on: it empties a first part \<open>whole\<close> of the levels, each with one trade of the
  level's whole quantity; then either the order is exactly used up or the side is empty, or the next level gives
  precisely what the order still lacks and keeps the rest.  The own side is untouched, there is a trade
  unless the opposite side is empty, and no level that is left is better than the price of a trade.\<close>

theorem market_order_best_first:
  assumes "book_ok b" "fin_pos q" "addMarketOrder side q b = (ts, b')"
  shows "(\<exists>whole rest. taken_side side b = whole @ rest \<and>
           (let r = foldl f64_sub q (map snd whole) in
            ts = level_trades (nextId b) whole \<and> taken_side side b' = rest \<and> (rest = [] \<or> r = f64_zero) \<or>
            (\<exists>p v rest'. rest = (p, v) # rest' \<and> fin_pos r \<and> f64_lt r v \<and>
               ts = level_trades (nextId b) (whole @ [(p, r)]) \<and> taken_side side b' = (p, f64_sub v r) # rest'))) \<and>
    other_side side b' = other_side side b \<and>
    (ts = [] \<longleftrightarrow> taken_side side b = []) \<and>
    (\<forall>t \<in> set ts. \<forall>x \<in> set (taken_side side b'). \<not> better side (fst x) (t_price t))"
proof (intro conjI ballI)
  from assms(3) have f: "fill (nextId b) q (taken_side side b) = (ts, taken_side side b')"
    and o: "other_side side b' = other_side side b" by (simp_all add: market_order_sides)
  show "other_side side b' = other_side side b" by (rule o)
  from fill_matched [OF assms(2) book_ok_taken [OF assms(1)] f] obtain wh rest
    where m: "matched (nextId b) q (taken_side side b) ts (taken_side side b') wh rest" by blast
  then show "\<exists>whole rest. taken_side side b = whole @ rest \<and>
           (let r = foldl f64_sub q (map snd whole) in
            ts = level_trades (nextId b) whole \<and> taken_side side b' = rest \<and> (rest = [] \<or> r = f64_zero) \<or>
            (\<exists>p v rest'. rest = (p, v) # rest' \<and> fin_pos r \<and> f64_lt r v \<and>
               ts = level_trades (nextId b) (whole @ [(p, r)]) \<and> taken_side side b' = (p, f64_sub v r) # rest'))"
    unfolding matched_def by blast
  show "ts = [] \<longleftrightarrow> taken_side side b = []" by (rule matched_some [OF m assms(2)])
  fix t x
  assume t: "t \<in> set ts" and x: "x \<in> set (taken_side side b')"
  have "book_ok b'" using addMarketOrder_ok [OF assms(1,2), of side] by (simp add: assms(3))
  then have px: "f64_pos (fst x)" using book_ok_taken [of b' side] x by (auto simp: list_all_iff level_ok_def)
  have "t_price t = fst x \<or> better side (t_price t) (fst x)"
    by (rule matched_trades_first [OF m book_ok_better [OF assms(1)] t x])
  then show "\<not> better side (fst x) (t_price t)"
    using price_order.before_irrefl [OF better_order px] price_order.before_trans [OF better_order] by metis
qed

text \<open>Property C7. On quantities of one binary grid (multiples of \<open>2\<^sup>e\<close> with 53-bit significands; whole numbers
  are the case \<open>e = 0\<close>) the engine's double arithmetic loses nothing: the trades of a market order and the levels
  left are those of the exact matching of rational quantities, the quantities traded and left add up to what the
  side held, and what is traded is the smaller of the order and the side.\<close>

theorem market_order_exact:
  assumes "grid_exp e" "grid e q" "grid_side e (taken_side side b)" "addMarketOrder side q b = (ts, b')"
  shows "match_exact (f64_val q) (abs_ladder (taken_side side b)) = (abs_trades ts, abs_ladder (taken_side side b')) \<and>
    sum_qty (abs_trades ts) + sum_qty (abs_ladder (taken_side side b')) = sum_qty (abs_ladder (taken_side side b)) \<and>
    sum_qty (abs_trades ts) = min (f64_val q) (sum_qty (abs_ladder (taken_side side b)))"
proof (intro conjI)
  from assms(4) have f: "fill (nextId b) q (taken_side side b) = (ts, taken_side side b')"
    by (simp add: market_order_sides)
  show m: "match_exact (f64_val q) (abs_ladder (taken_side side b)) = (abs_trades ts, abs_ladder (taken_side side b'))"
    by (rule fill_refines(1) [OF assms(1-3) f])
  have q: "0 \<le> f64_val q" using assms(2) by (auto simp: grid_def)
  have l: "list_all (\<lambda>e. 0 < snd e) (abs_ladder (taken_side side b))"
    using assms(3) by (auto simp: grid_side_def abs_ladder_def list_all_iff)
  show "sum_qty (abs_trades ts) + sum_qty (abs_ladder (taken_side side b')) = sum_qty (abs_ladder (taken_side side b))"
    by (rule match_conserves(1) [OF q l m])
  show "sum_qty (abs_trades ts) = min (f64_val q) (sum_qty (abs_ladder (taken_side side b)))"
    by (rule match_conserves(2) [OF q l m])
qed

text \<open>A book to evaluate: two asks, one bid.\<close>

definition demo_book :: OrderBook where
  "demo_book = \<lparr>bids = [(dbl 9, dbl 4)], asks = [(dbl 10, dbl 1), (dbl 11, dbl 2)], nextId = 7\<rparr>"

lemma demo_book_ok: "book_ok demo_book" "grid_side 0 (taken_side side demo_book)"
  by (simp_all add: demo_book_def book_ok_def taken_side_def split: Side.split)

lemma demo_market:
  "addMarketOrder BUY (dbl 2) demo_book =
     (level_trades 7 [(dbl 10, dbl 1), (dbl 11, dbl 1)],
      \<lparr>bids = [(dbl 9, dbl 4)], asks = [(dbl 11, dbl 1)], nextId = 8\<rparr>)"
  by (simp add: demo_book_def addMarketOrder_def level_trades_def Let_def f64_min_def dbl_sub dbl_0)

theorem market_order_best_first_witness:
  "book_ok demo_book \<and> fin_pos (dbl 2) \<and>
   (\<exists>ts b'. addMarketOrder BUY (dbl 2) demo_book = (ts, b') \<and> map t_price ts = [dbl 10, dbl 11] \<and>
      map fst (asks b') = [dbl 11] \<and> bids b' = bids demo_book \<and> (\<forall>t \<in> set ts. \<not> better BUY (dbl 11) (t_price t)))"
  using market_order_best_first [OF demo_book_ok(1) _ demo_market] demo_book_ok(1)
  by (simp add: demo_market taken_side_def other_side_def level_trades_def)

theorem market_order_exact_witness:
  "sum_qty (abs_trades (fst (addMarketOrder BUY (dbl 2) demo_book))) = 2 \<and> grid 0 (dbl 2) \<and> grid_side 0 (asks demo_book)"
  unfolding demo_market
  using market_order_exact [OF grid_exp_0 _ demo_book_ok(2) demo_market] demo_book_ok(2) [of BUY]
  by (simp add: abs_ladder_def taken_side_def demo_book_def)

end
