(* ===== verification/Engine_Protocol.thy ===== *)
theory Engine_Protocol
  imports Protocol Engine_Book
begin

text \<open>
  Orders as the engine reads them (\<^verbatim>\<open>src/Protocol.h\<close>, \<^verbatim>\<open>src/OrderQueue.h\<close>): the reader of numeric members, which calls
  \<^verbatim>\<open>std::stod\<close> on the text after the key, and \<^verbatim>\<open>parseIncomingOrder\<close>; and the queue between the
  thread that reads standard input and the simulation.  The theory shows that a number written by the server's
  encoder is read as the same number.
\<close>

section \<open>The queue\<close>

datatype OrderType = LIMIT | MARKET

record IncomingOrder =
  io_trader_id :: bytes
  io_order_id :: bytes
  io_side :: Side
  io_type :: OrderType
  io_price :: float64
  io_qty :: float64

type_synonym OrderQueue = "IncomingOrder list"

definition queue_push :: "IncomingOrder \<Rightarrow> OrderQueue \<Rightarrow> OrderQueue" where
  "queue_push ord q = q @ [ord]"

definition queue_pop :: "OrderQueue \<Rightarrow> IncomingOrder option \<times> OrderQueue" where
  "queue_pop q = (case q of [] \<Rightarrow> (None, []) | ord # r \<Rightarrow> (Some ord, r))"

section \<open>Numbers\<close>

text \<open>\<^verbatim>\<open>strtod\<close> in the C locale: infinities and NaNs by name, hexadecimal and decimal numbers; the longest prefix
  that is a number counts.\<close>

definition c_space :: "char \<Rightarrow> bool" where
  "c_space c \<longleftrightarrow> byte c = 32 \<or> 9 \<le> byte c \<and> byte c \<le> 13"

definition to_lower :: "char \<Rightarrow> char" where
  "to_lower c = (if 65 \<le> byte c \<and> byte c \<le> 90 then char_of (byte c + 32) else c)"

definition starts_word :: "string \<Rightarrow> string \<Rightarrow> bool" where
  "starts_word w s \<longleftrightarrow> map to_lower (take (length w) s) = w"

text \<open>An exponent: its letter, an optional sign and at least one digit; anything else is not part of the number.\<close>

definition exp_part :: "char \<Rightarrow> string \<Rightarrow> int" where
  "exp_part letter s =
     (case s of
        c # cs \<Rightarrow>
          if to_lower c = letter then
            let (neg, ds) = (case cs of d # r \<Rightarrow> if d = CHR ''-'' then (True, r) else if d = CHR ''+'' then (False, r) else (False, cs)
                             | [] \<Rightarrow> (False, []));
                v = int (digits_val (takeWhile is_digit ds))
            in if neg then - v else v
          else 0
      | [] \<Rightarrow> 0)"

definition is_hex :: "char \<Rightarrow> bool" where
  "is_hex c \<longleftrightarrow> hex_val c \<noteq> None"

definition hex_digits_val :: "string \<Rightarrow> nat" where
  "hex_digits_val ds = foldl (\<lambda>acc c. 16 * acc + the (hex_val c)) 0 ds"

text \<open>Digits before and after the point and what follows.\<close>

definition mantissa :: "(char \<Rightarrow> bool) \<Rightarrow> string \<Rightarrow> string \<times> string \<times> string" where
  "mantissa dig s =
     (let ip = takeWhile dig s; r = dropWhile dig s in
      case r of
        c # cs \<Rightarrow> if c = CHR ''.'' then (ip, takeWhile dig cs, dropWhile dig cs) else (ip, [], r)
      | [] \<Rightarrow> (ip, [], []))"

datatype c_number = CFinite rat | CInf | CNaN

definition strtod_mag :: "string \<Rightarrow> c_number option" where
  "strtod_mag s =
     (if starts_word ''inf'' s then Some CInf
      else if starts_word ''nan'' s then Some CNaN
      else
        let (hi, hf, hr) = mantissa is_hex (drop 2 s); (ip, fp, r) = mantissa is_digit s in
        if starts_word ''0x'' s \<and> hi @ hf \<noteq> []
        then Some (CFinite (of_nat (hex_digits_val (hi @ hf)) * 2 powi (exp_part (CHR ''p'') hr - 4 * int (length hf))))
        else if ip @ fp = [] then None
        else Some (CFinite (of_nat (digits_val (ip @ fp)) * 10 powi (exp_part (CHR ''e'') r - int (length fp)))))"

text \<open>\<^verbatim>\<open>std::stod\<close>: no number and a range error throw, here \<open>None\<close>.  Whether a number too small for a normal double is a
  range error is left to the implementation: the parameter \<open>tiny_throws\<close>.\<close>

definition stod :: "(rat \<Rightarrow> bool) \<Rightarrow> string \<Rightarrow> float64 option" where
  "stod tiny_throws s =
     (let r = dropWhile c_space s;
          (neg, m) = (case r of c # cs \<Rightarrow> if c = CHR ''-'' then (True, cs) else if c = CHR ''+'' then (False, cs) else (False, r)
                      | [] \<Rightarrow> (False, []))
      in case strtod_mag m of
           None \<Rightarrow> None
         | Some CInf \<Rightarrow> Some (F64Inf neg)
         | Some CNaN \<Rightarrow> Some F64NaN
         | Some (CFinite v) \<Rightarrow>
             if v \<noteq> 0 \<and> v < 2 powi (- 1022) \<and> tiny_throws v then None
             else (case to_f64 neg v of F64Inf _ \<Rightarrow> None | x \<Rightarrow> Some x))"

definition extractNumber :: "(rat \<Rightarrow> bool) \<Rightarrow> bytes \<Rightarrow> bytes \<Rightarrow> float64 option" where
  "extractNumber tiny_throws json key =
     (case index_of (key_needle key) json of
        None \<Rightarrow> None
      | Some pos \<Rightarrow>
          let r = dropWhile (\<lambda>c. c = CHR '' '') (drop (pos + length (key_needle key)) json)
          in if r = [] then None else stod tiny_throws r)"

section \<open>Orders\<close>

definition parseIncomingOrder :: "(rat \<Rightarrow> bool) \<Rightarrow> bytes \<Rightarrow> IncomingOrder option" where
  "parseIncomingOrder tiny_throws line =
     (let trader_id = extractString line ''trader_id'';
          order_id = extractString line ''order_id'';
          side_str = extractString line ''side'';
          type_str = extractString line ''type''
      in if trader_id = [] \<or> order_id = [] \<or> side_str = [] then None
         else case extractNumber tiny_throws line ''qty'' of
           None \<Rightarrow> None
         | Some qty \<Rightarrow>
             case (if side_str = ''BUY'' then Some BUY else if side_str = ''SELL'' then Some SELL else None) of
               None \<Rightarrow> None
             | Some side \<Rightarrow>
                 let type = (if type_str = ''MARKET'' then MARKET else LIMIT);
                     price = (case extractNumber tiny_throws line ''price'' of None \<Rightarrow> f64_zero | Some p \<Rightarrow> p)
                 in Some \<lparr>io_trader_id = trader_id, io_order_id = order_id, io_side = side, io_type = type,
                          io_price = price, io_qty = qty\<rparr>)"

text \<open>The loop of the thread on standard input, over the lines it reads: empty and malformed lines are dropped.\<close>

fun stdin_loop :: "(rat \<Rightarrow> bool) \<Rightarrow> bytes list \<Rightarrow> OrderQueue \<Rightarrow> OrderQueue" where
  "stdin_loop tiny_throws [] q = q"
| "stdin_loop tiny_throws (line # ls) q =
     (if line = [] then stdin_loop tiny_throws ls q
      else case parseIncomingOrder tiny_throws line of
        Some ord \<Rightarrow> stdin_loop tiny_throws ls (queue_push ord q)
      | None \<Rightarrow> stdin_loop tiny_throws ls q)"

lemma stdin_loop_eq: "stdin_loop tt ls q = q @ List.map_filter (\<lambda>l. if l = [] then None else parseIncomingOrder tt l) ls"
  by (induction ls arbitrary: q) (auto simp: List.map_filter_simps queue_push_def split: option.splits)

section \<open>Reading what the server writes\<close>

lemma digit_not_letter: "is_digit c \<Longrightarrow> to_lower c = c \<and> \<not> c_space c \<and> c \<noteq> CHR '' ''"
  by (auto simp: is_digit_def to_lower_def c_space_def)

lemma dec_value_num_text:
  assumes "num_parts ip fp sg xs"
  shows "dec_value (num_text ip fp sg xs) =
    of_nat (digits_val (ip @ fp)) * 10 powi ((if xs = [] then 0 else if sg = CHR ''-'' then - int (digits_val xs) else int (digits_val xs)) - int (length fp))"
proof (cases "xs = []")
  case True
  then show ?thesis using assms dec_value_int [of ip] dec_value_frac [of ip fp]
    by (auto simp: num_text_def num_parts_def json_int_def)
next
  case False
  then show ?thesis using assms dec_value_exp [of ip fp xs sg] by (simp add: num_text_def num_parts_def json_int_def)
qed

lemma mantissa_num_text:
  assumes "num_parts ip fp sg xs" "ends_value r"
  shows "mantissa is_digit (num_text ip fp sg xs @ r) = (ip, fp, (if xs = [] then [] else CHR ''e'' # sg # xs) @ r)"
proof -
  let ?x = "(if xs = [] then [] else CHR ''e'' # sg # xs) @ r"
  note p = assms(1) [unfolded num_parts_def json_int_def] and e = ends_value_stop [OF assms(2)]
  have x: "?x = [] \<or> \<not> is_digit (hd ?x) \<and> hd ?x \<noteq> CHR ''.''" using e by (auto simp: is_digit_def)
  have y: "(if fp = [] then [] else CHR ''.'' # fp) @ ?x = [] \<or> \<not> is_digit (hd ((if fp = [] then [] else CHR ''.'' # fp) @ ?x))"
    using x by (auto simp: is_digit_def)
  have t: "num_text ip fp sg xs @ r = ip @ (if fp = [] then [] else CHR ''.'' # fp) @ ?x" by (simp add: num_text_def)
  show ?thesis
    unfolding mantissa_def t Let_def
    using digits_span [OF _ y, of ip] digits_span [of fp ?x] p x by (cases ?x) (auto split: list.splits)
qed

text \<open>A number of the server's encoder starts with a digit, and a leading zero is not followed by a letter \<open>x\<close>.\<close>

lemma num_text_word:
  assumes "num_parts ip fp sg xs" "ends_value r"
  shows "\<not> starts_word ''inf'' (num_text ip fp sg xs @ r)" "\<not> starts_word ''nan'' (num_text ip fp sg xs @ r)"
    "\<not> starts_word ''0x'' (num_text ip fp sg xs @ r)"
proof -
  obtain c cs where ip: "ip = c # cs" "is_digit c" "c = CHR ''0'' \<longrightarrow> cs = []" "list_all is_digit cs"
    using assms(1) by (cases ip) (auto simp: num_parts_def json_int_def)
  have low: "to_lower c = c" "c \<noteq> CHR ''i''" "c \<noteq> CHR ''n''" using digit_not_letter [OF ip(2)] ip(2) by (auto simp: is_digit_def)
  show "\<not> starts_word ''inf'' (num_text ip fp sg xs @ r)" "\<not> starts_word ''nan'' (num_text ip fp sg xs @ r)"
    using low by (auto simp: starts_word_def num_text_def ip)
  show "\<not> starts_word ''0x'' (num_text ip fp sg xs @ r)"
  proof (cases "c = CHR ''0''")
    case True
    then have t: "num_text ip fp sg xs @ r = c # (if fp = [] then [] else CHR ''.'' # fp) @ (if xs = [] then [] else CHR ''e'' # sg # xs) @ r"
      using ip by (simp add: num_text_def)
    show ?thesis unfolding t using assms(2)
      by (cases r) (auto simp: starts_word_def ends_value_def to_lower_def)
  next
    case False
    then show ?thesis using low by (auto simp: starts_word_def num_text_def ip)
  qed
qed

lemma strtod_num_text:
  assumes "num_parts ip fp sg xs" "ends_value r"
  shows "strtod_mag (num_text ip fp sg xs @ r) = Some (CFinite (dec_value (num_text ip fp sg xs)))"
proof -
  note e = ends_value_stop [OF assms(2)] and p = assms(1) [unfolded num_parts_def json_int_def]
  have "exp_part (CHR ''e'') ((if xs = [] then [] else CHR ''e'' # sg # xs) @ r) =
    (if xs = [] then 0 else if sg = CHR ''-'' then - int (digits_val xs) else int (digits_val xs))"
  proof (cases "xs = []")
    case True
    have "to_lower (hd r) \<noteq> CHR ''e''" if "r \<noteq> []" using assms(2) that by (auto simp: ends_value_def to_lower_def)
    then show ?thesis using True by (cases r) (simp_all add: exp_part_def)
  next
    case False
    have "takeWhile is_digit (xs @ r) = xs" using p e digits_span(1) [of xs r] by blast
    then show ?thesis using False p by (auto simp: exp_part_def to_lower_def)
  qed
  then show ?thesis
    using num_text_word [OF assms] p
    by (simp add: strtod_mag_def mantissa_num_text [OF assms] dec_value_num_text [OF assms(1)] split: prod.splits)
qed

text \<open>Zero and the numbers above the smallest normal one: reading them is never a range error.\<close>

definition f64_normal :: "float64 \<Rightarrow> bool" where
  "f64_normal x \<longleftrightarrow> f64_finite x \<and> (f64_val x = 0 \<or> 2 powi (- 1022) < \<bar>f64_val x\<bar>)"

lemma normal_not_tiny:
  assumes "f64_normal (F64 s q)"
  shows "dec_value (fmt_mag q) = 0 \<or> 2 powi (- 1022) < dec_value (fmt_mag q)"
proof (cases "q = 0")
  case True
  then show ?thesis using dec_value_int [of "''0''"] by (simp add: fmt_mag_def)
next
  case False
  let ?b = "2 powi (- 1022) :: rat"
  have q: "f64_mag q" "?b < q"
    using assms False unfolding f64_normal_def by (auto simp: f64_mag_def split: if_splits)
  have b: "f64_round ?b = ?b" using f64_round_dyadic [of 1 "- 1022"] by simp
  have "?b < dec_value (fmt_mag q)"
  proof (rule ccontr)
    assume "\<not> ?b < dec_value (fmt_mag q)"
    then have "f64_round (dec_value (fmt_mag q)) \<le> f64_round ?b" by (intro f64_round_mono dec_value_nonneg) (simp only: not_less)
    then have "q \<le> ?b" unfolding fmt_mag_reads [OF q(1)] b .
    with q(2) show False by (meson leD)
  qed
  then show ?thesis ..
qed

text \<open>A text that is read as a given number wherever a value may end.\<close>

definition stod_reads :: "(rat \<Rightarrow> bool) \<Rightarrow> string \<Rightarrow> float64 \<Rightarrow> bool" where
  "stod_reads tt t x \<longleftrightarrow> (\<exists>c cs. t = c # cs \<and> (c = CHR ''-'' \<or> is_digit c)) \<and> (\<forall>r. ends_value r \<longrightarrow> stod tt (t @ r) = Some x)"

lemma stod_text:
  assumes "num_parts ip fp sg xs" "t = (if neg then ''-'' else []) @ num_text ip fp sg xs" "to_f64 neg (dec_value (num_text ip fp sg xs)) = F64 neg q"
    and "dec_value (num_text ip fp sg xs) = 0 \<or> 2 powi (- 1022) \<le> dec_value (num_text ip fp sg xs)"
  shows "stod_reads tt t (F64 neg q)"
proof -
  let ?v = "dec_value (num_text ip fp sg xs)"
  obtain c cs where c: "num_text ip fp sg xs = c # cs" "is_digit c" using num_text_hd [OF assms(1)] by blast
  have n: "\<not> (?v \<noteq> 0 \<and> ?v < 2 powi (- 1022) \<and> tt ?v)" using assms(4) by (meson not_le)
  have "stod tt (t @ r) = Some (F64 neg q)" if "ends_value r" for r
  proof -
    have s: "strtod_mag (c # cs @ r) = Some (CFinite ?v)"
      using strtod_num_text [OF assms(1) that] by (simp add: c)
    have sp: "dropWhile c_space (t @ r) = t @ r"
      using digit_not_letter [OF c(2)] by (auto simp: assms(2) c c_space_def)
    have "(case t @ r of c # cs \<Rightarrow> if c = CHR ''-'' then (True, cs) else if c = CHR ''+'' then (False, cs) else (False, t @ r)
        | [] \<Rightarrow> (False, [])) = (neg, c # cs @ r)"
      using is_digit_not_sign [OF c(2)] by (auto simp: assms(2) c)
    then show ?thesis
      unfolding stod_def sp Let_def by (simp only: prod.case s option.case c_number.case n if_False assms(3) float64.case)
  qed
  then show ?thesis using c assms(2) by (auto simp: stod_reads_def)
qed

lemma stod_format:
  assumes "f64_normal x" "format_float x = Some t"
  shows "stod_reads tt t x"
proof -
  obtain neg q where x: "x = F64 neg q" "f64_mag q" using assms(1) by (cases x) (auto simp: f64_normal_def)
  obtain ip fp sg xs where m: "fmt_mag q = num_text ip fp sg xs" "num_parts ip fp sg xs"
    using fmt_mag_shape [OF x(2)] by blast
  have "to_f64 neg (dec_value (fmt_mag q)) = F64 neg q" using fmt_mag_reads [OF x(2)] x(2) by (simp add: to_f64_def f64_mag_def)
  moreover have "t = (if neg then ''-'' else []) @ num_text ip fp sg xs" using assms(2) m(1) by (simp add: x)
  ultimately show ?thesis
    using stod_text [OF m(2), of t neg q tt] normal_not_tiny [of neg q] assms(1) m(1) unfolding x by (metis less_imp_le)
qed

lemma extractNumber_member:
  assumes "good_key key" "list_all (other_member key) pre" "stod_reads tt t x"
  shows "extractNumber tt (json_object (pre @ (key, t) # post)) key = Some x"
proof -
  let ?o = "json_object (pre @ (key, t) # post)"
  obtain pos u where i: "index_of (key_needle key) ?o = Some pos" and d: "drop pos ?o = key_needle key @ t @ u"
    and u: "u = (if post = [] then ''}'' else CHR '','' # json_members post @ ''}'')"
    using find_in_object [OF assms(1,2), of "key_needle key" t post] by auto
  have e: "ends_value u" by (simp add: u ends_value_def)
  have "drop (pos + length (key_needle key)) ?o = drop (length (key_needle key)) (drop pos ?o)" by (simp add: add.commute)
  also have "\<dots> = t @ u" unfolding d by simp
  finally have r: "drop (pos + length (key_needle key)) ?o = t @ u" .
  obtain c cs where c: "t = c # cs" "c = CHR ''-'' \<or> is_digit c" using assms(3) by (auto simp: stod_reads_def)
  have "c \<noteq> CHR '' ''" using c(2) digit_not_letter [of c] by auto
  then have "dropWhile (\<lambda>c. c = CHR '' '') (t @ u) = t @ u" "t @ u \<noteq> []" by (simp_all add: c)
  then show ?thesis
    unfolding extractNumber_def i option.case Let_def r using assms(3) e by (simp add: stod_reads_def)
qed

text \<open>A whole number below \<open>2\<^sup>53\<close> in plain digits.\<close>

lemma stod_digits:
  assumes "json_int t" "digits_val t < 2 ^ 53"
  shows "stod_reads tt t (dbl (digits_val t))"
proof -
  have v: "dec_value t = of_nat (digits_val t)" using assms(1) by (simp add: dec_value_int json_int_def)
  have t: "num_text t [] (CHR ''+'') [] = t" by (simp add: num_text_def)
  have "dec_value t = 0 \<or> 1 \<le> dec_value t" using v by (cases "digits_val t") simp_all
  moreover have "(2::rat) powi (- 1022) \<le> 2 powi 0" by (rule power_int_increasing) simp_all
  ultimately have "dec_value t = 0 \<or> 2 powi (- 1022) \<le> dec_value t" by auto
  then show ?thesis
    using stod_text [of t "[]" "CHR ''+''" "[]" t False "of_nat (digits_val t)" tt] assms f64_mag_to_f64 [OF dbl_mag [OF assms(2)]]
    by (simp add: num_parts_def t v dbl_def)
qed

end
