(* ===== verification/Engine_Positions.thy ===== *)
theory Engine_Positions
  imports Engine_Book "HOL-Library.List_Lexorder" "HOL-Library.Char_ord"
begin

text \<open>
  The position tracker of the engine (\<^verbatim>\<open>src/PositionTracker.cpp\<close>).  The table is a \<^verbatim>\<open>std::map\<close> by trader id, here
  its entries in key order.  The specification is average-cost accounting on exact rationals, in which
  realised plus unrealised profit is the cash flow plus the value of the open position.  The engine's
  double arithmetic implements it as long as no operation rounds; the net quantity alone is exact
  for whole quantities, whatever the prices.
\<close>

section \<open>Data\<close>

text \<open>\<open>total_fills\<close> is a C++ \<^verbatim>\<open>int\<close>: its overflow, after \<open>2\<^sup>31\<close> fills of one trader, is undefined; here it wraps.  It is
  never read.\<close>

record Position =
  pos_trader_id :: bytes
  net_qty :: float64
  realised_pnl :: float64
  avg_cost :: float64
  total_fills :: "32 word"

type_synonym positions = "(bytes \<times> Position) list"

definition new_position :: Position where
  "new_position = \<lparr>pos_trader_id = [], net_qty = f64_zero, realised_pnl = f64_zero, avg_cost = f64_zero, total_fills = 0\<rparr>"

section \<open>Operations\<close>

definition unrealisedPnL :: "Position \<Rightarrow> float64 \<Rightarrow> float64" where
  "unrealisedPnL pos currentPrice = f64_mul (f64_sub currentPrice (avg_cost pos)) (net_qty pos)"

text \<open>The body of \<^verbatim>\<open>recordFill\<close> after the entry was found: buying and selling.\<close>

definition buy_fill :: "float64 \<Rightarrow> float64 \<Rightarrow> Position \<Rightarrow> Position" where
  "buy_fill price qty pos =
     (if f64_le f64_zero (net_qty pos) then
        pos\<lparr>avg_cost := f64_div (f64_add (f64_mul (avg_cost pos) (net_qty pos)) (f64_mul price qty)) (f64_add (net_qty pos) qty),
            net_qty := f64_add (net_qty pos) qty\<rparr>
      else
        let short_qty = f64_neg (net_qty pos) in
        if f64_le short_qty qty then
          let remaining = f64_sub qty short_qty;
              pos1 = pos\<lparr>realised_pnl := f64_add (realised_pnl pos) (f64_mul (f64_sub (avg_cost pos) price) short_qty),
                         net_qty := f64_zero\<rparr>
          in if f64_lt f64_zero remaining then pos1\<lparr>avg_cost := price, net_qty := remaining\<rparr> else pos1
        else
          pos\<lparr>realised_pnl := f64_add (realised_pnl pos) (f64_mul (f64_sub (avg_cost pos) price) qty),
              net_qty := f64_add (net_qty pos) qty\<rparr>)"

definition sell_fill :: "float64 \<Rightarrow> float64 \<Rightarrow> Position \<Rightarrow> Position" where
  "sell_fill price qty pos =
     (if f64_le (net_qty pos) f64_zero then
        let abs_qty = f64_neg (net_qty pos) in
        pos\<lparr>avg_cost := f64_div (f64_add (f64_mul (avg_cost pos) abs_qty) (f64_mul price qty)) (f64_add abs_qty qty),
            net_qty := f64_sub (net_qty pos) qty\<rparr>
      else
        let long_qty = net_qty pos in
        if f64_le long_qty qty then
          let remaining = f64_sub qty long_qty;
              pos1 = pos\<lparr>realised_pnl := f64_add (realised_pnl pos) (f64_mul (f64_sub price (avg_cost pos)) long_qty),
                         net_qty := f64_zero\<rparr>
          in if f64_lt f64_zero remaining then pos1\<lparr>avg_cost := price, net_qty := f64_neg remaining\<rparr> else pos1
        else
          pos\<lparr>realised_pnl := f64_add (realised_pnl pos) (f64_mul (f64_sub price (avg_cost pos)) qty),
              net_qty := f64_sub (net_qty pos) qty\<rparr>)"

definition fill_position :: "bytes \<Rightarrow> Side \<Rightarrow> float64 \<Rightarrow> float64 \<Rightarrow> Position \<Rightarrow> Position" where
  "fill_position tid side price qty pos =
     (let pos1 = pos\<lparr>pos_trader_id := tid, total_fills := total_fills pos + 1\<rparr> in
      case side of BUY \<Rightarrow> buy_fill price qty pos1 | SELL \<Rightarrow> sell_fill price qty pos1)"

text \<open>Change the entry of a key, after creating it if it is missing (\<^verbatim>\<open>positions_[trader_id]\<close>).\<close>

fun at_key :: "bytes \<Rightarrow> (Position \<Rightarrow> Position) \<Rightarrow> positions \<Rightarrow> positions" where
  "at_key k f [] = [(k, f new_position)]"
| "at_key k f ((a, v) # m) =
     (if a < k then (a, v) # at_key k f m
      else if k < a then (k, f new_position) # (a, v) # m
      else (a, f v) # m)"

definition recordFill :: "bytes \<Rightarrow> Side \<Rightarrow> float64 \<Rightarrow> float64 \<Rightarrow> positions \<Rightarrow> positions" where
  "recordFill tid side price qty m = at_key tid (fill_position tid side price qty) m"

definition get_position :: "bytes \<Rightarrow> positions \<Rightarrow> Position option" where
  "get_position tid m = map_of m tid"

definition snapshot :: "positions \<Rightarrow> Position list" where
  "snapshot m = map snd m"

section \<open>The table\<close>

definition positions_ok :: "positions \<Rightarrow> bool" where
  "positions_ok m \<longleftrightarrow> sorted_wrt (<) (map fst m) \<and> list_all (\<lambda>(k, p). pos_trader_id p = k) m"

lemma at_key_keys: "fst ` set (at_key k f m) = insert k (fst ` set m)"
proof (induction m)
  case (Cons e m)
  obtain a v where e: "e = (a, v)" by (cases e)
  show ?case by (cases "a < k"; cases "k < a") (use Cons in \<open>auto simp: e insert_commute\<close>)
qed simp

lemma at_key_sorted: "sorted_wrt (<) (map fst m) \<Longrightarrow> sorted_wrt (<) (map fst (at_key k f m))"
proof (induction m)
  case (Cons e m)
  obtain a v where e: "e = (a, v)" by (cases e)
  show ?case
  proof (cases "a < k")
    case True
    then show ?thesis using Cons at_key_keys [of k f m] by (simp add: e)
  next
    case False
    then show ?thesis using Cons.prems by (auto simp: e)
  qed
qed simp

lemma at_key_lookup:
  "sorted_wrt (<) (map fst m) \<Longrightarrow>
   map_of (at_key k f m) = (map_of m)(k \<mapsto> f (case map_of m k of None \<Rightarrow> new_position | Some p \<Rightarrow> p))"
proof (induction m)
  case (Cons e m)
  obtain a v where e: "e = (a, v)" by (cases e)
  consider "a < k" | "k < a" | "a = k" by fastforce
  then show ?case
  proof cases
    case 2
    then have "k \<notin> fst ` set m" using Cons.prems by (force simp: e)
    then have "map_of m k = None" by (simp add: map_of_eq_None_iff)
    with 2 show ?thesis by (auto simp: e fun_eq_iff)
  qed (use Cons in \<open>auto simp: e fun_eq_iff\<close>)
qed simp

lemma fill_position_id [simp]: "pos_trader_id (fill_position tid side price qty p) = tid"
  by (cases side) (simp_all add: fill_position_def buy_fill_def sell_fill_def Let_def)

lemma recordFill_ok [keeps]: "positions_ok m \<Longrightarrow> positions_ok (recordFill tid side price qty m)"
proof -
  have "list_all (\<lambda>(k, p). pos_trader_id p = k) m \<Longrightarrow>
    list_all (\<lambda>(k, p). pos_trader_id p = k) (at_key tid (fill_position tid side price qty) m)"
    by (induction m) auto
  then show "positions_ok m \<Longrightarrow> ?thesis" by (simp add: positions_ok_def recordFill_def at_key_sorted)
qed

lemma recordFill_get:
  "positions_ok m \<Longrightarrow>
   get_position k (recordFill tid side price qty m) =
     (if k = tid then Some (fill_position tid side price qty (case get_position tid m of None \<Rightarrow> new_position | Some p \<Rightarrow> p))
      else get_position k m)"
  by (simp add: positions_ok_def recordFill_def get_position_def at_key_lookup)

section \<open>The specification: average-cost accounting\<close>

text \<open>An account is the net quantity, its average cost and the realised profit; a fill is a signed quantity at a
  price.\<close>

type_synonym account = "rat \<times> rat \<times> rat"

fun account_fill :: "rat \<Rightarrow> rat \<Rightarrow> account \<Rightarrow> account" where
  "account_fill d p (n, a, r) =
     (if 0 \<le> n * d then (n + d, (a * \<bar>n\<bar> + p * \<bar>d\<bar>) / (\<bar>n\<bar> + \<bar>d\<bar>), r)
      else (n + d, if \<bar>n\<bar> < \<bar>d\<bar> then p else a, r + (p - a) * sgn n * min \<bar>n\<bar> \<bar>d\<bar>))"

text \<open>Realised profit less the cost of the open position: the cash flow of all fills.\<close>

fun account_cash :: "account \<Rightarrow> rat" where
  "account_cash (n, a, r) = r - a * n"

lemma account_fill_cash: "d \<noteq> 0 \<Longrightarrow> account_cash (account_fill d p acc) = account_cash acc - p * d"
proof -
  assume d: "d \<noteq> 0"
  obtain n a r where acc: "acc = (n, a, r)" by (cases acc)
  consider "0 \<le> n * d" | "n < 0" "0 < d" | "0 < n" "d < 0"
    using mult_less_0_iff [of n d] by (metis not_le)
  then show ?thesis
  proof cases
    case 1
    then have s: "\<bar>n\<bar> + \<bar>d\<bar> = \<bar>n + d\<bar>" "n + d \<noteq> 0" using d by (auto simp: zero_le_mult_iff)
    have "(a * \<bar>n\<bar> + p * \<bar>d\<bar>) / (\<bar>n\<bar> + \<bar>d\<bar>) * (n + d) = a * n + p * d"
      using 1 s d by (auto simp: zero_le_mult_iff field_simps abs_if split: if_splits)
    then show ?thesis using 1 by (simp add: acc)
  qed (auto simp: acc min_def algebra_simps mult_less_0_iff zero_le_mult_iff)
qed

lemma account_fill_net: "fst (account_fill d p acc) = fst acc + d"
  by (cases acc) simp

section \<open>Exact operations\<close>

definition exact_add :: "float64 \<Rightarrow> float64 \<Rightarrow> bool" where
  "exact_add x y \<longleftrightarrow> f64_num (f64_add x y) \<and> f64_val (f64_add x y) = f64_val x + f64_val y"

definition exact_sub :: "float64 \<Rightarrow> float64 \<Rightarrow> bool" where
  "exact_sub x y \<longleftrightarrow> f64_num (f64_sub x y) \<and> f64_val (f64_sub x y) = f64_val x - f64_val y"

definition exact_mul :: "float64 \<Rightarrow> float64 \<Rightarrow> bool" where
  "exact_mul x y \<longleftrightarrow> f64_num (f64_mul x y) \<and> f64_val (f64_mul x y) = f64_val x * f64_val y"

definition exact_div :: "float64 \<Rightarrow> float64 \<Rightarrow> bool" where
  "exact_div x y \<longleftrightarrow> f64_num (f64_div x y) \<and> f64_val (f64_div x y) = f64_val x / f64_val y"

lemmas exact_ops = exact_add_def exact_sub_def exact_mul_def exact_div_def

text \<open>The operations of a fill that extends a position of size \<open>n\<close>, and of one that closes the quantity \<open>c\<close>
  with profit \<open>g\<close> per unit.\<close>

definition exact_extend :: "float64 \<Rightarrow> float64 \<Rightarrow> float64 \<Rightarrow> float64 \<Rightarrow> bool" where
  "exact_extend n a price qty \<longleftrightarrow>
     exact_mul a n \<and> exact_mul price qty \<and> exact_add (f64_mul a n) (f64_mul price qty) \<and> exact_add n qty \<and>
     exact_div (f64_add (f64_mul a n) (f64_mul price qty)) (f64_add n qty)"

definition exact_close :: "float64 \<Rightarrow> float64 \<Rightarrow> float64 \<Rightarrow> float64 \<Rightarrow> bool" where
  "exact_close x y c r \<longleftrightarrow> exact_sub x y \<and> exact_mul (f64_sub x y) c \<and> exact_add r (f64_mul (f64_sub x y) c)"

text \<open>No operation of a fill rounds or overflows.\<close>

definition exact_fill :: "Side \<Rightarrow> float64 \<Rightarrow> float64 \<Rightarrow> Position \<Rightarrow> bool" where
  "exact_fill side price qty pos \<longleftrightarrow> f64_num price \<and> f64_num qty \<and> 0 < f64_val qty \<and>
     (case side of
        BUY \<Rightarrow>
          if f64_le f64_zero (net_qty pos) then exact_extend (net_qty pos) (avg_cost pos) price qty
          else if f64_le (f64_neg (net_qty pos)) qty
          then exact_close (avg_cost pos) price (f64_neg (net_qty pos)) (realised_pnl pos) \<and> exact_sub qty (f64_neg (net_qty pos))
          else exact_close (avg_cost pos) price qty (realised_pnl pos) \<and> exact_add (net_qty pos) qty
      | SELL \<Rightarrow>
          if f64_le (net_qty pos) f64_zero
          then exact_extend (f64_neg (net_qty pos)) (avg_cost pos) price qty \<and> exact_sub (net_qty pos) qty
          else if f64_le (net_qty pos) qty
          then exact_close price (avg_cost pos) (net_qty pos) (realised_pnl pos) \<and> exact_sub qty (net_qty pos)
          else exact_close price (avg_cost pos) qty (realised_pnl pos) \<and> exact_sub (net_qty pos) qty)"

definition abs_position :: "Position \<Rightarrow> account" where
  "abs_position pos = (f64_val (net_qty pos), f64_val (avg_cost pos), f64_val (realised_pnl pos))"

definition signed_qty :: "Side \<Rightarrow> float64 \<Rightarrow> rat" where
  "signed_qty side qty = (case side of BUY \<Rightarrow> f64_val qty | SELL \<Rightarrow> - f64_val qty)"

text \<open>A fill without rounding is a step of the specification.\<close>

lemma fill_position_refines:
  assumes "f64_num (net_qty pos)" "exact_fill side price qty pos"
  shows "abs_position (fill_position tid side price qty pos) = account_fill (signed_qty side qty) (f64_val price) (abs_position pos)"
    and "f64_num (net_qty (fill_position tid side price qty pos))"
proof -
  let ?n = "f64_val (net_qty pos)" and ?q = "f64_val qty"
  have q: "f64_num qty" "0 < ?q" using assms(2) by (simp_all add: exact_fill_def)
  have ord: "f64_le f64_zero (net_qty pos) \<longleftrightarrow> 0 \<le> ?n" "f64_le (net_qty pos) f64_zero \<longleftrightarrow> ?n \<le> 0"
    "f64_le (f64_neg (net_qty pos)) qty \<longleftrightarrow> - ?n \<le> ?q" "f64_le (net_qty pos) qty \<longleftrightarrow> ?n \<le> ?q"
    using assms(1) q(1) by (simp_all add: f64_num_order)
  have rem: "f64_num x \<Longrightarrow> f64_lt f64_zero x \<longleftrightarrow> 0 < f64_val x" for x by (simp add: f64_num_order)
  note defs = abs_position_def fill_position_def buy_fill_def sell_fill_def exact_fill_def exact_extend_def exact_close_def
    exact_ops signed_qty_def Let_def ord rem
  have "abs_position (fill_position tid side price qty pos) = account_fill (signed_qty side qty) (f64_val price) (abs_position pos)
    \<and> f64_num (net_qty (fill_position tid side price qty pos))"
  proof (cases side)
    case BUY
    consider "0 \<le> ?n" | "?n < 0" "- ?n \<le> ?q" | "?n < 0" "?q < - ?n" by linarith
    then show ?thesis
      using assms(2) q by cases (auto simp: BUY defs min_def zero_le_mult_iff mult_le_0_iff)
  next
    case SELL
    consider "?n \<le> 0" | "0 < ?n" "?n \<le> ?q" | "0 < ?n" "?q < ?n" by linarith
    then show ?thesis
      using assms(2) q by cases (auto simp: SELL defs min_def zero_le_mult_iff mult_le_0_iff)
  qed
  then show "abs_position (fill_position tid side price qty pos) = account_fill (signed_qty side qty) (f64_val price) (abs_position pos)"
    "f64_num (net_qty (fill_position tid side price qty pos))" by simp_all
qed

section \<open>Sequences of fills\<close>

type_synonym fill_rec = "Side \<times> float64 \<times> float64"

fun run_fills :: "bytes \<Rightarrow> fill_rec list \<Rightarrow> Position \<Rightarrow> Position" where
  "run_fills tid [] pos = pos"
| "run_fills tid ((side, price, qty) # fs) pos = run_fills tid fs (fill_position tid side price qty pos)"

fun exact_run :: "bytes \<Rightarrow> fill_rec list \<Rightarrow> Position \<Rightarrow> bool" where
  "exact_run tid [] pos = True"
| "exact_run tid ((side, price, qty) # fs) pos \<longleftrightarrow>
     exact_fill side price qty pos \<and> exact_run tid fs (fill_position tid side price qty pos)"

text \<open>What a trader gained when the fills are valued at the price \<open>x\<close>, and the balance of the quantities.\<close>

definition marked_gain :: "rat \<Rightarrow> fill_rec list \<Rightarrow> rat" where
  "marked_gain x fs = (\<Sum>(side, price, qty) \<leftarrow> fs. signed_qty side qty * (x - f64_val price))"

definition balance :: "fill_rec list \<Rightarrow> rat" where
  "balance fs = (\<Sum>(side, price, qty) \<leftarrow> fs. signed_qty side qty)"

definition volume :: "fill_rec list \<Rightarrow> rat" where
  "volume fs = (\<Sum>(side, price, qty) \<leftarrow> fs. f64_val qty)"

lemma fill_sums [simp]:
  "marked_gain x [] = 0" "marked_gain x ((side, price, qty) # fs) = signed_qty side qty * (x - f64_val price) + marked_gain x fs"
  "balance [] = 0" "balance ((side, price, qty) # fs) = signed_qty side qty + balance fs"
  "volume [] = 0" "volume ((side, price, qty) # fs) = f64_val qty + volume fs"
  by (simp_all add: marked_gain_def balance_def volume_def)

fun marked_value :: "rat \<Rightarrow> account \<Rightarrow> rat" where
  "marked_value x (n, a, r) = r + (x - a) * n"

lemma marked_value_cash: "marked_value x acc = account_cash acc + x * fst acc"
  by (cases acc) (simp add: algebra_simps)

lemma signed_qty_nonzero: "exact_fill side price qty pos \<Longrightarrow> signed_qty side qty \<noteq> 0"
  by (cases side) (auto simp: exact_fill_def signed_qty_def)

lemma exact_run_gain:
  "f64_num (net_qty pos) \<Longrightarrow> exact_run tid fs pos \<Longrightarrow>
   marked_value x (abs_position (run_fills tid fs pos)) = marked_value x (abs_position pos) + marked_gain x fs \<and>
   fst (abs_position (run_fills tid fs pos)) = fst (abs_position pos) + balance fs"
proof (induction fs arbitrary: pos)
  case (Cons f fs)
  obtain side price qty where f: "f = (side, price, qty)" by (cases f)
  let ?p = "fill_position tid side price qty pos"
  have ex: "exact_fill side price qty pos" using Cons.prems by (simp add: f)
  note r = fill_position_refines [OF Cons.prems(1) ex, of tid]
  have "marked_value x (abs_position ?p) = marked_value x (abs_position pos) + signed_qty side qty * (x - f64_val price)"
    by (simp add: marked_value_cash r(1) account_fill_cash [OF signed_qty_nonzero [OF ex]] account_fill_net algebra_simps)
  with Cons.IH [OF r(2)] Cons.prems(2) show ?case by (auto simp: f r(1) account_fill_net)
qed simp

text \<open>The net quantity on one grid, whatever the prices.\<close>

lemma fill_net_grid:
  assumes "grid_exp e" "sgrid e (net_qty pos)" "grid e qty" "\<bar>f64_val (net_qty pos)\<bar> + f64_val qty < 2 powi (e + 53)"
  shows "sgrid e (net_qty (fill_position tid side price qty pos)) \<and>
    f64_val (net_qty (fill_position tid side price qty pos)) = f64_val (net_qty pos) + signed_qty side qty"
proof -
  let ?n = "net_qty pos"
  have q: "sgrid e qty" "0 \<le> f64_val qty" using assms(3) by (auto simp: grid_sgrid grid_def)
  note num = sgrid_f64_num [OF assms(2)] sgrid_f64_num [OF q(1)]
  have ord: "f64_le f64_zero ?n \<longleftrightarrow> 0 \<le> f64_val ?n" "f64_le ?n f64_zero \<longleftrightarrow> f64_val ?n \<le> 0"
    "f64_le (f64_neg ?n) qty \<longleftrightarrow> - f64_val ?n \<le> f64_val qty" "f64_le ?n qty \<longleftrightarrow> f64_val ?n \<le> f64_val qty"
    using num by (simp_all add: f64_num_order)
  have b: "\<bar>f64_val ?n + f64_val qty\<bar> < 2 powi (e + 53)" "\<bar>f64_val ?n - f64_val qty\<bar> < 2 powi (e + 53)"
    "\<bar>f64_val qty - f64_val (f64_neg ?n)\<bar> < 2 powi (e + 53)" "\<bar>f64_val qty - f64_val ?n\<bar> < 2 powi (e + 53)"
    using assms(4) q(2) by auto
  have ng: "sgrid e (f64_neg ?n)" using assms(2) by simp
  note a = sgrid_add [OF assms(1,2) q(1) b(1)] and s = sgrid_sub [OF assms(1,2) q(1) b(2)]
    and ra = sgrid_sub [OF assms(1) q(1) ng b(3)] and rs = sgrid_sub [OF assms(1) q(1) assms(2) b(4)]
  note rem = f64_num_order(1) [OF f64_num_zero(1) sgrid_f64_num [OF ra(1)]] f64_num_order(1) [OF f64_num_zero(1) sgrid_f64_num [OF rs(1)]]
  show ?thesis
    by (cases side) (auto simp: fill_position_def buy_fill_def sell_fill_def Let_def ord signed_qty_def a s ra rs rem)
qed

lemma run_net_grid:
  assumes "grid_exp e"
  shows "sgrid e (net_qty pos) \<Longrightarrow> list_all (\<lambda>(side, price, qty). grid e qty) fs \<Longrightarrow>
    \<bar>f64_val (net_qty pos)\<bar> + volume fs < 2 powi (e + 53) \<Longrightarrow>
    f64_val (net_qty (run_fills tid fs pos)) = f64_val (net_qty pos) + balance fs"
proof (induction fs arbitrary: pos)
  case (Cons f fs)
  obtain side price qty where f: "f = (side, price, qty)" by (cases f)
  have nonneg: "list_all (\<lambda>(side, price, qty). grid e qty) gs \<Longrightarrow> 0 \<le> volume gs" for gs
    by (induction gs) (auto simp: grid_def)
  have q: "grid e qty" "0 \<le> f64_val qty" using Cons.prems(2) by (auto simp: f grid_def)
  have "0 \<le> volume fs" using nonneg Cons.prems(2) by simp
  then have n: "\<bar>f64_val (net_qty pos)\<bar> + f64_val qty < 2 powi (e + 53)" using Cons.prems(3) by (simp add: f)
  note g = fill_net_grid [OF assms Cons.prems(1) q(1) n, of tid side price]
  have "\<bar>f64_val (net_qty pos) + signed_qty side qty\<bar> \<le> \<bar>f64_val (net_qty pos)\<bar> + f64_val qty"
    using q(2) by (cases side) (auto simp: signed_qty_def)
  with Cons.IH [OF conjunct1 [OF g]] Cons.prems g show ?case by (simp add: f)
qed simp

section \<open>Properties\<close>

text \<open>Property C10. The profit and loss the tracker reports is the right one: for any fills of one trader, applied
  from an empty position by \<^verbatim>\<open>recordFill\<close>, if no double operation on the way rounds, then realised profit plus the
  open position valued at any price \<open>x\<close> against its average cost equals the sum over all fills of
  signed quantity times \<open>x\<close> less the fill price, and the net quantity is bought less sold.  Closing, flipping
  and averaging a position never create or lose money.\<close>

theorem position_pnl_identity:
  assumes "exact_run tid fs new_position"
  shows "let pos = run_fills tid fs new_position in
    f64_val (realised_pnl pos) + (x - f64_val (avg_cost pos)) * f64_val (net_qty pos) = marked_gain x fs \<and>
    f64_val (net_qty pos) = balance fs"
proof -
  let ?pos = "run_fills tid fs new_position"
  have start: "f64_num (net_qty new_position)" "abs_position new_position = (0, 0, 0)"
    by (simp_all add: new_position_def abs_position_def)
  from exact_run_gain [OF start(1) assms, of x]
  have "marked_value x (abs_position ?pos) = marked_gain x fs \<and> fst (abs_position ?pos) = balance fs"
    by (simp add: start(2))
  then show ?thesis by (auto simp: abs_position_def Let_def)
qed

text \<open>Property C25. Whatever the prices and however they round, the net quantity is exact while the quantities are
  whole numbers (or multiples of some \<open>2\<^sup>e\<close>) and less than \<open>2\<^sup>53\<close> units have been traded: it equals the
  quantity bought less the quantity sold.\<close>

theorem position_net_exact:
  assumes "grid_exp e" "list_all (\<lambda>(side, price, qty). grid e qty) fs" "volume fs < 2 powi (e + 53)"
  shows "f64_val (net_qty (run_fills tid fs new_position)) = balance fs"
proof -
  have "sgrid e (net_qty new_position)" "f64_val (net_qty new_position) = 0" by (simp_all add: new_position_def)
  with run_net_grid [OF assms(1) _ assms(2), of new_position tid] assms(3) show ?thesis by simp
qed

text \<open>Buy three at 100, three at 110, sell four at 120.\<close>

definition demo_fills :: "fill_rec list" where
  "demo_fills = [(BUY, dbl 100, dbl 3), (BUY, dbl 110, dbl 3), (SELL, dbl 120, dbl 4)]"

lemma demo_div: "f64_div (dbl 300) (dbl 3) = dbl 100" "f64_div (dbl 630) (dbl 6) = dbl 105"
  using dbl_div [of 3 100] dbl_div [of 6 105] by simp_all

lemmas demo_eval = demo_div dbl_add dbl_sub dbl_mul f64_le_def new_position_def exact_fill_def exact_extend_def exact_close_def
  exact_ops fill_position_def buy_fill_def sell_fill_def Let_def dbl_0

lemma demo_exact: "exact_run ''t'' demo_fills new_position"
  by (simp add: demo_fills_def demo_eval)

lemma demo_sums: "marked_gain 115 demo_fills = 80" "balance demo_fills = 2"
  by (simp_all add: demo_fills_def signed_qty_def)

theorem position_pnl_identity_witness:
  "exact_run ''t'' demo_fills new_position \<and>
   (let pos = run_fills ''t'' demo_fills new_position in
    f64_val (realised_pnl pos) + (115 - f64_val (avg_cost pos)) * f64_val (net_qty pos) = 80 \<and> f64_val (net_qty pos) = 2)"
  using position_pnl_identity [OF demo_exact, of 115] demo_exact unfolding demo_sums by blast

theorem position_net_exact_witness:
  "grid_exp 0 \<and> list_all (\<lambda>(side, price, qty). grid 0 qty) demo_fills \<and> volume demo_fills < 2 powi (0 + 53) \<and>
   f64_val (net_qty (run_fills ''t'' demo_fills new_position)) = 2"
  using position_net_exact [of 0 demo_fills "''t''"] by (simp add: demo_fills_def signed_qty_def powi_nat)

end
