(* ===== verification/Engine_Price.thy ===== *)
theory Engine_Price
  imports Float_Arith
begin

text \<open>
  The random walk of the mid price (\<^verbatim>\<open>src/PriceEngine.cpp\<close>).  The draws of the random number generator are
  arguments; what the code relies on is that \<^verbatim>\<open>uniform_real_distribution(-0.01, 0.01)\<close> stays within its bounds.
\<close>

definition kFloor :: float64 where
  "kFloor = dbl 10"

text \<open>\<open>nextPrice r p\<close>: the price after the draw \<open>r\<close>.\<close>

definition nextPrice :: "float64 \<Rightarrow> float64 \<Rightarrow> float64" where
  "nextPrice r price =
     (let candidate = f64_mul price (f64_add (dbl 1) r)
      in if f64_lt kFloor candidate then candidate else kFloor)"

definition draw_ok :: "float64 \<Rightarrow> bool" where
  "draw_ok r \<longleftrightarrow> f64_le (f64_const (- (1 / 100))) r \<and> f64_le r (f64_const (1 / 100))"

section \<open>Bounds\<close>

text \<open>Never below the floor and never a NaN, whatever the draw.\<close>

lemma nextPrice_floor: "f64_le kFloor (nextPrice r price)"
  by (auto simp: nextPrice_def Let_def f64_le_def kFloor_def)

lemma hundredth: "f64_round (1 / 100) \<le> 1 / 100 + 1 / 2 ^ 59" "0 \<le> f64_round (1 / 100)"
proof -
  have "(2::rat) powi (- 1022) \<le> 2 powi (- 7)" by (rule power_int_increasing) simp_all
  also have "\<dots> \<le> 1 / 100" by (simp add: power_int_minus)
  finally have "\<bar>f64_round (1 / 100) - 1 / 100\<bar> \<le> 1 / 100 / 2 ^ 53" by (rule f64_round_rel)
  moreover have "(1::rat) / 100 / 2 ^ 53 \<le> 1 / 2 ^ 59" by simp
  ultimately show "f64_round (1 / 100) \<le> 1 / 100 + 1 / 2 ^ 59" by linarith
  show "0 \<le> f64_round (1 / 100)" by (rule f64_round_nonneg) simp
qed

lemma draw_val:
  assumes "draw_ok r"
  shows "f64_num r" "\<bar>f64_val r\<bar> \<le> 1 / 100 + 1 / 2 ^ 59"
proof -
  have c: "f64_const (1 / 100) = F64 False (f64_round (1 / 100))" "f64_const (- (1 / 100)) = F64 True (f64_round (1 / 100))"
    using to_f64_num [of "1 / 100"] by (simp_all add: f64_const_def f64_signed_def)
  show n: "f64_num r" using assms by (cases r) (auto simp: draw_ok_def c f64_le_def)
  have "- f64_round (1 / 100) \<le> f64_val r \<and> f64_val r \<le> f64_round (1 / 100)"
    using assms n by (simp add: draw_ok_def c f64_num_order)
  then show "\<bar>f64_val r\<bar> \<le> 1 / 100 + 1 / 2 ^ 59" using hundredth by linarith
qed

text \<open>The factor \<open>1 + r\<close> after rounding.\<close>

lemma factor_bounds:
  assumes "draw_ok r"
  shows "\<exists>f. f64_add (dbl 1) r = F64 False f \<and> \<bar>f - 1\<bar> \<le> 1 / 100 + 1 / 2 ^ 50"
proof -
  obtain s q where r: "r = F64 s q" using draw_val(1) [OF assms] by (cases r) auto
  define v where "v = 1 + f64_val r"
  have b: "\<bar>v - 1\<bar> \<le> 1 / 100 + 1 / 2 ^ 59" using draw_val(2) [OF assms] by (simp add: v_def)
  have "\<bar>v - 1\<bar> \<le> 1 / 2" using b by (rule order_trans) simp
  then have v: "1 / 2 \<le> v" "v \<le> 2" by (simp_all add: abs_if split: if_splits)
  have "(2::rat) powi (- 1022) \<le> 2 powi (- 1)" by (rule power_int_increasing) simp_all
  then have "2 powi (- 1022) \<le> v" using v(1) by (simp add: power_int_minus)
  then have "\<bar>f64_round v - v\<bar> \<le> v / 2 ^ 53" by (rule f64_round_rel)
  also have "\<dots> \<le> 1 / 2 ^ 52" using v(2) by simp
  finally have "\<bar>f64_round v - 1\<bar> \<le> 1 / 100 + 1 / 2 ^ 59 + 1 / 2 ^ 52" using b by linarith
  then have "\<bar>f64_round v - 1\<bar> \<le> 1 / 100 + 1 / 2 ^ 50" by (rule order_trans) simp
  moreover have "f64_add (dbl 1) r = F64 False (f64_round v)"
    using v to_f64_num [of v False] by (simp add: r dbl_def f64_signed_def v_def)
  ultimately show ?thesis by blast
qed

lemma nextPrice_step:
  assumes "draw_ok r" "10 \<le> p" "p < 2 ^ 1022"
  shows "\<exists>p'. nextPrice r (F64 False p) = F64 False p' \<and> f64_mag p' \<and> 10 \<le> p' \<and> \<bar>p' - p\<bar> \<le> p * (101 / 10000)"
proof -
  obtain f where f: "f64_add (dbl 1) r = F64 False f" "\<bar>f - 1\<bar> \<le> 1 / 100 + 1 / 2 ^ 50"
    using factor_bounds [OF assms(1)] by blast
  define v where "v = p * f"
  have v: "\<bar>v - p\<bar> \<le> p * (1 / 100 + 1 / 2 ^ 50)"
  proof -
    have "v - p = p * (f - 1)" by (simp add: v_def algebra_simps)
    then have "\<bar>v - p\<bar> = p * \<bar>f - 1\<bar>" using assms(2) by (simp add: abs_mult)
    also have "\<dots> \<le> p * (1 / 100 + 1 / 2 ^ 50)" by (rule mult_left_mono [OF f(2)]) (use assms(2) in simp)
    finally show ?thesis .
  qed
  have "\<bar>v - p\<bar> \<le> p * (1 / 2)" using v by (rule order_trans) (use assms(2) in \<open>intro mult_left_mono, simp_all\<close>)
  then have v1: "1 \<le> v" "v \<le> 2 * p" using assms(2) by (simp_all add: abs_if split: if_splits)
  have "(2::rat) powi (- 1022) \<le> 2 powi 0" by (rule power_int_increasing) simp_all
  then have "2 powi (- 1022) \<le> v" using v1(1) by simp
  then have "\<bar>f64_round v - v\<bar> \<le> v / 2 ^ 53" by (rule f64_round_rel)
  also have "\<dots> \<le> p / 2 ^ 52" using v1(2) by simp
  finally have r: "\<bar>f64_round v - v\<bar> \<le> p / 2 ^ 52" .
  have "\<bar>f64_round v - p\<bar> \<le> \<bar>f64_round v - v\<bar> + \<bar>v - p\<bar>" by simp
  also have "\<dots> \<le> p / 2 ^ 52 + p * (1 / 100 + 1 / 2 ^ 50)" by (rule add_mono [OF r v])
  also have "\<dots> = p * (1 / 2 ^ 52 + (1 / 100 + 1 / 2 ^ 50))" by (simp add: algebra_simps)
  also have "\<dots> \<le> p * (101 / 10000)" by (rule mult_left_mono) (use assms(2) in simp_all)
  finally have near: "\<bar>f64_round v - p\<bar> \<le> p * (101 / 10000)" .
  have big: "v < 2 ^ 1023" using v1(2) assms(3) by simp
  then have c: "f64_mul (F64 False p) (f64_add (dbl 1) r) = F64 False (f64_round v)" "f64_mag (f64_round v)"
    unfolding f(1) using to_f64_num [of v False] v1 by (simp_all add: v_def)
  show ?thesis
  proof (cases "10 < f64_round v")
    case True
    then show ?thesis using c near unfolding nextPrice_def c(1) by (auto simp: kFloor_def dbl_def)
  next
    case False
    then have "nextPrice r (F64 False p) = F64 False 10" unfolding nextPrice_def c(1) by (simp add: kFloor_def dbl_def)
    moreover have "\<bar>10 - p\<bar> \<le> p * (101 / 10000)" using near False assms(2) by linarith
    moreover have "f64_mag 10" using dbl_mag [of 10] by simp
    ultimately show ?thesis by auto
  qed
qed

section \<open>Properties\<close>

text \<open>Property C16. The simulated mid price, over any number \<open>n\<close> of ticks and whatever the random draws within the bounds
  of the distribution: it is never below the floor of 10, moves by at most 1.01 percent in each tick, and so stays a
  finite number of at most \<open>p \<cdot> 1.0101\<^sup>n\<close> as long as that is below \<open>2\<^sup>1022\<close>.\<close>

theorem price_walk_bounds:
  assumes "list_all draw_ok rs" "10 \<le> p" "p * (10101 / 10000) ^ length rs < 2 ^ 1022"
  shows "\<exists>p'. foldl (\<lambda>x r. nextPrice r x) (F64 False p) rs = F64 False p' \<and> 10 \<le> p' \<and>
    p' \<le> p * (10101 / 10000) ^ length rs \<and>
    (rs \<noteq> [] \<longrightarrow> f64_mag p' \<and> (\<exists>p0. foldl (\<lambda>x r. nextPrice r x) (F64 False p) (butlast rs) = F64 False p0 \<and> \<bar>p' - p0\<bar> \<le> p0 * (101 / 10000)))"
  using assms(1,3)
proof (induction rs rule: rev_induct)
  case Nil
  then show ?case using assms(2) by simp
next
  case (snoc r rs)
  let ?K = "10101 / 10000 :: rat"
  have "p * ?K ^ length rs \<le> p * ?K ^ length rs * ?K" using assms(2) by simp
  then have small: "p * ?K ^ length rs < 2 ^ 1022" using snoc.prems(2) by (simp add: mult.assoc mult.commute)
  obtain p0 where p0: "foldl (\<lambda>x r. nextPrice r x) (F64 False p) rs = F64 False p0" "10 \<le> p0" "p0 \<le> p * ?K ^ length rs"
    using snoc small by auto
  have "p0 < 2 ^ 1022" using p0(3) small by (rule le_less_trans)
  then obtain p' where p': "nextPrice r (F64 False p0) = F64 False p'" "f64_mag p'" "10 \<le> p'" "\<bar>p' - p0\<bar> \<le> p0 * (101 / 10000)"
    using nextPrice_step [of r p0] snoc.prems(1) p0(2) by auto
  have "p' \<le> p0 * ?K" using p'(4) by linarith
  also have "\<dots> \<le> p * ?K ^ length rs * ?K" by (rule mult_right_mono [OF p0(3)]) simp
  finally show ?case using p0 p' by (auto simp: mult.assoc mult.commute)
qed

text \<open>Three ticks from the start price 100.\<close>

theorem price_walk_bounds_witness:
  "list_all draw_ok [f64_zero, f64_zero, f64_zero] \<and>
   (\<exists>p'. foldl (\<lambda>x r. nextPrice r x) (F64 False 100) [f64_zero, f64_zero, f64_zero] = F64 False p' \<and> 10 \<le> p' \<and> p' \<le> 104)"
proof -
  have z: "draw_ok f64_zero"
    using to_f64_num [of "1 / 100"] hundredth(2) by (simp add: draw_ok_def f64_const_def f64_signed_def f64_num_order)
  then have "list_all draw_ok [f64_zero, f64_zero, f64_zero]" by simp
  moreover have "(100::rat) * (10101 / 10000) ^ 3 \<le> 104" by (simp add: power_divide)
  ultimately show ?thesis
    using price_walk_bounds [of "[f64_zero, f64_zero, f64_zero]" 100] by fastforce
qed

end
