(* ===== verification/Engine_Text.thy ===== *)
theory Engine_Text
  imports Json Float_Arith
begin

text \<open>
  The text the engine writes.  Numbers go through \<^verbatim>\<open>std::ostream\<close> with its default format, which is
  \<^verbatim>\<open>%g\<close> with six significant digits; objects and arrays are put together by hand.  The theory shows that the
  numbers are numbers of the JSON grammar and what precision they keep, and that nested texts of this kind are read
  back by the decoder of the server.
\<close>

section \<open>Numbers with six significant digits\<close>

text \<open>The six digits, correctly rounded, and the exponent of the last one.\<close>

definition g_digits :: "rat \<Rightarrow> nat \<times> int" where
  "g_digits q =
     (let s = flog 10 q - 5; m = nat (round_half_even (q / 10 powi s))
      in if m = 10 ^ 6 then (10 ^ 5, s + 1) else (m, s))"

text \<open>The exponent has at least two digits.\<close>

definition pad2 :: "string \<Rightarrow> string" where
  "pad2 ds = (if length ds < 2 then CHR ''0'' # ds else ds)"

definition fmt_exp2 :: "nat \<Rightarrow> int \<Rightarrow> string" where
  "fmt_exp2 m k =
     (let ds = nat_digits m; x = int (length ds) - 1 + k in
      take 1 ds @ (if length ds = 1 then [] else CHR ''.'' # drop 1 ds) @
      CHR ''e'' # (if x < 0 then CHR ''-'' else CHR ''+'') # pad2 (nat_digits (nat \<bar>x\<bar>)))"

definition fmt_g_mag :: "rat \<Rightarrow> string" where
  "fmt_g_mag q =
     (if q = 0 then ''0''
      else let (m0, k0) = g_digits q; (m, k) = strip_zeros m0 k0
           in if k0 + 5 < - 4 \<or> 6 \<le> k0 + 5 then fmt_exp2 m k else fmt_plain m k)"

text \<open>The sign a NaN is printed with is not modelled.\<close>

fun fmt_g :: "float64 \<Rightarrow> string" where
  "fmt_g (F64 s q) = (if s then ''-'' else []) @ fmt_g_mag q"
| "fmt_g (F64Inf s) = (if s then ''-inf'' else ''inf'')"
| "fmt_g F64NaN = ''nan''"

lemma g_digits_close:
  assumes "0 < q" "g_digits q = (m, k)"
  shows "0 < m" "\<bar>of_nat m * 10 powi k - q\<bar> \<le> q / 200000"
proof -
  define s where "s = flog 10 q - 5"
  define i where "i = round_half_even (q / 10 powi s)"
  have p: "0 < (10::rat) powi s" by simp
  have lo: "10 powi (s + 5) \<le> q" using flog_bounds(1) [OF assms(1), of 10] by (simp add: s_def)
  then have "of_int (10 ^ 5) \<le> q / 10 powi s" using p by (simp add: power_int_add field_simps)
  then have i5: "10 ^ 5 \<le> i" unfolding i_def by (rule round_half_even_mono_int(1))
  have near: "\<bar>of_int i - q / 10 powi s\<bar> \<le> 1 / 2" unfolding i_def by (rule round_half_even_near)
  have v: "of_nat m * 10 powi k = of_int i * (10::rat) powi s \<and> 0 < m"
  proof (cases "nat i = 10 ^ 6")
    case True
    then have "m = 10 ^ 5" "k = s + 1" using assms(2) by (auto simp: g_digits_def Let_def s_def i_def)
    moreover have "i = 10 ^ 6" using True i5 by simp
    ultimately show ?thesis by (simp add: power_int_add)
  next
    case False
    then have "m = nat i" "k = s" using assms(2) by (auto simp: g_digits_def Let_def s_def i_def)
    then show ?thesis using i5 by simp
  qed
  then show "0 < m" by simp
  have "of_int i * 10 powi s - q = (of_int i - q / 10 powi s) * 10 powi s" by (simp add: algebra_simps)
  then have "\<bar>of_int i * 10 powi s - q\<bar> = \<bar>of_int i - q / 10 powi s\<bar> * 10 powi s" by (simp add: abs_mult)
  also have "\<dots> \<le> 1 / 2 * 10 powi s" by (rule mult_right_mono [OF near]) simp
  also have "\<dots> \<le> q / 200000" using lo by (simp add: power_int_add)
  finally show "\<bar>of_nat m * 10 powi k - q\<bar> \<le> q / 200000" using v by simp
qed

lemma pad2_digits: "list_all is_digit ds \<Longrightarrow> list_all is_digit (pad2 ds)" "digits_val (pad2 ds) = digits_val ds" "pad2 ds \<noteq> []"
  by (auto simp: pad2_def is_digit_def digits_val_def digit_val_def)

lemma fmt_exp2_shape:
  assumes "0 < m"
  shows "\<exists>ip fp sg xs. fmt_exp2 m k = num_text ip fp sg xs \<and> num_parts ip fp sg xs \<and> dec_value (fmt_exp2 m k) = of_nat m * 10 powi k"
proof -
  obtain c cs where ds: "nat_digits m = c # cs" "is_digit c" using nat_digits_hd by blast
  have c: "c \<noteq> CHR ''0''" "list_all is_digit cs"
    using nat_digits_hd_nonzero [OF assms] nat_digits_all_digits [of m] by (simp_all add: ds)
  define x where "x = int (length (nat_digits m)) - 1 + k"
  define sg where "sg = (if x < 0 then CHR ''-'' else CHR ''+'')"
  define xs where "xs = pad2 (nat_digits (nat \<bar>x\<bar>))"
  have xs: "list_all is_digit xs" "xs \<noteq> []" "digits_val xs = nat \<bar>x\<bar>"
    using pad2_digits nat_digits_all_digits by (simp_all add: xs_def)
  have parts: "num_parts [c] cs sg xs" using c ds(2) xs by (simp add: num_parts_def json_int_def sg_def)
  have t: "fmt_exp2 m k = num_text [c] cs sg xs"
    using xs(2) by (simp add: fmt_exp2_def num_text_def Let_def ds x_def sg_def xs_def)
  have "dec_value (fmt_exp2 m k) = of_nat (digits_val (c # cs)) * 10 powi ((if sg = CHR ''-'' then - int (digits_val xs) else int (digits_val xs)) - int (length cs))"
    unfolding t using dec_value_exp [of "[c]" cs xs sg] c(2) ds(2) xs by (simp add: num_text_def sg_def)
  also have "(if sg = CHR ''-'' then - int (digits_val xs) else int (digits_val xs)) - int (length cs) = k"
    by (auto simp: sg_def xs(3) x_def ds)
  also have "digits_val (c # cs) = m" using digits_val_nat_digits [of m] by (simp add: ds)
  finally show ?thesis using t parts by blast
qed

lemma fmt_g_mag_shape:
  assumes "0 < q"
  shows "\<exists>ip fp sg xs. fmt_g_mag q = num_text ip fp sg xs \<and> num_parts ip fp sg xs"
    and "\<bar>dec_value (fmt_g_mag q) - q\<bar> \<le> q / 200000"
proof -
  obtain m0 k0 m k where mk: "g_digits q = (m0, k0)" "strip_zeros m0 k0 = (m, k)" by (metis prod.exhaust)
  note c = g_digits_close [OF assms mk(1)]
  have v: "of_nat m * 10 powi k = of_nat m0 * (10::rat) powi k0" by (rule strip_zeros_value [OF mk(2)])
  have "of_nat m0 * (10::rat) powi k0 \<noteq> 0" using c(1) by simp
  then have "0 < m" using v by (cases m) auto
  then have "(\<exists>ip fp sg xs. fmt_g_mag q = num_text ip fp sg xs \<and> num_parts ip fp sg xs) \<and> dec_value (fmt_g_mag q) = of_nat m * 10 powi k"
    using assms fmt_exp2_shape [of m k] fmt_plain_shape [of m k] dec_value_fmt_plain [of m k] by (auto simp: fmt_g_mag_def mk)
  then show "\<exists>ip fp sg xs. fmt_g_mag q = num_text ip fp sg xs \<and> num_parts ip fp sg xs"
    "\<bar>dec_value (fmt_g_mag q) - q\<bar> \<le> q / 200000" using c(2) v by simp_all
qed

lemma fmt_g_zero: "fmt_g_mag 0 = num_text ''0'' [] (CHR ''+'') []" "num_parts ''0'' [] (CHR ''+'') []"
  by (simp_all add: fmt_g_mag_def num_text_def num_parts_def json_int_def is_digit_def)

lemma encodes_num_text:
  assumes "num_parts ip fp sg xs" "t = (if s then ''-'' else []) @ num_text ip fp sg xs"
  shows "encodes t (JNum t)"
proof -
  obtain c cs where c: "num_text ip fp sg xs = c # cs" "is_digit c" using num_text_hd [OF assms(1)] by blast
  then obtain d ds where d: "t = d # ds" "d = CHR ''-'' \<or> is_digit d" using assms(2) by (cases s) auto
  have "next_token (t @ r) = Some (TVal (JNum t), r)" if "ends_value r" for r
  proof -
    have "parse_unsigned (num_text ip fp sg xs @ r) = Some (num_text ip fp sg xs, r)" by (rule parse_unsigned_text [OF assms(1) that])
    then have p: "parse_num (t @ r) = Some (t, r)"
      using is_digit_not_sign [OF c(2)] c(1) assms(2) by (auto simp: parse_num_def)
    from d(2) have "\<not> is_space d" "d \<notin> set [CHR ''{'', CHR ''}'', CHR ''['', CHR '']'', CHR '':'', CHR '','', CHR 0x22, CHR ''t'', CHR ''f'', CHR ''n'']"
      by (auto simp: is_space_def is_digit_def)
    with p show ?thesis by (simp add: d(1) next_token_def)
  qed
  then show ?thesis by (simp add: encodes_def)
qed

lemma fmt_g_encodes:
  assumes "f64_finite x"
  shows "encodes (fmt_g x) (JNum (fmt_g x))"
proof -
  obtain s q where x: "x = F64 s q" "f64_mag q" using assms by (cases x) auto
  obtain ip fp sg xs where "fmt_g_mag q = num_text ip fp sg xs" "num_parts ip fp sg xs"
    using fmt_g_mag_shape(1) [of q] fmt_g_zero x(2) by (cases "q = 0") (auto simp: f64_mag_def)
  then show ?thesis using encodes_num_text [of ip fp sg xs "fmt_g x" s] by (simp add: x)
qed

text \<open>Reading a printed number gives a number that agrees in the first digits.\<close>

lemma fmt_g_reads:
  assumes "f64_finite x" "\<bar>f64_val x\<bar> < 2 ^ 1022" "f64_val x = 0 \<or> 2 powi (- 1000) \<le> \<bar>f64_val x\<bar>"
  shows "\<exists>y. parse_float (fmt_g x) = Some y \<and> \<bar>f64_val y - f64_val x\<bar> \<le> \<bar>f64_val x\<bar> / 100000"
proof -
  obtain s q where x: "x = F64 s q" "f64_mag q" using assms(1) by (cases x) auto
  have q: "0 \<le> q" "\<bar>f64_val x\<bar> = q" using x by (auto simp: f64_mag_def)
  let ?v = "dec_value (fmt_g_mag q)"
  have v: "\<bar>?v - q\<bar> \<le> q / 200000"
    using fmt_g_mag_shape(2) [of q] q(1) dec_value_int [of "''0''"] by (cases "q = 0") (simp_all add: fmt_g_mag_def is_digit_def)
  then have v2: "0 \<le> ?v" "?v \<le> 2 * q" "q / 2 \<le> ?v" using dec_value_nonneg q(1) by (auto simp: abs_if split: if_splits)
  obtain ip fp sg xs where sh: "fmt_g_mag q = num_text ip fp sg xs" "num_parts ip fp sg xs"
    using fmt_g_mag_shape(1) [of q] fmt_g_zero q(1) by (cases "q = 0") auto
  obtain c cs where c: "fmt_g_mag q = c # cs" "is_digit c" using sh num_text_hd by metis
  have big: "?v < 2 ^ 1023" using v2(2) assms(2) q(2) by simp
  have to: "to_f64 s ?v = F64 s (f64_round ?v)" using to_f64_num [OF v2(1) big] by blast
  have "parse_float (fmt_g x) = Some (F64 s (f64_round ?v))"
    using to is_digit_not_sign [OF c(2)] by (cases s) (simp_all add: x(1) c parse_float_def)
  moreover have "\<bar>f64_round ?v - q\<bar> \<le> q / 100000"
  proof (cases "q = 0")
    case True
    then show ?thesis using v by (simp add: f64_round_def)
  next
    case False
    have "(2::rat) powi (- 1022) \<le> 2 powi (- 1001)" by (rule power_int_increasing) simp_all
    also have "(2::rat) powi (- 1001) = 2 powi (- 1000) / 2" by (simp add: power_int_minus)
    also have "\<dots> \<le> ?v" using assms(3) False q v2(3) x(1) by (auto intro: order_trans [rotated])
    finally have "\<bar>f64_round ?v - ?v\<bar> \<le> ?v / 2 ^ 53" by (rule f64_round_rel)
    also have "\<dots> \<le> q / 200000" using v2(2) q(1) by simp
    finally show ?thesis using v by (simp add: abs_if split: if_splits)
  qed
  moreover have "\<bar>f64_val (F64 s (f64_round ?v)) - f64_val x\<bar> = \<bar>f64_round ?v - q\<bar>" by (cases s) (simp_all add: x(1) abs_minus_commute)
  ultimately show ?thesis using q(2) by auto
qed

section \<open>Nested texts\<close>

text \<open>The scanner goes on after a value was completed.\<close>

definition resume :: "scan_result \<Rightarrow> string \<Rightarrow> (json \<times> string) option" where
  "resume sr r = (case sr of SyntaxError \<Rightarrow> None | Finished v \<Rightarrow> Some (v, r) | Continue fs e \<Rightarrow> scan fs e r)"

text \<open>A text of nesting depth \<open>d\<close> that the scanner reads as a value wherever one may stand.\<close>

definition reads_value :: "nat \<Rightarrow> string \<Rightarrow> json \<Rightarrow> bool" where
  "reads_value d t v \<longleftrightarrow>
     (\<forall>fs e r. (e = WantValue \<or> e = WantElemOrEnd) \<and> length fs + d \<le> maxNestingDepth \<and> ends_value r \<longrightarrow>
        scan fs e (t @ r) = resume (complete fs v) r)"

lemma reads_valueD:
  "reads_value d t v \<Longrightarrow> e = WantValue \<or> e = WantElemOrEnd \<Longrightarrow> length fs + d \<le> maxNestingDepth \<Longrightarrow> ends_value r \<Longrightarrow>
   scan fs e (t @ r) = resume (complete fs v) r"
  by (simp add: reads_value_def)

lemma scan_resume: "next_token s = Some (t, r) \<Longrightarrow> scan fs e s = resume (scan_step fs e t) r"
  by (simp add: resume_def scan_token split: scan_result.split)

lemma encodes_reads: "encodes t v \<Longrightarrow> reads_value d t v"
  by (auto simp: reads_value_def encodes_def scan_resume)

lemma next_token_brackets: "next_token (CHR ''['' # r) = Some (TLBrack, r)" "next_token (CHR '']'' # r) = Some (TRBrack, r)"
  by (simp_all add: next_token_def is_space_def)

lemma ends_value_punct [simp]: "ends_value (CHR '','' # r)" "ends_value (CHR ''}'' # r)" "ends_value (CHR '']'' # r)"
  by (simp_all add: ends_value_def)

definition reads_member :: "nat \<Rightarrow> string \<times> string \<times> json \<Rightarrow> bool" where
  "reads_member d m \<longleftrightarrow> (case m of (k, t, v) \<Rightarrow> plain_key k \<and> reads_value d t v)"

lemma scan_nested_member:
  assumes "plain_key k" "reads_value d t v" "ends_value r" "Suc (length fs) + d \<le> maxNestingDepth"
  shows "scan (FObj acc k0 # fs) WantKey (CHR 0x22 # k @ CHR 0x22 # CHR '':'' # t @ r) =
    scan (FObj ((k, v) # acc) k # fs) WantCommaOrEnd r"
  using assms by (simp add: scan_token [OF next_token_key [OF assms(1)]] scan_token [OF next_token_punct(3)] reads_valueD resume_def)

lemma scan_nested_members:
  assumes "ms \<noteq> []" "list_all (reads_member d) ms" "Suc (length fs) + d \<le> maxNestingDepth"
  shows "scan (FObj acc k0 # fs) WantKey (json_members (map (\<lambda>(k, t, v). (k, t)) ms) @ CHR ''}'' # r) =
    resume (complete fs (JObj (rev acc @ map (\<lambda>(k, t, v). (k, v)) ms))) r"
  using assms(1,2)
proof (induction ms arbitrary: acc k0)
  case (Cons m ms)
  obtain k t v where m: "m = (k, t, v)" "plain_key k" "reads_value d t v"
    using Cons.prems by (cases m) (auto simp: reads_member_def)
  show ?case
  proof (cases ms)
    case Nil
    then show ?thesis
      using scan_nested_member [OF m(2,3) _ assms(3), of "CHR ''}'' # r" acc k0]
      by (simp add: m(1) scan_resume [OF next_token_punct(2)])
  next
    case (Cons m2 ms2)
    obtain k2 t2 v2 where m2: "m2 = (k2, t2, v2)" by (cases m2)
    let ?rest = "json_members (map (\<lambda>(k, t, v). (k, t)) ms) @ CHR ''}'' # r"
    have "scan (FObj acc k0 # fs) WantKey (json_members (map (\<lambda>(k, t, v). (k, t)) (m # ms)) @ CHR ''}'' # r) =
        scan (FObj ((k, v) # acc) k # fs) WantKey ?rest"
      using scan_nested_member [OF m(2,3) _ assms(3), of "CHR '','' # ?rest" acc k0]
      by (simp add: m(1) m2 Cons scan_token [OF next_token_punct(4)])
    also have "\<dots> = resume (complete fs (JObj (rev ((k, v) # acc) @ map (\<lambda>(k, t, v). (k, v)) ms))) r"
      using Cons.IH Cons.prems Cons by simp
    finally show ?thesis by (simp add: m(1))
  qed
qed simp

lemma reads_object:
  assumes "ms \<noteq> []" "list_all (reads_member d) ms"
  shows "reads_value (Suc d) (json_object (map (\<lambda>(k, t, v). (k, t)) ms)) (JObj (map (\<lambda>(k, t, v). (k, v)) ms))"
  unfolding reads_value_def
proof (intro allI impI, elim conjE)
  fix fs :: "frame list" and e :: expect and r :: string
  assume e: "e = WantValue \<or> e = WantElemOrEnd" and len: "length fs + Suc d \<le> maxNestingDepth"
  let ?m = "json_members (map (\<lambda>(k, t, v). (k, t)) ms)"
  obtain k t v ms' where ms: "ms = (k, t, v) # ms'" using assms(1) by (cases ms) auto
  have key: "plain_key k" using assms(2) by (simp add: ms reads_member_def)
  obtain s where s: "?m = CHR 0x22 # k @ CHR 0x22 # s" by (cases ms') (auto simp: ms)
  have "scan fs e (json_object (map (\<lambda>(k, t, v). (k, t)) ms) @ r) = scan (FObj [] [] # fs) WantKeyOrEnd (?m @ CHR ''}'' # r)"
    using e len by (auto simp: json_object_def scan_resume [OF next_token_punct(1)] open_frame_def resume_def)
  also have "\<dots> = scan (FObj [] [] # fs) WantKey (?m @ CHR ''}'' # r)"
    unfolding s by (simp add: scan_token [OF next_token_key [OF key]])
  also have "\<dots> = resume (complete fs (JObj (map (\<lambda>(k, t, v). (k, v)) ms))) r"
    using scan_nested_members [OF assms, of fs "[]" "[]" r] len by simp
  finally show "scan fs e (json_object (map (\<lambda>(k, t, v). (k, t)) ms) @ r) = resume (complete fs (JObj (map (\<lambda>(k, t, v). (k, v)) ms))) r" .
qed

lemma scan_elems:
  assumes "list_all (\<lambda>(t, v). reads_value d t v) xs" "Suc (length fs) + d \<le> maxNestingDepth" "xs \<noteq> []"
  shows "e = WantValue \<or> e = WantElemOrEnd \<Longrightarrow>
    scan (FArr acc # fs) e (comma_sep (map fst xs) @ CHR '']'' # r) = resume (complete fs (JArr (rev acc @ map snd xs))) r"
  using assms(1,3)
proof (induction xs arbitrary: acc e)
  case (Cons x xs)
  obtain t v where x: "x = (t, v)" by (cases x)
  have t: "reads_value d t v" using Cons.prems by (simp add: x)
  have head: "ends_value s \<Longrightarrow> scan (FArr acc # fs) e (t @ s) = scan (FArr (v # acc) # fs) WantCommaOrEnd s" for s
    using reads_valueD [OF t Cons.prems(1), of "FArr acc # fs" s] assms(2) by (simp add: resume_def)
  show ?case
  proof (cases xs)
    case Nil
    then show ?thesis using head [of "CHR '']'' # r"] by (simp add: x scan_resume [OF next_token_brackets(2)])
  next
    case (Cons y ys)
    let ?rest = "comma_sep (map fst xs) @ CHR '']'' # r"
    have "scan (FArr acc # fs) e (comma_sep (map fst (x # xs)) @ CHR '']'' # r) = scan (FArr (v # acc) # fs) WantValue ?rest"
      using head [of "CHR '','' # ?rest"] by (simp add: x Cons scan_token [OF next_token_punct(4)])
    also have "\<dots> = resume (complete fs (JArr (rev (v # acc) @ map snd xs))) r"
      using Cons.IH Cons.prems Cons by simp
    finally show ?thesis by (simp add: x)
  qed
qed simp

lemma reads_array:
  assumes "list_all (\<lambda>(t, v). reads_value d t v) xs"
  shows "reads_value (Suc d) (json_array (map fst xs)) (JArr (map snd xs))"
  unfolding reads_value_def
proof (intro allI impI, elim conjE)
  fix fs :: "frame list" and e :: expect and r :: string
  assume e: "e = WantValue \<or> e = WantElemOrEnd" and len: "length fs + Suc d \<le> maxNestingDepth"
  have "scan fs e (json_array (map fst xs) @ r) = scan (FArr [] # fs) WantElemOrEnd (comma_sep (map fst xs) @ CHR '']'' # r)"
    using e len by (auto simp: json_array_def scan_resume [OF next_token_brackets(1)] open_frame_def resume_def)
  also have "\<dots> = resume (complete fs (JArr (map snd xs))) r"
    using scan_elems [OF assms, of fs WantElemOrEnd "[]" r] len
    by (cases "xs = []") (simp_all add: scan_resume [OF next_token_brackets(2)])
  finally show "scan fs e (json_array (map fst xs) @ r) = resume (complete fs (JArr (map snd xs))) r" .
qed

lemma reads_json_value: "reads_value d t v \<Longrightarrow> d \<le> maxNestingDepth \<Longrightarrow> json_value t = Some (v, [])"
  using reads_valueD [of d t v WantValue "[]" "[]"] by (simp add: json_value_def ends_value_def resume_def)

end
