(* ===== verification/Engine_Sim.thy ===== *)
theory Engine_Sim
  imports Engine_Protocol Engine_Positions Engine_Price Engine_Text
begin

text \<open>
  The simulation of the engine (\<^verbatim>\<open>src/Simulation.cpp\<close>, \<^verbatim>\<open>src/agents\<close>, \<^verbatim>\<open>src/main.cpp\<close>): the agents, one tick, the
  handling of the orders that arrived on standard input, and the lines written to standard output.
  What the random number generators return, the order in which the agents act and the clock are arguments.  The main
  loop and the thread that reads standard input share only the order queue; \<open>proc_step\<close> interleaves
  them, so that an order may arrive at any moment of a tick.
\<close>

section \<open>Agents\<close>

text \<open>The random choices of one agent in one tick: the number drawn to decide whether a taker acts, the coin for
  the side, and the jitter of a whale.\<close>

record draws =
  d_prob :: float64
  d_side :: int
  d_jitter :: int

datatype trader = MakerTrader float64 float64 | TakerTrader float64 float64 | WhaleTrader int float64 uint64

definition drawn_side :: "draws \<Rightarrow> Side" where
  "drawn_side d = (if d_side d = 0 then BUY else SELL)"

definition maker_act :: "float64 \<Rightarrow> float64 \<Rightarrow> float64 \<Rightarrow> OrderBook \<Rightarrow> OrderBook" where
  "maker_act offset qty midPrice b =
     (if f64_lt f64_zero (bestBid b) \<and> f64_lt f64_zero (bestAsk b) \<and>
         f64_lt (f64_mul (f64_mul (f64_mul (dbl 2) offset) midPrice) (f64_add (dbl 1) (f64_const (1 / 1000000)))) (spread b)
      then b
      else
        let b1 = snd (addLimitOrder BUY (f64_mul midPrice (f64_sub (dbl 1) offset)) qty b)
        in snd (addLimitOrder SELL (f64_mul midPrice (f64_add (dbl 1) offset)) qty b1))"

definition taker_act :: "draws \<Rightarrow> float64 \<Rightarrow> float64 \<Rightarrow> OrderBook \<Rightarrow> OrderBook" where
  "taker_act d actProb qty b =
     (if f64_lt actProb (d_prob d) then b else snd (addMarketOrder (drawn_side d) qty b))"

text \<open>The sum of interval and jitter is a C++ \<^verbatim>\<open>int\<close>; with the values of the constructor it is between 150 and 250.\<close>

definition computeNextTick :: "draws \<Rightarrow> int \<Rightarrow> uint64 \<Rightarrow> uint64" where
  "computeNextTick d interval currentTick =
     (let offset = interval + d_jitter d; offset1 = (if offset < 1 then 1 else offset)
      in currentTick + word_of_int offset1)"

definition whale_act :: "draws \<Rightarrow> int \<Rightarrow> float64 \<Rightarrow> uint64 \<Rightarrow> uint64 \<Rightarrow> OrderBook \<Rightarrow> uint64 \<times> OrderBook" where
  "whale_act d interval qty nextActTick tick b =
     (if tick < nextActTick then (nextActTick, b)
      else let b1 = snd (addMarketOrder (drawn_side d) qty b)
           in (computeNextTick d interval tick, b1))"

fun act :: "draws \<Rightarrow> float64 \<Rightarrow> uint64 \<Rightarrow> trader \<Rightarrow> OrderBook \<Rightarrow> trader \<times> OrderBook" where
  "act d midPrice tick (MakerTrader offset qty) b = (MakerTrader offset qty, maker_act offset qty midPrice b)"
| "act d midPrice tick (TakerTrader actProb qty) b = (TakerTrader actProb qty, taker_act d actProb qty b)"
| "act d midPrice tick (WhaleTrader interval qty next) b =
     (case whale_act d interval qty next tick b of (next', b') \<Rightarrow> (WhaleTrader interval qty next', b'))"

section \<open>State\<close>

record Config =
  numMakers :: int
  numTakers :: int
  numWhales :: int
  startPrice :: float64

definition default_config :: Config where
  "default_config = \<lparr>numMakers = 10, numTakers = 20, numWhales = 2, startPrice = dbl 100\<rparr>"

text \<open>\<open>emitted\<close> is what has been written to standard output, one entry per flush.\<close>

record Simulation =
  book :: OrderBook
  cur_price :: float64
  agents :: "trader list"
  tick_no :: uint64
  posTracker :: positions
  emitted :: "bytes list"

text \<open>The constructor; identifiers, capital and seeds of the agents are not modelled (they are never read again, or only by the
  random number generators).  \<open>jit\<close> holds the first jitter of each whale.\<close>

definition new_simulation :: "(nat \<Rightarrow> draws) \<Rightarrow> Config \<Rightarrow> Simulation" where
  "new_simulation jit cfg =
     \<lparr>book = empty_book, cur_price = startPrice cfg,
      agents =
        replicate (nat (numMakers cfg)) (MakerTrader (f64_const (2 / 1000)) (dbl 1)) @
        replicate (nat (numTakers cfg)) (TakerTrader (f64_const (30 / 100)) (dbl 1)) @
        map (\<lambda>i. WhaleTrader 200 (f64_mul (dbl 15) (dbl 1)) (computeNextTick (jit i) 200 0)) [0..<nat (numWhales cfg)],
      tick_no = 0, posTracker = [], emitted = []\<rparr>"

section \<open>Output\<close>

definition raw_string :: "bytes \<Rightarrow> bytes" where
  "raw_string s = dquote # s @ [dquote]"

definition side_text :: "Side \<Rightarrow> bytes" where
  "side_text side = (case side of BUY \<Rightarrow> ''BUY'' | SELL \<Rightarrow> ''SELL'')"

definition fill_line :: "int \<Rightarrow> bytes \<Rightarrow> bytes \<Rightarrow> Side \<Rightarrow> float64 \<Rightarrow> float64 \<Rightarrow> bytes" where
  "fill_line ts trader_id order_id side price qty =
     json_object
       [(''type'', raw_string ''fill''), (''trader_id'', raw_string trader_id), (''order_id'', raw_string order_id),
        (''side'', raw_string (side_text side)), (''price'', fmt_g price), (''qty'', fmt_g qty), (''ts'', itoa ts)]"

definition reject_line :: "int \<Rightarrow> bytes \<Rightarrow> bytes \<Rightarrow> bytes \<Rightarrow> bytes" where
  "reject_line ts trader_id order_id reason =
     json_object
       [(''type'', raw_string ''reject''), (''trader_id'', raw_string trader_id), (''order_id'', raw_string order_id),
        (''reason'', raw_string reason), (''ts'', itoa ts)]"

definition write_line :: "bytes \<Rightarrow> Simulation \<Rightarrow> Simulation" where
  "write_line l s = s\<lparr>emitted := emitted s @ [l @ [newline]]\<rparr>"

definition emitFill :: "int \<Rightarrow> bytes \<Rightarrow> bytes \<Rightarrow> Side \<Rightarrow> float64 \<Rightarrow> float64 \<Rightarrow> Simulation \<Rightarrow> Simulation" where
  "emitFill ts trader_id order_id side price qty = write_line (fill_line ts trader_id order_id side price qty)"

definition emitReject :: "int \<Rightarrow> bytes \<Rightarrow> bytes \<Rightarrow> bytes \<Rightarrow> Simulation \<Rightarrow> Simulation" where
  "emitReject ts trader_id order_id reason = write_line (reject_line ts trader_id order_id reason)"

definition level_text :: "float64 \<times> float64 \<Rightarrow> bytes" where
  "level_text l = json_object [(''price'', fmt_g (fst l)), (''qty'', fmt_g (snd l))]"

definition position_text :: "float64 \<Rightarrow> Position \<Rightarrow> bytes" where
  "position_text curPrice p =
     json_object
       [(''trader_id'', raw_string (pos_trader_id p)), (''net_qty'', fmt_g (net_qty p)),
        (''unrealised_pnl'', fmt_g (unrealisedPnL p curPrice)), (''realised_pnl'', fmt_g (realised_pnl p))]"

definition tick_line :: "int \<Rightarrow> Simulation \<Rightarrow> bytes" where
  "tick_line ts s =
     json_object
       ([(''type'', raw_string ''tick''), (''tick'', nat_digits (unat (tick_no s))), (''ts'', itoa ts),
         (''price'', fmt_g (cur_price s)), (''bid'', fmt_g (bestBid (book s))), (''ask'', fmt_g (bestAsk (book s))),
         (''spread'', fmt_g (spread (book s))),
         (''bid_depth'', json_array (map level_text (bidLevels 5 (book s)))),
         (''ask_depth'', json_array (map level_text (askLevels 5 (book s))))] @
        (if tick_no s mod 10 = 0
         then [(''positions'', json_array (map (position_text (cur_price s)) (snapshot (posTracker s))))]
         else []))"

definition emitTick :: "int \<Rightarrow> Simulation \<Rightarrow> Simulation" where
  "emitTick ts s = write_line (tick_line ts s) s"

section \<open>Incoming orders\<close>

text \<open>\<open>clock n\<close> is the \<open>n\<close>-th reading of the clock while the order is handled.\<close>

fun record_trades :: "(nat \<Rightarrow> int) \<Rightarrow> IncomingOrder \<Rightarrow> nat \<Rightarrow> Trade list \<Rightarrow> Simulation \<Rightarrow> Simulation" where
  "record_trades clock ord n [] s = s"
| "record_trades clock ord n (t # ts) s =
     (let s1 = s\<lparr>posTracker := recordFill (io_trader_id ord) (io_side ord) (t_price t) (t_quantity t) (posTracker s)\<rparr>;
          s2 = emitFill (clock n) (io_trader_id ord) (io_order_id ord) (io_side ord) (t_price t) (t_quantity t) s1
      in record_trades clock ord (Suc n) ts s2)"

text \<open>The body of the loop of \<^verbatim>\<open>drainOrderQueue\<close>.\<close>

definition process_order :: "(nat \<Rightarrow> int) \<Rightarrow> IncomingOrder \<Rightarrow> Simulation \<Rightarrow> Simulation" where
  "process_order clock ord s =
     (if f64_le0 (io_qty ord) then emitReject (clock 0) (io_trader_id ord) (io_order_id ord) ''invalid_qty'' s
      else if io_type ord = LIMIT \<and> f64_le0 (io_price ord)
      then emitReject (clock 0) (io_trader_id ord) (io_order_id ord) ''invalid_price'' s
      else
        let (trades, b) =
              (if io_type ord = MARKET then addMarketOrder (io_side ord) (io_qty ord) (book s)
               else ([], snd (addLimitOrder (io_side ord) (io_price ord) (io_qty ord) (book s))));
            s1 = record_trades clock ord 0 trades (s\<lparr>book := b\<rparr>)
        in if trades = [] \<and> io_type ord = MARKET
           then emitReject (clock 0) (io_trader_id ord) (io_order_id ord) ''insufficient_liquidity'' s1
           else s1)"

text \<open>The whole loop, when nothing arrives while it runs.\<close>

function drainOrderQueue :: "(nat \<Rightarrow> nat \<Rightarrow> int) \<Rightarrow> nat \<Rightarrow> OrderQueue \<Rightarrow> Simulation \<Rightarrow> OrderQueue \<times> Simulation" where
  "drainOrderQueue clock n q s =
     (case queue_pop q of
        (None, q') \<Rightarrow> (q', s)
      | (Some ord, q') \<Rightarrow> drainOrderQueue clock (Suc n) q' (process_order (clock n) ord s))"
  by pat_completeness auto
termination
  by (relation "measure (\<lambda>(c, n, q, s). length q)") (auto simp: queue_pop_def split: list.splits)

declare drainOrderQueue.simps [simp del]

section \<open>Ticks\<close>

record tick_rnd =
  r_return :: float64
  r_order :: "nat list"
  r_draws :: "nat \<Rightarrow> draws"

fun agents_act :: "(nat \<Rightarrow> draws) \<Rightarrow> nat list \<Rightarrow> Simulation \<Rightarrow> Simulation" where
  "agents_act ds [] s = s"
| "agents_act ds (i # is) s =
     (case act (ds i) (cur_price s) (tick_no s) (agents s ! i) (book s) of
        (t, b) \<Rightarrow> agents_act ds is (s\<lparr>agents := (agents s)[i := t], book := b\<rparr>))"

text \<open>\<^verbatim>\<open>runTick\<close> up to the call of \<^verbatim>\<open>drainOrderQueue\<close>, and after it.\<close>

definition begin_tick :: "tick_rnd \<Rightarrow> Simulation \<Rightarrow> Simulation" where
  "begin_tick rnd s =
     agents_act (r_draws rnd) (r_order rnd)
       (s\<lparr>book := clear_book (book s), cur_price := nextPrice (r_return rnd) (cur_price s)\<rparr>)"

definition end_tick :: "int \<Rightarrow> Simulation \<Rightarrow> Simulation" where
  "end_tick ts s = (let s1 = emitTick ts s in s1\<lparr>tick_no := tick_no s1 + 1\<rparr>)"

definition runTick :: "tick_rnd \<Rightarrow> (nat \<Rightarrow> nat \<Rightarrow> int) \<Rightarrow> int \<Rightarrow> OrderQueue \<times> Simulation \<Rightarrow> OrderQueue \<times> Simulation" where
  "runTick rnd clock ts qs =
     (case qs of (q, s) \<Rightarrow>
      case drainOrderQueue clock 0 q (begin_tick rnd s) of (q', s') \<Rightarrow> (q', end_tick ts s'))"

text \<open>\<^verbatim>\<open>std::shuffle\<close> permutes the indices, \<^verbatim>\<open>uniform_real_distribution\<close> stays within its bounds.\<close>

definition rnd_ok :: "tick_rnd \<Rightarrow> Simulation \<Rightarrow> bool" where
  "rnd_ok rnd s \<longleftrightarrow> draw_ok (r_return rnd) \<and> distinct (r_order rnd) \<and> set (r_order rnd) = {..<length (agents s)}"

section \<open>The two threads\<close>

text \<open>The process: the lines still to be read, the lines read, the shared queue, whether the main loop is inside
  \<^verbatim>\<open>drainOrderQueue\<close>, the simulation, and (for the statements only) the orders handled so far.\<close>

record engine_proc =
  stdin_lines :: "bytes list"
  read_lines :: "bytes list"
  queue :: OrderQueue
  draining :: bool
  sim :: Simulation
  handled :: "IncomingOrder list"

definition proc_start :: "bytes list \<Rightarrow> Simulation \<Rightarrow> engine_proc" where
  "proc_start ls s = \<lparr>stdin_lines = ls, read_lines = [], queue = [], draining = False, sim = s, handled = []\<rparr>"

inductive proc_step :: "(rat \<Rightarrow> bool) \<Rightarrow> engine_proc \<Rightarrow> engine_proc \<Rightarrow> bool" for tt where
  read_line: "stdin_lines e = l # ls \<Longrightarrow>
     proc_step tt e (e\<lparr>stdin_lines := ls, read_lines := read_lines e @ [l], queue := stdin_loop tt [l] (queue e)\<rparr>)"
| tick_begins: "\<not> draining e \<Longrightarrow> rnd_ok rnd (sim e) \<Longrightarrow>
     proc_step tt e (e\<lparr>draining := True, sim := begin_tick rnd (sim e)\<rparr>)"
| order_popped: "draining e \<Longrightarrow> queue_pop (queue e) = (Some ord, q) \<Longrightarrow>
     proc_step tt e (e\<lparr>queue := q, sim := process_order clock ord (sim e), handled := handled e @ [ord]\<rparr>)"
| tick_ends: "draining e \<Longrightarrow> queue_pop (queue e) = (None, q) \<Longrightarrow>
     proc_step tt e (e\<lparr>draining := False, sim := end_tick ts (sim e)\<rparr>)"

inductive_cases proc_stepE: "proc_step tt e e'"

section \<open>The invariant of the simulation\<close>

fun f64_wf :: "float64 \<Rightarrow> bool" where
  "f64_wf (F64 s q) = f64_mag q"
| "f64_wf _ = True"

lemma to_f64_wf: "0 \<le> v \<Longrightarrow> f64_wf (to_f64 s v)"
  using f64_round_mag [of v] by (simp add: to_f64_def Let_def)

lemma f64_mag_zero [simp]: "f64_mag 0"
  by (simp add: f64_mag_def f64_round_def)

lemma f64_add_wf: "f64_wf (f64_add x y)"
  by (cases x; cases y) (auto simp: f64_signed_def to_f64_wf)

lemma f64_mul_wf: "f64_wf x \<Longrightarrow> f64_wf y \<Longrightarrow> f64_wf (f64_mul x y)"
  by (cases x; cases y) (auto simp: f64_mag_def to_f64_wf)

lemma above_floor_pos: "f64_wf x \<Longrightarrow> f64_lt kFloor x \<Longrightarrow> f64_pos x"
  by (cases x) (auto simp: kFloor_def dbl_def f64_mag_def split: if_splits)

definition price_ok :: "float64 \<Rightarrow> bool" where
  "price_ok x \<longleftrightarrow> f64_pos x \<and> f64_le kFloor x"

lemma f64_pos_wf: "f64_pos x \<Longrightarrow> f64_wf x"
  by (cases x) auto

lemma nextPrice_ok [keeps]: "price_ok p \<Longrightarrow> price_ok (nextPrice r p)"
proof -
  assume "price_ok p"
  then have "f64_wf (f64_mul p (f64_add (dbl 1) r))" using f64_mul_wf f64_add_wf f64_pos_wf by (simp add: price_ok_def)
  then have "f64_pos (nextPrice r p)"
    using above_floor_pos [of "f64_mul p (f64_add (dbl 1) r)"] dbl_fin_pos [of 10]
    by (auto simp: nextPrice_def Let_def kFloor_def simp del: One_nat_def)
  then show "price_ok (nextPrice r p)" using nextPrice_floor by (simp add: price_ok_def)
qed

text \<open>The constants of the agents.\<close>

fun trader_ok :: "trader \<Rightarrow> bool" where
  "trader_ok (MakerTrader offset qty) \<longleftrightarrow> fin_pos offset \<and> f64_val offset \<le> 1 / 2 \<and> fin_pos qty"
| "trader_ok (TakerTrader actProb qty) \<longleftrightarrow> fin_pos qty"
| "trader_ok (WhaleTrader interval qty next) \<longleftrightarrow> fin_pos qty"

lemma half_round: "f64_round (1 / 2) = 1 / 2" "f64_round 2 = 2"
  using f64_round_dyadic [of 1 "- 1"] f64_round_dyadic [of 2 0] by (simp_all add: power_int_minus)

lemma offset_factor:
  assumes "fin_pos off" "f64_val off \<le> 1 / 2"
  shows "\<exists>c. f64_sub (dbl 1) off = F64 False c \<and> 1 / 2 \<le> c" "\<exists>c. f64_add (dbl 1) off = F64 False c \<and> 1 / 2 \<le> c"
proof -
  obtain q where q: "off = F64 False q" "0 < q" using assms(1) by (rule fin_posE)
  have one: "to_f64 False v = F64 False (f64_round v) \<and> 1 / 2 \<le> f64_round v" if "1 / 2 \<le> v" "v \<le> 2" for v
    using f64_round_mono [of "1 / 2" v] to_f64_num [of v False] that half_round by auto
  have q2: "q \<le> 1 / 2" using assms(2) by (simp add: q)
  have "f64_sub (dbl 1) off = to_f64 False (1 - q)" "f64_add (dbl 1) off = to_f64 False (1 + q)"
    using q2 q(2) by (simp_all add: f64_sub_def q(1) dbl_def f64_signed_def)
  then show "\<exists>c. f64_sub (dbl 1) off = F64 False c \<and> 1 / 2 \<le> c" "\<exists>c. f64_add (dbl 1) off = F64 False c \<and> 1 / 2 \<le> c"
    using one [of "1 - q"] one [of "1 + q"] q(2) q2 by auto
qed

lemma quote_price_pos:
  assumes "price_ok x" "c = F64 False cv" "1 / 2 \<le> cv"
  shows "f64_pos (f64_mul x c)"
proof -
  have "f64_pos x" "f64_le kFloor x" using assms(1) by (simp_all add: price_ok_def)
  then show ?thesis
  proof (cases rule: f64_posE)
    case (fin q)
    have "10 \<le> q" using \<open>f64_le kFloor x\<close> by (auto simp: fin kFloor_def dbl_def f64_le_def)
    then have "10 * (1 / 2) \<le> q * cv" using assms(3) by (intro mult_mono) simp_all
    then have "1 / 2 \<le> q * cv" by simp
    then have "0 < f64_round (q * cv)" using f64_round_mono [of "1 / 2" "q * cv"] half_round by simp
    then show ?thesis using to_f64_pos [of "q * cv"] \<open>1 / 2 \<le> q * cv\<close> by (simp add: fin assms(2))
  next
    case inf
    then show ?thesis using assms(2,3) by simp
  qed
qed

lemma maker_act_ok:
  assumes "book_ok b" "price_ok mid" "trader_ok (MakerTrader off qty)"
  shows "book_ok (maker_act off qty mid b)"
proof -
  have off: "fin_pos off" "f64_val off \<le> 1 / 2" "f64_pos qty" using assms(3) by simp_all
  obtain c d where c: "f64_sub (dbl 1) off = F64 False c" "1 / 2 \<le> c" and d: "f64_add (dbl 1) off = F64 False d" "1 / 2 \<le> d"
    using offset_factor [OF off(1,2)] by blast
  have "f64_pos (f64_mul mid (f64_sub (dbl 1) off))" "f64_pos (f64_mul mid (f64_add (dbl 1) off))"
    using quote_price_pos [OF assms(2)] c d by blast+
  then show ?thesis using assms(1) off(3) by (simp add: maker_act_def Let_def addLimitOrder_ok del: One_nat_def)
qed

lemma act_ok:
  "book_ok b \<Longrightarrow> price_ok mid \<Longrightarrow> trader_ok t \<Longrightarrow> trader_ok (fst (act d mid tick t b)) \<and> book_ok (snd (act d mid tick t b))"
  by (cases t) (auto simp: maker_act_ok taker_act_def whale_act_def addMarketOrder_ok Let_def)

definition sim_ok :: "Simulation \<Rightarrow> bool" where
  "sim_ok s \<longleftrightarrow> book_ok (book s) \<and> positions_ok (posTracker s) \<and> price_ok (cur_price s) \<and> list_all trader_ok (agents s)"

lemma agents_act_ok:
  "sim_ok s \<Longrightarrow> set is \<subseteq> {..<length (agents s)} \<Longrightarrow> sim_ok (agents_act ds is s)"
proof (induction "is" arbitrary: s)
  case (Cons i "is")
  obtain t b where a: "act (ds i) (cur_price s) (tick_no s) (agents s ! i) (book s) = (t, b)" by force
  have "trader_ok (agents s ! i)" using Cons.prems by (simp add: sim_ok_def list_all_length)
  then have "trader_ok t" "book_ok b"
    using act_ok [of "book s" "cur_price s" "agents s ! i" "ds i" "tick_no s"] Cons.prems(1) a by (auto simp: sim_ok_def)
  then have "sim_ok (s\<lparr>agents := (agents s)[i := t], book := b\<rparr>)"
    using Cons.prems by (auto simp: sim_ok_def list_all_iff dest!: set_update_subset_insert [THEN subsetD])
  then show ?case using Cons a by simp
qed simp

lemma begin_tick_ok [keeps]: "sim_ok s \<Longrightarrow> rnd_ok rnd s \<Longrightarrow> sim_ok (begin_tick rnd s)"
  unfolding begin_tick_def by (rule agents_act_ok) (auto simp: sim_ok_def rnd_ok_def clear_book_ok nextPrice_ok)

lemma end_tick_ok [keeps]: "sim_ok s \<Longrightarrow> sim_ok (end_tick ts s)"
  by (simp add: end_tick_def emitTick_def write_line_def sim_ok_def Let_def)

text \<open>Orders with numbers that are not infinite and not NaN.\<close>

definition sane_order :: "IncomingOrder \<Rightarrow> bool" where
  "sane_order ord \<longleftrightarrow> f64_finite (io_qty ord) \<and> f64_finite (io_price ord)"

lemma finite_positive: "f64_finite x \<Longrightarrow> \<not> f64_le0 x \<Longrightarrow> fin_pos x"
  by (cases x) (auto simp: f64_mag_def)

lemma record_trades_fields:
  "book (record_trades clock ord n ts s) = book s" "cur_price (record_trades clock ord n ts s) = cur_price s"
  "agents (record_trades clock ord n ts s) = agents s" "tick_no (record_trades clock ord n ts s) = tick_no s"
  by (induction ts arbitrary: n s) (simp_all add: emitFill_def write_line_def Let_def)

lemma record_trades_tracker:
  "posTracker (record_trades clock ord n ts s) =
     foldl (\<lambda>m t. recordFill (io_trader_id ord) (io_side ord) (t_price t) (t_quantity t) m) (posTracker s) ts"
  by (induction ts arbitrary: n s) (simp_all add: emitFill_def write_line_def Let_def)

lemma record_trades_emitted:
  "emitted (record_trades clock ord n ts s) =
     emitted s @ map (\<lambda>(i, t). fill_line (clock i) (io_trader_id ord) (io_order_id ord) (io_side ord) (t_price t) (t_quantity t) @ [newline])
       (enumerate n ts)"
  by (induction ts arbitrary: n s) (simp_all add: emitFill_def write_line_def Let_def)

lemma recordFills_ok: "positions_ok m \<Longrightarrow> positions_ok (foldl (\<lambda>m t. recordFill k side (t_price t) (t_quantity t) m) m ts)"
  by (induction ts arbitrary: m) (simp_all add: recordFill_ok)

lemma process_order_ok [keeps]:
  assumes "sim_ok s" "sane_order ord"
  shows "sim_ok (process_order clock ord s)"
proof -
  have "sim_ok (s\<lparr>book := b\<rparr>)" "sim_ok (record_trades clock ord 0 trades (s\<lparr>book := b\<rparr>))" if "book_ok b" for trades b
    using assms(1) that recordFills_ok by (auto simp: sim_ok_def record_trades_fields record_trades_tracker)
  moreover have "sim_ok (emitReject ts k i r s')" if "sim_ok s'" for ts k i r s'
    using that by (simp add: emitReject_def write_line_def sim_ok_def)
  moreover have "book_ok (snd (addMarketOrder (io_side ord) (io_qty ord) (book s)))" if "\<not> f64_le0 (io_qty ord)"
    using assms finite_positive [OF _ that] by (simp add: addMarketOrder_ok sim_ok_def sane_order_def)
  moreover have "book_ok (snd (addLimitOrder (io_side ord) (io_price ord) (io_qty ord) (book s)))"
    if "\<not> f64_le0 (io_qty ord)" "\<not> f64_le0 (io_price ord)"
    using assms finite_positive [OF _ that(1)] finite_positive [OF _ that(2)] by (simp add: addLimitOrder_ok sim_ok_def sane_order_def)
  ultimately show ?thesis using assms(1)
    by (cases "io_type ord"; cases "addMarketOrder (io_side ord) (io_qty ord) (book s)") (auto simp: process_order_def Let_def)
qed

section \<open>Answers\<close>

text \<open>The lines that answer an order, given the book it meets.\<close>

definition answers :: "(nat \<Rightarrow> int) \<Rightarrow> IncomingOrder \<Rightarrow> OrderBook \<Rightarrow> bytes list" where
  "answers clock ord b =
     (if f64_le0 (io_qty ord) then [reject_line (clock 0) (io_trader_id ord) (io_order_id ord) ''invalid_qty'']
      else case io_type ord of
        LIMIT \<Rightarrow> if f64_le0 (io_price ord) then [reject_line (clock 0) (io_trader_id ord) (io_order_id ord) ''invalid_price''] else []
      | MARKET \<Rightarrow>
          let ts = fst (addMarketOrder (io_side ord) (io_qty ord) b) in
          if ts = [] then [reject_line (clock 0) (io_trader_id ord) (io_order_id ord) ''insufficient_liquidity'']
          else map (\<lambda>(i, t). fill_line (clock i) (io_trader_id ord) (io_order_id ord) (io_side ord) (t_price t) (t_quantity t)) (enumerate 0 ts))"

lemma process_order_emitted: "emitted (process_order clock ord s) = emitted s @ map (\<lambda>l. l @ [newline]) (answers clock ord (book s))"
proof (cases "addMarketOrder (io_side ord) (io_qty ord) (book s)")
  case (Pair ts b)
  show ?thesis
    by (cases "io_type ord"; cases ts)
       (simp_all add: process_order_def answers_def Pair Let_def emitReject_def write_line_def record_trades_emitted emitFill_def case_prod_unfold o_def)
qed

definition answer_to :: "IncomingOrder \<Rightarrow> bytes \<Rightarrow> bool" where
  "answer_to ord l \<longleftrightarrow>
     (\<exists>ts p q. l = fill_line ts (io_trader_id ord) (io_order_id ord) (io_side ord) p q @ [newline]) \<or>
     (\<exists>ts reason. l = reject_line ts (io_trader_id ord) (io_order_id ord) reason @ [newline])"

lemma answers_answer: "l \<in> set (answers clock ord b) \<Longrightarrow> answer_to ord (l @ [newline])"
  by (auto simp: answers_def answer_to_def Let_def split: if_splits OrderType.splits)

text \<open>Orders that are answered at once; a valid limit order only rests in the book.\<close>

definition answerable :: "IncomingOrder \<Rightarrow> bool" where
  "answerable ord \<longleftrightarrow> f64_le0 (io_qty ord) \<or> io_type ord = MARKET \<or> f64_le0 (io_price ord)"

lemma answers_nonempty: "answers clock ord b = [] \<longleftrightarrow> \<not> answerable ord"
  by (auto simp: answers_def answerable_def Let_def enumerate_eq_zip split: OrderType.splits)

section \<open>Every interleaving\<close>

definition parsed :: "(rat \<Rightarrow> bool) \<Rightarrow> bytes list \<Rightarrow> IncomingOrder list" where
  "parsed tt ls = List.map_filter (\<lambda>l. if l = [] then None else parseIncomingOrder tt l) ls"

definition proc_ok :: "(rat \<Rightarrow> bool) \<Rightarrow> bytes list \<Rightarrow> engine_proc \<Rightarrow> bool" where
  "proc_ok tt ls e \<longleftrightarrow> sim_ok (sim e) \<and> read_lines e @ stdin_lines e = ls \<and> handled e @ queue e = parsed tt (read_lines e) \<and>
     (\<forall>l \<in> set (emitted (sim e)). (\<exists>ord \<in> set (handled e). answer_to ord l) \<or> (\<exists>ts s. l = tick_line ts s @ [newline])) \<and>
     (\<forall>ord \<in> set (handled e). answerable ord \<longrightarrow> (\<exists>l \<in> set (emitted (sim e)). answer_to ord l))"

definition sane_lines :: "(rat \<Rightarrow> bool) \<Rightarrow> bytes list \<Rightarrow> bool" where
  "sane_lines tt ls \<longleftrightarrow> list_all sane_order (parsed tt ls)"

lemma stdin_loop_parsed: "stdin_loop tt ls q = q @ parsed tt ls"
  by (simp add: parsed_def stdin_loop_eq)

lemma parsed_append: "parsed tt (a @ b) = parsed tt a @ parsed tt b"
  by (induction a) (auto simp: parsed_def List.map_filter_simps split: option.splits)

lemma agents_act_emitted: "emitted (agents_act ds is s) = emitted s"
  by (induction "is" arbitrary: s) (auto split: prod.splits)

lemma begin_tick_emitted: "emitted (begin_tick rnd s) = emitted s"
  by (simp add: begin_tick_def agents_act_emitted)

lemma end_tick_emitted: "emitted (end_tick ts s) = emitted s @ [tick_line ts s @ [newline]]"
  by (simp add: end_tick_def emitTick_def write_line_def Let_def)

lemma proc_ok_step:
  assumes "sane_lines tt ls" "proc_ok tt ls e" "proc_step tt e e'"
  shows "proc_ok tt ls e'"
  using assms(3)
proof (cases rule: proc_step.cases)
  case (read_line l rest)
  then show ?thesis using assms(2)
    by (auto simp: proc_ok_def stdin_loop_parsed parsed_append simp del: stdin_loop.simps simp flip: append_assoc)
next
  case (tick_begins rnd)
  then show ?thesis using assms(2) by (auto simp: proc_ok_def begin_tick_ok begin_tick_emitted)
next
  case (order_popped ord q clock)
  then have q: "queue e = ord # q" by (auto simp: queue_pop_def split: list.splits)
  have "ord \<in> set (parsed tt ls)"
    using assms(2) q by (metis in_set_conv_decomp append_assoc parsed_append proc_ok_def append_Cons)
  then have "sane_order ord" using assms(1) by (simp add: sane_lines_def list_all_iff)
  then have ok: "sim_ok (process_order clock ord (sim e))" using assms(2) by (simp add: proc_ok_def process_order_ok)
  let ?new = "map (\<lambda>l. l @ [newline]) (answers clock ord (book (sim e)))"
  have new: "answer_to ord l" if "l \<in> set ?new" for l using that answers_answer by auto
  have some: "\<exists>l \<in> set ?new. answer_to ord l" if "answerable ord"
    using that answers_nonempty [of clock ord "book (sim e)"] new by (metis last_in_set map_is_Nil_conv)
  show ?thesis
    unfolding proc_ok_def order_popped(1)
    using assms(2) ok q new some by (auto simp: proc_ok_def process_order_emitted simp del: set_map)
next
  case (tick_ends q ts)
  then show ?thesis using assms(2) by (fastforce simp: proc_ok_def end_tick_ok end_tick_emitted)
qed

lemma f64_const_pos: "0 < q \<Longrightarrow> q < 2 ^ 1023 \<Longrightarrow> 2 powi (- 1022) \<le> q \<Longrightarrow> fin_pos (f64_const q)"
proof -
  assume q: "0 < q" "q < 2 ^ 1023" "2 powi (- 1022) \<le> q"
  have "f64_round (2 powi (- 1022)) \<le> f64_round q" by (rule f64_round_mono [OF _ q(3)]) simp
  moreover have "f64_round (2 powi (- 1022)) = 2 powi (- 1022)" using f64_round_dyadic [of 1 "- 1022"] by simp
  ultimately have "0 < f64_round q" by (simp add: less_le_trans)
  then show "fin_pos (f64_const q)" using to_f64_num [of q False] q by (simp add: f64_const_def f64_signed_def)
qed

lemma maker_offset: "fin_pos (f64_const (2 / 1000))" "f64_val (f64_const (2 / 1000)) \<le> 1 / 2"
proof -
  have "(2::rat) powi (- 1022) \<le> 2 powi (- 9)" by (rule power_int_increasing) simp_all
  also have "\<dots> \<le> 2 / 1000" by (simp add: power_int_minus)
  finally show "fin_pos (f64_const (2 / 1000))" by (intro f64_const_pos) simp_all
  have "f64_round (2 / 1000) \<le> f64_round (1 / 2)" by (rule f64_round_mono) simp_all
  then show "f64_val (f64_const (2 / 1000)) \<le> 1 / 2"
    using to_f64_num [of "2 / 1000" False] half_round(1) by (simp add: f64_const_def f64_signed_def)
qed

lemma new_simulation_ok: "price_ok (startPrice cfg) \<Longrightarrow> sim_ok (new_simulation jit cfg)"
  using maker_offset dbl_mul [of 15 1]
  by (auto simp: sim_ok_def new_simulation_def empty_book_ok positions_ok_def list_all_iff)

lemma default_price_ok: "price_ok (startPrice default_config)"
  using dbl_fin_pos [of 100] by (simp add: price_ok_def default_config_def kFloor_def f64_le_def fin_pos_def)

interpretation engine_process: guarded_system
  "\<lambda>e. sane_lines tt ls \<and> (\<exists>jit cfg. price_ok (startPrice cfg) \<and> e = proc_start ls (new_simulation jit cfg))"
  "proc_step tt" "\<lambda>e. sane_lines tt ls \<longrightarrow> proc_ok tt ls e" for tt ls
proof
  show "sane_lines tt ls \<longrightarrow> proc_ok tt ls e"
    if "sane_lines tt ls \<and> (\<exists>jit cfg. price_ok (startPrice cfg) \<and> e = proc_start ls (new_simulation jit cfg))" for e
    using that by (auto simp: proc_ok_def proc_start_def new_simulation_ok parsed_def List.map_filter_simps) (simp_all add: new_simulation_def)
qed (blast intro: proc_ok_step)

section \<open>One tick as steps\<close>

definition drain_orders :: "(nat \<Rightarrow> nat \<Rightarrow> int) \<Rightarrow> nat \<Rightarrow> OrderQueue \<Rightarrow> Simulation \<Rightarrow> Simulation" where
  "drain_orders clock n q s = foldl (\<lambda>x (n, ord). process_order (clock n) ord x) s (enumerate n q)"

lemma drain_all: "drainOrderQueue clock n q s = ([], drain_orders clock n q s)"
  by (induction q arbitrary: n s) (subst drainOrderQueue.simps, simp add: queue_pop_def drain_orders_def)+

lemma pop_all:
  "draining f \<Longrightarrow>
   (proc_step tt)\<^sup>*\<^sup>* f (f\<lparr>queue := [], sim := drain_orders clock n (queue f) (sim f), handled := handled f @ queue f\<rparr>)"
proof (induction "queue f" arbitrary: f n)
  case Nil
  then have "f\<lparr>queue := [], sim := drain_orders clock n (queue f) (sim f), handled := handled f @ queue f\<rparr> = f"
    by (cases f) (simp add: drain_orders_def)
  then show ?case by (metis rtranclp.rtrancl_refl)
next
  case (Cons ord q)
  let ?g = "f\<lparr>queue := q, sim := process_order (clock n) ord (sim f), handled := handled f @ [ord]\<rparr>"
  have "proc_step tt f ?g" using Cons.prems Cons.hyps(2) [symmetric] by (intro proc_step.order_popped) (simp_all add: queue_pop_def)
  moreover have "(proc_step tt)\<^sup>*\<^sup>* ?g (?g\<lparr>queue := [], sim := drain_orders clock (Suc n) (queue ?g) (sim ?g), handled := handled ?g @ queue ?g\<rparr>)"
    by (rule Cons.hyps(1)) (use Cons.prems in simp_all)
  ultimately show ?case using Cons.hyps(2) [symmetric] by (simp add: converse_rtranclp_into_rtranclp drain_orders_def)
qed

lemma tick_as_steps:
  assumes "\<not> draining e" "rnd_ok rnd (sim e)"
  shows "\<exists>s. runTick rnd clock ts (queue e, sim e) = ([], end_tick ts s) \<and>
    s = drain_orders clock 0 (queue e) (begin_tick rnd (sim e)) \<and>
    (proc_step tt)\<^sup>*\<^sup>* e (e\<lparr>queue := [], sim := end_tick ts s, handled := handled e @ queue e\<rparr>)"
proof -
  define s where "s = drain_orders clock 0 (queue e) (begin_tick rnd (sim e))"
  let ?f = "e\<lparr>draining := True, sim := begin_tick rnd (sim e)\<rparr>" and ?h = "e\<lparr>draining := True, queue := [], sim := s, handled := handled e @ queue e\<rparr>"
  have "proc_step tt e ?f" by (rule proc_step.tick_begins [OF assms])
  also have "(proc_step tt)\<^sup>*\<^sup>* ?f ?h" using pop_all [of ?f tt clock 0] by (simp add: s_def)
  also have "proc_step tt ?h (?h\<lparr>draining := False, sim := end_tick ts (sim ?h)\<rparr>)"
    by (rule proc_step.tick_ends) (simp_all add: queue_pop_def)
  also have "?h\<lparr>draining := False, sim := end_tick ts (sim ?h)\<rparr> = e\<lparr>queue := [], sim := end_tick ts s, handled := handled e @ queue e\<rparr>"
    using assms(1) by (cases e) simp
  finally have "(proc_step tt)\<^sup>*\<^sup>* e (e\<lparr>queue := [], sim := end_tick ts s, handled := handled e @ queue e\<rparr>)" .
  then show ?thesis using drain_all s_def by (auto simp: runTick_def)
qed

section \<open>Properties\<close>

text \<open>Property C4. In every interleaving of the engine's main loop with the thread that reads standard input, for orders
  whose numbers are finite: orders are handled in exactly the order in which their lines arrived, none twice and none
  left out (those read are the handled ones followed by those in the queue); the book, the
  positions and the price stay well-formed; every line written is a tick or an answer that carries the trader
  and order id of an order that was received; and every handled order other than a valid limit order has been answered.\<close>

theorem engine_interleavings:
  assumes "sane_lines tt ls" "price_ok (startPrice cfg)" "(proc_step tt)\<^sup>*\<^sup>* (proc_start ls (new_simulation jit cfg)) e"
  shows "\<exists>unread. read_lines e @ unread = ls \<and> handled e @ queue e = parsed tt (read_lines e) \<and>
    book_ok (book (sim e)) \<and> positions_ok (posTracker (sim e)) \<and> price_ok (cur_price (sim e)) \<and>
    (\<forall>l \<in> set (emitted (sim e)). (\<exists>ord \<in> set (handled e). answer_to ord l) \<or> (\<exists>ts s. l = tick_line ts s @ [newline])) \<and>
    (\<forall>ord \<in> set (handled e). answerable ord \<longrightarrow> (\<exists>l \<in> set (emitted (sim e)). answer_to ord l))"
  using engine_process.reachable_good [OF _ assms(3), of ls] assms(1,2) by (auto simp: proc_ok_def sim_ok_def)

text \<open>Property C17. What handling one order does, on every path: a quantity that is not positive, or a limit order whose price
  is not, is rejected with one line and changes nothing else; a valid limit order is added to its own side at exactly its price and
  writes nothing; a market order against an empty side is rejected with one line and no position changes; any other
  market order gets one fill line per trade, in the order of the trades, and exactly those
  trades are recorded for its trader.\<close>

theorem order_outcomes:
  assumes "sim_ok s" "sane_order ord"
  shows "let s' = process_order clock ord s; k = io_trader_id ord; i = io_order_id ord; said = map (\<lambda>l. l @ [newline]) in
    (f64_le0 (io_qty ord) \<or> io_type ord = LIMIT \<and> f64_le0 (io_price ord)) \<and>
      (\<exists>reason. reason \<in> {''invalid_qty'', ''invalid_price''} \<and> s' = s\<lparr>emitted := emitted s @ said [reject_line (clock 0) k i reason]\<rparr>) \<or>
    fin_pos (io_qty ord) \<and> io_type ord = LIMIT \<and> fin_pos (io_price ord) \<and>
      emitted s' = emitted s \<and> posTracker s' = posTracker s \<and>
      taken_side (io_side ord) (book s') = taken_side (io_side ord) (book s) \<and>
      map_of (other_side (io_side ord) (book s')) = (map_of (other_side (io_side ord) (book s)))
        (io_price ord \<mapsto> (case map_of (other_side (io_side ord) (book s)) (io_price ord) of None \<Rightarrow> io_qty ord | Some v \<Rightarrow> f64_add v (io_qty ord))) \<or>
    fin_pos (io_qty ord) \<and> io_type ord = MARKET \<and> taken_side (io_side ord) (book s) = [] \<and>
      posTracker s' = posTracker s \<and> emitted s' = emitted s @ said [reject_line (clock 0) k i ''insufficient_liquidity''] \<or>
    fin_pos (io_qty ord) \<and> io_type ord = MARKET \<and>
      (\<exists>ts. addMarketOrder (io_side ord) (io_qty ord) (book s) = (ts, book s') \<and> ts \<noteq> [] \<and>
        emitted s' = emitted s @ said (map (\<lambda>(n, t). fill_line (clock n) k i (io_side ord) (t_price t) (t_quantity t)) (enumerate 0 ts)) \<and>
        posTracker s' = foldl (\<lambda>m t. recordFill k (io_side ord) (t_price t) (t_quantity t) m) (posTracker s) ts)"
proof -
  let ?side = "io_side ord" and ?s' = "process_order clock ord s"
  have fin: "f64_finite (io_qty ord)" "f64_finite (io_price ord)" using assms(2) by (simp_all add: sane_order_def)
  have bk: "book_ok (book s)" using assms(1) by (simp add: sim_ok_def)
  consider (bad) "f64_le0 (io_qty ord) \<or> io_type ord = LIMIT \<and> f64_le0 (io_price ord)"
    | (limit) "fin_pos (io_qty ord)" "io_type ord = LIMIT" "fin_pos (io_price ord)"
    | (market) "fin_pos (io_qty ord)" "io_type ord = MARKET"
    using finite_positive fin by (metis OrderType.exhaust)
  then show ?thesis
  proof cases
    case bad
    then have "\<exists>reason. reason \<in> {''invalid_qty'', ''invalid_price''} \<and>
        ?s' = s\<lparr>emitted := emitted s @ [reject_line (clock 0) (io_trader_id ord) (io_order_id ord) reason @ [newline]]\<rparr>"
      by (auto simp: process_order_def emitReject_def write_line_def)
    then show ?thesis using bad by (auto simp: Let_def)
  next
    case limit
    have p: "f64_pos (io_price ord)" "f64_pos (io_qty ord)" using limit by simp_all
    have s': "?s' = s\<lparr>book := snd (addLimitOrder ?side (io_price ord) (io_qty ord) (book s))\<rparr>"
      using limit p by (simp add: process_order_def)
    have "taken_side ?side (book ?s') = taken_side ?side (book s) \<and>
      map_of (other_side ?side (book ?s')) = (map_of (other_side ?side (book s)))
        (io_price ord \<mapsto> (case map_of (other_side ?side (book s)) (io_price ord) of None \<Rightarrow> io_qty ord | Some v \<Rightarrow> f64_add v (io_qty ord)))"
      using bk ask_order.add_lookup [OF _ p] bid_order.add_lookup [OF _ p]
      by (cases ?side) (simp_all add: s' taken_side_def other_side_def addLimitOrder_def book_ok_def Let_def)
    then show ?thesis using limit s' by (auto simp: Let_def)
  next
    case market
    obtain ts b where m: "addMarketOrder ?side (io_qty ord) (book s) = (ts, b)" by (cases "addMarketOrder ?side (io_qty ord) (book s)")
    have "fill (nextId (book s)) (io_qty ord) (taken_side ?side (book s)) = (ts, taken_side ?side b)"
      using m by (simp add: market_order_sides)
    then have e: "ts = [] \<longleftrightarrow> taken_side ?side (book s) = []"
      using fill_matched [OF market(1) book_ok_taken [OF bk]] matched_some [OF _ market(1)] by metis
    show ?thesis
    proof (cases "ts = []")
      case True
      then have "?s' = emitReject (clock 0) (io_trader_id ord) (io_order_id ord) ''insufficient_liquidity'' (s\<lparr>book := b\<rparr>)"
        using market m by (simp add: process_order_def)
      then show ?thesis using True e market by (auto simp: Let_def emitReject_def write_line_def)
    next
      case False
      then have "?s' = record_trades clock ord 0 ts (s\<lparr>book := b\<rparr>)" using market m by (simp add: process_order_def)
      then have "addMarketOrder ?side (io_qty ord) (book s) = (ts, book ?s') \<and> ts \<noteq> [] \<and>
        emitted ?s' = emitted s @ map (\<lambda>l. l @ [newline]) (map (\<lambda>(n, t). fill_line (clock n) (io_trader_id ord) (io_order_id ord) ?side (t_price t) (t_quantity t)) (enumerate 0 ts)) \<and>
        posTracker ?s' = foldl (\<lambda>m t. recordFill (io_trader_id ord) ?side (t_price t) (t_quantity t) m) (posTracker s) ts"
        using False m by (simp add: record_trades_fields record_trades_tracker record_trades_emitted case_prod_unfold)
      then show ?thesis using market unfolding Let_def by blast
    qed
  qed
qed

text \<open>Property C24. A tick ends: when no order arrives during it, \<^verbatim>\<open>runTick\<close> handles all orders that were queued, one after the
  other, leaves the queue empty and writes its tick line last; and it is the run of the main loop's steps, so that everything
  shown for all interleavings holds for it.\<close>

theorem tick_drains_queue:
  assumes "\<not> draining e" "rnd_ok rnd (sim e)"
  shows "\<exists>s. runTick rnd clock ts (queue e, sim e) = ([], end_tick ts s) \<and>
    s = foldl (\<lambda>x (n, ord). process_order (clock n) ord x) (begin_tick rnd (sim e)) (enumerate 0 (queue e)) \<and>
    (proc_step tt)\<^sup>*\<^sup>* e (e\<lparr>queue := [], sim := end_tick ts s, handled := handled e @ queue e\<rparr>)"
  using tick_as_steps [OF assms, of clock ts tt] by (simp add: drain_orders_def)

text \<open>A market order as it arrives, and a simulation without agents in which it is handled.\<close>

definition sample_line :: bytes where
  "sample_line = json_object [(''trader_id'', raw_string ''a''), (''order_id'', raw_string ''b''), (''side'', raw_string ''BUY''),
     (''type'', raw_string ''MARKET''), (''qty'', ''2'')]"

definition sample_order :: IncomingOrder where
  "sample_order = \<lparr>io_trader_id = ''a'', io_order_id = ''b'', io_side = BUY, io_type = MARKET, io_price = f64_zero, io_qty = dbl 2\<rparr>"

definition sample_config :: Config where
  "sample_config = \<lparr>numMakers = 0, numTakers = 0, numWhales = 0, startPrice = dbl 100\<rparr>"

definition sample_draws :: draws where
  "sample_draws = \<lparr>d_prob = f64_zero, d_side = 0, d_jitter = 0\<rparr>"

definition sample_sim :: Simulation where
  "sample_sim = new_simulation (\<lambda>_. sample_draws) sample_config"

lemma sample_line_strings:
  "extractString sample_line ''trader_id'' = ''a''" "extractString sample_line ''order_id'' = ''b''"
  "extractString sample_line ''side'' = ''BUY''" "extractString sample_line ''type'' = ''MARKET''"
  "index_of (key_needle ''price'') sample_line = None"
  by code_simp+

lemma sample_line_parsed: "parseIncomingOrder tt sample_line = Some sample_order"
proof -
  have "stod_reads tt ''2'' (dbl 2)"
    using stod_digits [of "''2''" tt] by (simp add: json_int_def is_digit_def digits_val_def digit_val_def)
  moreover have "list_all (other_member ''qty'') [(''trader_id'', raw_string ''a''), (''order_id'', raw_string ''b''), (''side'', raw_string ''BUY''),
     (''type'', raw_string ''MARKET'')]"
    using json_escape_bare [of "''a''"] json_escape_bare [of "''b''"] json_escape_bare [of "''BUY''"] json_escape_bare [of "''MARKET''"]
    by (simp add: other_member_def raw_string_def json_string_def bare_def html_special_def) metis
  ultimately have "extractNumber tt sample_line ''qty'' = Some (dbl 2)"
    using extractNumber_member [of "''qty''" "[(''trader_id'', raw_string ''a''), (''order_id'', raw_string ''b''), (''side'', raw_string ''BUY''),
     (''type'', raw_string ''MARKET'')]" tt "''2''" "dbl 2" "[]"] by (simp add: sample_line_def good_key_def)
  then show ?thesis
    by (simp add: parseIncomingOrder_def sample_line_strings sample_order_def extractNumber_def [of tt sample_line "''price''"])
qed

lemma sample_parsed: "parsed tt [sample_line] = [sample_order]"
proof -
  have "sample_line \<noteq> []" by (simp add: sample_line_def json_object_def)
  then show ?thesis by (simp add: parsed_def List.map_filter_simps sample_line_parsed)
qed

lemma sample_sane: "sane_order sample_order" "sane_lines tt [sample_line]" "price_ok (startPrice sample_config)" "sim_ok sample_sim"
proof -
  show o: "sane_order sample_order"
    using dbl_fin_pos [of 2] by (simp add: sane_order_def sample_order_def fin_pos_def f64_zero_def)
  then show "sane_lines tt [sample_line]" by (simp add: sane_lines_def sample_parsed)
  show "price_ok (startPrice sample_config)" using default_price_ok by (simp add: sample_config_def default_config_def)
  then show "sim_ok sample_sim" by (simp add: sample_sim_def new_simulation_ok)
qed

text \<open>The order arrives before a tick and is rejected in it, because nobody has made a market.\<close>

lemma sample_draw_zero: "draw_ok f64_zero"
  using to_f64_num [of "1 / 100"] hundredth(2) by (simp add: draw_ok_def f64_const_def f64_signed_def f64_num_order)

definition sample_rnd :: tick_rnd where
  "sample_rnd = \<lparr>r_return = f64_zero, r_order = [], r_draws = (\<lambda>_. sample_draws)\<rparr>"

lemma sample_rnd_ok: "rnd_ok sample_rnd sample_sim"
  by (simp add: rnd_ok_def sample_rnd_def sample_draw_zero sample_sim_def new_simulation_def sample_config_def)

theorem tick_drains_queue_witness:
  "\<exists>s. runTick sample_rnd (\<lambda>_ _. 7) 8 ([sample_order], sample_sim) = ([], end_tick 8 s) \<and>
     s = process_order (\<lambda>_. 7) sample_order (begin_tick sample_rnd sample_sim)"
  using tick_drains_queue [of "(proc_start [] sample_sim)\<lparr>queue := [sample_order]\<rparr>" sample_rnd "\<lambda>_ _. 7" 8 "\<lambda>_. False"] sample_rnd_ok
  by (simp add: proc_start_def)

lemma sample_handled:
  "\<exists>e. (proc_step tt)\<^sup>*\<^sup>* (proc_start [sample_line] sample_sim) e \<and> handled e = [sample_order]"
proof -
  let ?e0 = "proc_start [sample_line] sample_sim"
  let ?e1 = "?e0\<lparr>stdin_lines := [], read_lines := read_lines ?e0 @ [sample_line], queue := stdin_loop tt [sample_line] (queue ?e0)\<rparr>"
  have 1: "proc_step tt ?e0 ?e1" by (rule proc_step.read_line) (simp add: proc_start_def)
  have q: "queue ?e1 = [sample_order]" by (simp add: stdin_loop_parsed sample_parsed proc_start_def del: stdin_loop.simps)
  have "\<not> draining ?e1" "rnd_ok sample_rnd (sim ?e1)" using sample_rnd_ok by (simp_all add: proc_start_def)
  from tick_as_steps [OF this, of "\<lambda>_ _. 7" 8 tt] obtain s
    where 2: "(proc_step tt)\<^sup>*\<^sup>* ?e1 (?e1\<lparr>queue := [], sim := s, handled := handled ?e1 @ queue ?e1\<rparr>)" by blast
  have "handled (?e1\<lparr>queue := [], sim := s, handled := handled ?e1 @ queue ?e1\<rparr>) = [sample_order]"
    using q by (simp add: proc_start_def)
  then show ?thesis using converse_rtranclp_into_rtranclp [OF 1 2] by blast
qed

theorem engine_interleavings_witness:
  "sane_lines (\<lambda>_. False) [sample_line] \<and>
   (\<exists>e :: engine_proc. handled e = [sample_order] \<and> (\<exists>l \<in> set (emitted (sim e)). answer_to sample_order l))"
proof -
  obtain e where e: "(proc_step (\<lambda>_. False))\<^sup>*\<^sup>* (proc_start [sample_line] sample_sim) e" "handled e = [sample_order]"
    using sample_handled by blast
  have "answerable sample_order" by (simp add: answerable_def sample_order_def)
  then have "\<exists>l \<in> set (emitted (sim e)). answer_to sample_order l"
    using engine_interleavings [OF sample_sane(2,3) e(1) [unfolded sample_sim_def]] e(2) by auto
  then show ?thesis using e(2) sample_sane(2) by blast
qed

theorem order_outcomes_witness:
  "sim_ok sample_sim \<and> sane_order sample_order \<and>
   emitted (process_order (\<lambda>_. 7) sample_order sample_sim) = [reject_line 7 ''a'' ''b'' ''insufficient_liquidity'' @ [newline]]"
proof -
  have d: "\<not> f64_le0 (dbl 2)" "taken_side BUY (book sample_sim) = []" "emitted sample_sim = []"
    "fst (addMarketOrder BUY (dbl 2) (book sample_sim)) = []"
    by (simp_all add: dbl_def sample_sim_def new_simulation_def empty_book_def taken_side_def addMarketOrder_def)
  show ?thesis
    using order_outcomes [OF sample_sane(4,1), of "\<lambda>_. 7"] sample_sane(1,4) d
    by (auto simp: sample_order_def Let_def)
qed

end
