(* ===== verification/Closed_Loop.thy ===== *)
theory Closed_Loop
  imports End_To_End Engine_Sim
begin

text \<open>
  Server and engine together.  The command line the server starts the engine with (\<^verbatim>\<open>src/main.cpp\<close>) is read as the
  configuration it was made from; and an order of a sandbox whose id has no quote is read by the engine as the order that was
  sent, and its answers are routed back to that sandbox alone, under the order's own id.
\<close>

section \<open>The command line of the engine\<close>

text \<open>\<^verbatim>\<open>std::stoi\<close>: no digits and values outside \<^verbatim>\<open>int\<close> throw, which ends the process.\<close>

definition stoi :: "bytes \<Rightarrow> int option" where
  "stoi s =
     (let r = dropWhile c_space s;
          (neg, m) = (case r of c # cs \<Rightarrow> if c = CHR ''-'' then (True, cs) else if c = CHR ''+'' then (False, cs) else (False, r)
                      | [] \<Rightarrow> (False, []));
          ds = takeWhile is_digit m;
          v = (if neg then - int (digits_val ds) else int (digits_val ds))
      in if ds = [] \<or> v < - (2 ^ 31) \<or> 2 ^ 31 \<le> v then None else Some v)"

text \<open>The loop over the arguments of \<^verbatim>\<open>main\<close>; \<open>None\<close> when an exception ends the process.\<close>

fun main_flags :: "bytes list \<Rightarrow> Config \<Rightarrow> Config option" where
  "main_flags [] cfg = Some cfg"
| "main_flags [arg] cfg = Some cfg"
| "main_flags (arg # v # as) cfg =
     (if arg = ''--makers'' then Option.bind (stoi v) (\<lambda>n. main_flags as (cfg\<lparr>numMakers := n\<rparr>))
      else if arg = ''--takers'' then Option.bind (stoi v) (\<lambda>n. main_flags as (cfg\<lparr>numTakers := n\<rparr>))
      else if arg = ''--whales'' then Option.bind (stoi v) (\<lambda>n. main_flags as (cfg\<lparr>numWhales := n\<rparr>))
      else main_flags (v # as) cfg)"

lemma stoi_itoa: "- (2 ^ 31) \<le> i \<Longrightarrow> i < 2 ^ 31 \<Longrightarrow> stoi (itoa i) = Some i"
proof -
  assume i: "- (2 ^ 31) \<le> i" "i < 2 ^ 31"
  have span: "takeWhile is_digit (nat_digits n) = nat_digits n" for n
    using digits_span(1) [OF nat_digits_all_digits, of "[]" n] by simp
  obtain c cs where c: "nat_digits (nat \<bar>i\<bar>) = c # cs" "is_digit c" using nat_digits_hd by blast
  have sp: "\<not> c_space c" "c \<noteq> CHR ''-''" "c \<noteq> CHR ''+''" using digit_not_letter [OF c(2)] is_digit_not_sign [OF c(2)] by auto
  have v: "digits_val (c # cs) = nat \<bar>i\<bar>" "takeWhile is_digit (c # cs) = c # cs"
    using digits_val_nat_digits [of "nat \<bar>i\<bar>"] span [of "nat \<bar>i\<bar>"] by (simp_all only: c)
  show ?thesis
  proof (cases "i < 0")
    case True
    then have "itoa i = CHR ''-'' # c # cs" using c by (simp add: itoa_def)
    then show ?thesis using True i v by (simp add: stoi_def c_space_def)
  next
    case False
    then have "itoa i = c # cs" using c by (simp add: itoa_def)
    then show ?thesis using False i v sp by (simp add: stoi_def)
  qed
qed

text \<open>Property C21. The configuration of the server reaches the engine: started with the arguments of a validated configuration, the
  engine runs with exactly its numbers of makers, takers and whales.  The fourth setting, the tick interval, has no
  effect: the engine's configuration is the same whatever it is.\<close>

theorem config_reaches_engine:
  assumes "validate c = []"
  shows "main_flags (config_args c) cfg = Some (cfg\<lparr>numMakers := Makers c, numTakers := Takers c, numWhales := Whales c\<rparr>)"
proof -
  have "stoi (itoa (Makers c)) = Some (Makers c)" "stoi (itoa (Takers c)) = Some (Takers c)" "stoi (itoa (Whales c)) = Some (Whales c)"
    using assms by (auto simp: validate_def intro!: stoi_itoa split: if_splits)
  then show ?thesis by (simp add: config_args_def)
qed

theorem config_reaches_engine_witness:
  "main_flags (config_args demo_config) default_config =
     Some (default_config\<lparr>numMakers := Makers demo_config, numTakers := Takers demo_config, numWhales := Whales demo_config\<rparr>)"
  using config_reaches_engine [of demo_config] demo_config_valid(1) by simp

section \<open>Orders on their way to the engine\<close>

definition engine_side :: "bytes \<Rightarrow> Side option" where
  "engine_side s = (if s = ''BUY'' then Some BUY else if s = ''SELL'' then Some SELL else None)"

text \<open>The order of a sandbox as the engine should see it.\<close>

definition order_for_engine :: "bytes \<Rightarrow> order_msg \<Rightarrow> IncomingOrder option" where
  "order_for_engine k m =
     map_option (\<lambda>side. \<lparr>io_trader_id = k, io_order_id = json_escape (om_OrderID m), io_side = side,
        io_type = (if om_OrderType m = ''MARKET'' then MARKET else LIMIT), io_price = om_Price m, io_qty = om_Qty m\<rparr>)
       (engine_side (om_Side m))"

text \<open>What the script has to keep to: an order id without a quote (and not empty), one of the two sides, an order type without characters that
  JSON escapes, and numbers that are zero or normal doubles.\<close>

definition plain_order :: "order_msg \<Rightarrow> bool" where
  "plain_order m \<longleftrightarrow> om_OrderID m \<noteq> [] \<and> dquote \<notin> set (om_OrderID m) \<and> engine_side (om_Side m) \<noteq> None \<and>
     list_all bare (om_OrderType m) \<and> f64_normal (om_Price m) \<and> f64_normal (om_Qty m)"

lemma engine_side_bare: "engine_side sd = Some side \<Longrightarrow> sd \<noteq> [] \<and> list_all bare sd"
  by (auto simp: engine_side_def bare_def html_special_def split: if_splits)

lemma json_escape_no_quote: "dquote \<notin> set s \<Longrightarrow> dquote \<notin> set (json_escape s)"
proof (induction s rule: length_induct)
  case (1 s)
  show ?case
  proof (cases s)
    case (Cons c cs)
    have ih: "dquote \<notin> set (json_escape (drop (Suc n) s))" for n
    proof -
      have "length (drop (Suc n) s) < length s" by (simp add: Cons)
      moreover have "dquote \<notin> set (drop (Suc n) s)" using 1(2) in_set_dropD by metis
      ultimately show ?thesis using 1(1) by blast
    qed
    let ?n = "utf8_len (c # cs)"
    have dr: "dquote \<notin> set (json_escape (drop ?n (c # cs)))" if "?n \<noteq> 0"
      using ih [of "?n - 1"] that by (simp add: Cons del: utf8_len.simps)
    have c: "dquote \<notin> set (escape_ascii c)"
      using 1(2) hex_digit_not_quote [of c] by (auto simp: Cons escape_ascii_def)
    show ?thesis
    proof (rule json_escape_step [of c cs])
      assume "json_escape (c # cs) = escape_ascii c @ json_escape cs"
      then show ?thesis using c ih [of 0] by (simp add: Cons)
    next
      assume "json_escape (c # cs) = backslash # ''ufffd'' @ json_escape cs"
      then show ?thesis using ih [of 0] by (simp add: Cons)
    next
      fix d
      assume "?n \<noteq> 0" "d = CHR ''8'' \<or> d = CHR ''9''" "json_escape (c # cs) = backslash # ''u202'' @ d # json_escape (drop ?n (c # cs))"
      then show ?thesis using dr by (auto simp: Cons simp del: utf8_len.simps)
    next
      assume d: "?n \<noteq> 0" "json_escape (c # cs) = take ?n (c # cs) @ json_escape (drop ?n (c # cs))"
      then show ?thesis using dr 1(2) by (auto simp: Cons simp del: utf8_len.simps dest: in_set_takeD)
    qed
  qed simp
qed

lemma json_escape_nonempty: "s \<noteq> [] \<Longrightarrow> json_escape s \<noteq> []"
  by (cases s) (auto simp: json_escape.simps(2) escape_ascii_def Let_def split: if_splits)

lemma takeWhile_no_quote: "dquote \<notin> set s \<Longrightarrow> takeWhile (\<lambda>c. c \<noteq> dquote) (json_escape s) = json_escape s"
  using json_escape_no_quote [of s] by (auto simp: takeWhile_eq_all_conv)

text \<open>The numbers and the type of a marshalled order.\<close>

lemma relay_order_numbers:
  assumes "marshal_relay_order k m = Some t" "f64_normal (om_Price m)" "f64_normal (om_Qty m)"
  shows "extractNumber tt t ''price'' = Some (om_Price m)" "extractNumber tt t ''qty'' = Some (om_Qty m)"
    and "extractString t ''type'' = takeWhile (\<lambda>c. c \<noteq> dquote) (json_escape (if om_OrderType m = [] then ''LIMIT'' else om_OrderType m))"
proof -
  obtain p q where pq: "format_float (om_Price m) = Some p" "format_float (om_Qty m) = Some q"
    using assms(1) by (auto simp: marshal_relay_order_def split: option.splits)
  let ?ty = "if om_OrderType m = [] then ''LIMIT'' else om_OrderType m"
  let ?id = "(''order_id'', json_string (om_OrderID m))" and ?sd = "(''side'', json_string (om_Side m))" and ?tr = "(''trader_id'', json_string k)"
  have t: "t = json_object [?id, (''price'', p), (''qty'', q), ?sd, ?tr, (''type'', json_string ?ty)]"
    using assms(1) by (simp add: marshal_relay_order_def pq)
  have no: "dquote \<notin> set p" "dquote \<notin> set q" using assms(2,3) no_quote_float pq by (auto simp: f64_normal_def)
  have o: "list_all (other_member ''price'') [?id]" "list_all (other_member ''qty'') [?id, (''price'', p)]"
    "list_all (other_member ''type'') [?id, (''price'', p), (''qty'', q), ?sd, ?tr]"
    using no by (auto simp: other_member_def)
  show "extractNumber tt t ''price'' = Some (om_Price m)"
    using extractNumber_member [OF _ o(1) stod_format [OF assms(2) pq(1)], where post = "[(''qty'', q), ?sd, ?tr, (''type'', json_string ?ty)]"]
    by (simp add: t good_key_def)
  show "extractNumber tt t ''qty'' = Some (om_Qty m)"
    using extractNumber_member [OF _ o(2) stod_format [OF assms(3) pq(2)], where post = "[?sd, ?tr, (''type'', json_string ?ty)]"]
    by (simp add: t good_key_def)
  show "extractString t ''type'' = takeWhile (\<lambda>c. c \<noteq> dquote) (json_escape ?ty)"
    using extract_member [OF _ o(3), of ?ty "[]"] by (simp add: t good_key_def)
qed

text \<open>The engine reads exactly the order that was sent.\<close>

lemma relay_order_parsed:
  assumes "marshal_relay_order k m = Some t" "order_msg_clean m" "traderIDRegex k" "plain_order m"
  shows "parseIncomingOrder tt t = order_for_engine k m"
proof -
  have k: "list_all bare k" "k \<noteq> []" using assms(3) trader_id_bare by (auto simp: traderIDRegex_def)
  note m = assms(4) [unfolded plain_order_def]
  obtain side where side: "engine_side (om_Side m) = Some side" using m by auto
  then have sd: "om_Side m \<noteq> []" "list_all bare (om_Side m)" using engine_side_bare by auto
  note s = relay_order_strings [OF assms(1,2)] and n = relay_order_numbers [OF assms(1)]
  have st: "extractString t ''trader_id'' = k" "extractString t ''order_id'' = json_escape (om_OrderID m)"
    "extractString t ''side'' = om_Side m"
    "extractString t ''type'' = (if om_OrderType m = [] then ''LIMIT'' else om_OrderType m)"
    using s n m k sd takeWhile_bare takeWhile_no_quote takeWhile_bare [of "''LIMIT''"] by (auto simp: bare_def html_special_def)
  show ?thesis
    using st n m k sd json_escape_nonempty
    by (auto simp: parseIncomingOrder_def order_for_engine_def engine_side_def Let_def)
qed

section \<open>Answers on their way back\<close>

lemma json_int_digits: "json_int (nat_digits n)"
proof (cases "n = 0")
  case True
  then show ?thesis by (subst nat_digits.simps) (simp add: json_int_def digit_char_def is_digit_def)
next
  case False
  then show ?thesis using nat_digits_hd_nonzero [of n] nat_digits_all_digits [of n] nat_digits_hd [of n] by (auto simp: json_int_def)
qed

lemma encodes_nat: "encodes (nat_digits n) (JNum (nat_digits n))"
  using encodes_num_text [of "nat_digits n" "[]" "CHR ''+''" "[]" "nat_digits n" False] json_int_digits [of n]
  by (simp add: num_parts_def num_text_def)

lemma encodes_itoa: "encodes (itoa i) (JNum (itoa i))"
  using encodes_num_text [of "nat_digits (nat \<bar>i\<bar>)" "[]" "CHR ''+''" "[]" "itoa i" "i < 0"] json_int_digits [of "nat \<bar>i\<bar>"]
  by (auto simp: num_parts_def num_text_def itoa_def)

text \<open>Unescaped text of the engine that is the server's encoding of a string.\<close>

lemma raw_string_bare: "list_all bare s \<Longrightarrow> raw_string s = json_string s"
  by (simp add: raw_string_def json_string_def json_escape_bare)

lemma raw_string_escaped: "raw_string (json_escape s) = json_string s"
  by (simp add: raw_string_def json_string_def)

lemma encodes_bare: "list_all bare s \<Longrightarrow> encodes (raw_string s) (JStr s)"
  by (simp add: raw_string_bare encodes_string bare_utf8)

lemma bare_words: "list_all bare ''fill''" "list_all bare ''reject''" "list_all bare ''tick''" "list_all bare (side_text side)"
  by (auto simp: bare_def html_special_def side_text_def split: Side.split)

text \<open>Fill and reject lines as the server reads them.\<close>

lemma fill_line_value:
  assumes "list_all bare k" "valid_utf8 oid" "f64_finite p" "f64_finite q"
  shows "json_value (fill_line ts k (json_escape oid) side p q) =
    Some (JObj [(''type'', JStr ''fill''), (''trader_id'', JStr k), (''order_id'', JStr oid), (''side'', JStr (side_text side)),
      (''price'', JNum (fmt_g p)), (''qty'', JNum (fmt_g q)), (''ts'', JNum (itoa ts))], [])"
proof -
  let ?ms = "[(''type'', raw_string ''fill'', JStr ''fill''), (''trader_id'', raw_string k, JStr k),
    (''order_id'', raw_string (json_escape oid), JStr oid), (''side'', raw_string (side_text side), JStr (side_text side)),
    (''price'', fmt_g p, JNum (fmt_g p)), (''qty'', fmt_g q, JNum (fmt_g q)), (''ts'', itoa ts, JNum (itoa ts))]"
  have "list_all member_ok ?ms"
    using assms encodes_bare bare_words encodes_string [of oid] fmt_g_encodes encodes_itoa
    by (simp add: member_ok_def plain_key_def raw_string_escaped)
  then show ?thesis using json_value_object [of ?ms "[]"] by (simp add: fill_line_def)
qed

lemma reject_line_value:
  assumes "list_all bare k" "valid_utf8 oid" "list_all bare reason"
  shows "json_value (reject_line ts k (json_escape oid) reason) =
    Some (JObj [(''type'', JStr ''reject''), (''trader_id'', JStr k), (''order_id'', JStr oid), (''reason'', JStr reason),
      (''ts'', JNum (itoa ts))], [])"
proof -
  let ?ms = "[(''type'', raw_string ''reject'', JStr ''reject''), (''trader_id'', raw_string k, JStr k),
    (''order_id'', raw_string (json_escape oid), JStr oid), (''reason'', raw_string reason, JStr reason), (''ts'', itoa ts, JNum (itoa ts))]"
  have "list_all member_ok ?ms"
    using assms encodes_bare bare_words encodes_string [of oid] encodes_itoa
    by (simp add: member_ok_def plain_key_def raw_string_escaped)
  then show ?thesis using json_value_object [of ?ms "[]"] by (simp add: reject_line_def)
qed

text \<open>An event of the engine about one order of one trader.\<close>

definition about_order :: "bytes \<Rightarrow> bytes \<Rightarrow> bytes \<Rightarrow> bool" where
  "about_order k oid l \<longleftrightarrow>
     (\<exists>ty rest. (ty = ''fill'' \<or> ty = ''reject'') \<and> set (map fst rest) \<subseteq> {''side'', ''price'', ''qty'', ''ts'', ''reason''} \<and>
        json_value l = Some (JObj ((''type'', JStr ty) # (''trader_id'', JStr k) # (''order_id'', JStr oid) # rest), []))"

lemma hdr_other_fields:
  assumes "set (map fst rest) \<subseteq> {''side'', ''price'', ''qty'', ''ts'', ''reason''}"
  shows "set_members hdr_fields rest (e, h) = (e, h)"
  using assms
proof (induction rest)
  case (Cons m rest)
  have "find_field hdr_fields (fst m) = None"
    using Cons.prems by (auto simp: find_field_def hdr_fields_def str_field_def upper_def)
  then show ?case using Cons by (cases m) simp
qed simp

lemma about_order_hdr:
  assumes "about_order k oid l"
  shows "hdr_TraderID (hdr_of l) = k" "hdr_Type (hdr_of l) = ''fill'' \<or> hdr_Type (hdr_of l) = ''reject''"
proof -
  from assms obtain ty rest where l: "ty = ''fill'' \<or> ty = ''reject''" "set (map fst rest) \<subseteq> {''side'', ''price'', ''qty'', ''ts'', ''reason''}"
    "json_value l = Some (JObj ((''type'', JStr ty) # (''trader_id'', JStr k) # (''order_id'', JStr oid) # rest), [])"
    by (auto simp: about_order_def)
  have "hdr_of l = \<lparr>hdr_Type = ty, hdr_TraderID = k\<rparr>"
    using hdr_other_fields [OF l(2)]
    by (simp add: hdr_of_def unmarshal_def l(3) find_field_def hdr_fields_def str_field_def upper_def zero_hdr_def)
  then show "hdr_TraderID (hdr_of l) = k" "hdr_Type (hdr_of l) = ''fill'' \<or> hdr_Type (hdr_of l) = ''reject''" using l(1) by auto
qed

text \<open>The fan-out gives such an event to the connection of that trader, and to no other.\<close>

lemma about_order_routed:
  "about_order k oid l \<Longrightarrow> k \<noteq> [] \<Longrightarrow>
   fan_event order l r = (case map_of (conns r) k of None \<Rightarrow> Some r | Some p \<Rightarrow> offer_to p l r)"
  using about_order_hdr [of k oid l] by (auto simp: fan_event_def hdr_of_def Let_def)

lemma fill_trades:
  "fin_pos r \<Longrightarrow> list_all level_ok l \<Longrightarrow> t \<in> set (fst (fill aid r l)) \<Longrightarrow> fin_pos (t_quantity t) \<and> t_price t \<in> fst ` set l"
proof (induction l arbitrary: r)
  case (Cons e l)
  obtain p v where e: "e = (p, v)" by (cases e)
  have pos: "fin_pos r" "f64_pos v" using Cons.prems by (simp_all add: e)
  then show ?case
  proof (cases rule: f64_pos_cases)
    case whole
    obtain ts l' where f: "fill aid (f64_sub r v) l = (ts, l')" by (cases "fill aid (f64_sub r v) l")
    have "fst (fill aid r (e # l)) = \<lparr>aggressor_id = aid, passive_id = 0, t_price = p, t_quantity = v\<rparr> # ts"
      unfolding e fill_whole [OF pos whole(1)] f by simp
    then show ?thesis using Cons.IH [OF whole(3)] Cons.prems whole(2) by (auto simp: f e)
  next
    case exact
    then show ?thesis using Cons.prems fill_exact [OF pos(1)] by (simp add: e del: fill.simps)
  next
    case part
    then show ?thesis using Cons.prems fill_part [OF pos part(1)] by (simp add: e del: fill.simps)
  qed
qed simp

definition finite_prices :: "OrderBook \<Rightarrow> bool" where
  "finite_prices b \<longleftrightarrow> list_all (\<lambda>e. f64_finite (fst e)) (bids b) \<and> list_all (\<lambda>e. f64_finite (fst e)) (asks b)"

lemma market_trades_finite:
  assumes "book_ok b" "fin_pos q" "finite_prices b" "t \<in> set (fst (addMarketOrder side q b))"
  shows "f64_finite (t_price t)" "f64_finite (t_quantity t)"
proof -
  obtain ts b' where m: "addMarketOrder side q b = (ts, b')" by (cases "addMarketOrder side q b")
  then have "fill (nextId b) q (taken_side side b) = (ts, taken_side side b')" by (simp add: market_order_sides)
  then have "t \<in> set (fst (fill (nextId b) q (taken_side side b)))" using assms(4) m by simp
  from fill_trades [OF assms(2) book_ok_taken [OF assms(1)] this]
  show "f64_finite (t_price t)" "f64_finite (t_quantity t)"
    using assms(3) by (cases side; auto simp: finite_prices_def taken_side_def list_all_iff fin_pos_def)+
qed

lemma bare_reasons: "list_all bare ''invalid_qty''" "list_all bare ''invalid_price''" "list_all bare ''insufficient_liquidity''"
  by (simp_all add: bare_def html_special_def)

lemma answers_about:
  assumes "sim_ok s" "finite_prices (book s)" "sane_order ord" "list_all bare k" "valid_utf8 oid"
    and "io_trader_id ord = k" "io_order_id ord = json_escape oid" "l \<in> set (answers clock ord (book s))"
  shows "about_order k oid l"
proof -
  have rej: "about_order k oid (reject_line ts k (json_escape oid) reason)" if "list_all bare reason" for ts reason
    using reject_line_value [OF assms(4,5) that] by (auto simp: about_order_def)
  have fil: "about_order k oid (fill_line ts k (json_escape oid) side p q)" if "f64_finite p" "f64_finite q" for ts side p q
    using fill_line_value [OF assms(4,5) that] by (auto simp: about_order_def)
  have bk: "book_ok (book s)" using assms(1) by (simp add: sim_ok_def)
  have fin: "f64_finite (t_price t) \<and> f64_finite (t_quantity t)"
    if "\<not> f64_le0 (io_qty ord)" "t \<in> set (fst (addMarketOrder (io_side ord) (io_qty ord) (book s)))" for t
    using market_trades_finite [OF bk finite_positive assms(2) that(2)] that(1) assms(3) by (auto simp: sane_order_def)
  show ?thesis
    using assms(8) rej bare_reasons fil fin
    by (auto simp: answers_def assms(6,7) Let_def in_set_enumerate_eq split: if_splits OrderType.splits)
qed

section \<open>Properties\<close>

text \<open>Property C2. The way of a well-behaved order to the engine and back.  The order of a script qualifies if its id is not empty and
  contains no quote, its side is BUY or SELL, its type has no character that JSON escapes, and its numbers are zero or normal
  doubles (\<open>plain_order\<close>; an id with a quote is cut on the way, see \<open>quoted_order_id_cut\<close>).  Then the server writes it as one
  line, and the engine reads from that line the trader \<open>k\<close>, the side, the type (LIMIT unless it is MARKET), the price and the quantity to the
  last bit, and as order id the id in its JSON-escaped form.  If moreover the engine's state is well-formed and
  the prices in its book are finite, every line the engine writes in answer is JSON that names \<open>k\<close> and the script's own,
  unescaped id; the server's fan-out gives it to the connection of \<open>k\<close> if there is one, and to no other; and there is an
  answer unless the order is a valid limit order.\<close>

theorem order_round_trip:
  assumes "traderIDRegex k" "is_order raw" "plain_order (order_of raw)" "sim_ok s" "finite_prices (book s)"
  shows "let m = order_of raw in
    \<exists>line ord. marshal_relay_order k m = Some line \<and> newline \<notin> set line \<and> parseIncomingOrder tt line = Some ord \<and>
      io_trader_id ord = k \<and> io_order_id ord = json_escape (om_OrderID m) \<and> Some (io_side ord) = engine_side (om_Side m) \<and>
      io_type ord = (if om_OrderType m = ''MARKET'' then MARKET else LIMIT) \<and> io_price ord = om_Price m \<and> io_qty ord = om_Qty m \<and>
      (\<exists>ls. emitted (process_order clock ord s) = emitted s @ map (\<lambda>l. l @ [newline]) ls \<and>
         (ls = [] \<longleftrightarrow> io_type ord = LIMIT \<and> fin_pos (om_Price m) \<and> fin_pos (om_Qty m)) \<and>
         (\<forall>l \<in> set ls. about_order k (om_OrderID m) l \<and>
            (\<forall>order r. fan_event order l r = (case map_of (conns r) k of None \<Rightarrow> Some r | Some p \<Rightarrow> offer_to p l r))))"
proof -
  define m where "m = order_of raw"
  have clean: "order_msg_clean m" unfolding m_def by (rule is_order_clean [OF assms(2)])
  have k: "list_all bare k" "k \<noteq> []" using assms(1) trader_id_bare by (auto simp: traderIDRegex_def)
  obtain line where line: "marshal_relay_order k m = Some line" "newline \<notin> set line"
    using marshal_relay_reads [OF clean bare_utf8 [OF k(1)]] by (metis order_line_def)
  obtain side where side: "engine_side (om_Side m) = Some side" using assms(3) by (auto simp: m_def plain_order_def)
  define ord where "ord = \<lparr>io_trader_id = k, io_order_id = json_escape (om_OrderID m), io_side = side,
      io_type = (if om_OrderType m = ''MARKET'' then MARKET else LIMIT), io_price = om_Price m, io_qty = om_Qty m\<rparr>"
  have p: "parseIncomingOrder tt line = Some ord"
    using relay_order_parsed [OF line(1) clean assms(1), of tt] assms(3) side by (simp add: m_def order_for_engine_def ord_def)
  have fin: "f64_finite (om_Price m)" "f64_finite (om_Qty m)" using clean by (simp_all add: order_msg_clean_def)
  have "sane_order ord" using fin by (simp add: sane_order_def ord_def)
  then have about: "about_order k (om_OrderID m) l" if "l \<in> set (answers clock ord (book s))" for l
    using answers_about [OF assms(4,5) _ k(1) _ _ _ that] clean by (simp add: ord_def order_msg_clean_def)
  have pos: "fin_pos (om_Price m) \<longleftrightarrow> \<not> f64_le0 (om_Price m)" "fin_pos (om_Qty m) \<longleftrightarrow> \<not> f64_le0 (om_Qty m)"
    using fin finite_positive by auto
  have none: "answers clock ord (book s) = [] \<longleftrightarrow> io_type ord = LIMIT \<and> fin_pos (om_Price m) \<and> fin_pos (om_Qty m)"
    unfolding answers_nonempty answerable_def pos by (cases "io_type ord") (auto simp: ord_def)
  show ?thesis
    unfolding Let_def m_def [symmetric]
  proof (intro exI conjI)
    show "emitted (process_order clock ord s) = emitted s @ map (\<lambda>l. l @ [newline]) (answers clock ord (book s))"
      by (rule process_order_emitted)
    show "\<forall>l \<in> set (answers clock ord (book s)). about_order k (om_OrderID m) l \<and>
        (\<forall>order r. fan_event order l r = (case map_of (conns r) k of None \<Rightarrow> Some r | Some p \<Rightarrow> offer_to p l r))"
      using about about_order_routed [OF about k(2)] by blast
  qed (use line p none side in \<open>simp_all add: ord_def\<close>)
qed

text \<open>A market order as a script prints it.\<close>

definition sample_raw :: bytes where
  "sample_raw = json_object [(''type'', json_string ''order''), (''order_id'', json_string ''o1''), (''side'', json_string ''BUY''),
     (''order_type'', json_string ''MARKET''), (''qty'', ''2'')]"

lemma sample_raw_order: "is_order sample_raw"
  "order_of sample_raw = \<lparr>om_Type = ''order'', om_OrderID = ''o1'', om_Side = ''BUY'', om_OrderType = ''MARKET'',
     om_Price = f64_zero, om_Qty = dbl 2\<rparr>"
proof -
  let ?ms = "[(''type'', json_string ''order'', JStr ''order''), (''order_id'', json_string ''o1'', JStr ''o1''),
     (''side'', json_string ''BUY'', JStr ''BUY''), (''order_type'', json_string ''MARKET'', JStr ''MARKET''), (''qty'', ''2'', JNum ''2'')]"
  have "list_all member_ok ?ms"
    using encodes_string encodes_digits by (simp add: member_ok_def plain_key_def)
  from unmarshal_object [OF _ this, of order_fields zero_order]
  have "unmarshal order_fields sample_raw zero_order = (False, \<lparr>om_Type = ''order'', om_OrderID = ''o1'', om_Side = ''BUY'',
      om_OrderType = ''MARKET'', om_Price = f64_zero, om_Qty = dbl 2\<rparr>)"
    by (simp add: sample_raw_def order_fields_def find_field_def str_field_def float_field_def upper_def
        parse_float_2 zero_order_def dbl_def)
  then show "is_order sample_raw" "order_of sample_raw = \<lparr>om_Type = ''order'', om_OrderID = ''o1'', om_Side = ''BUY'', om_OrderType = ''MARKET'',
     om_Price = f64_zero, om_Qty = dbl 2\<rparr>"
    by (simp_all add: is_order_def order_of_def)
qed

lemma dbl_normal: "0 < n \<Longrightarrow> n < 2 ^ 53 \<Longrightarrow> f64_normal (dbl n)"
proof -
  assume n: "0 < n" "n < 2 ^ 53"
  have "(2::rat) powi (- 1022) < 2 powi 0" by (rule power_int_strict_increasing) simp_all
  moreover have "1 \<le> rat_of_nat n" using n(1) by simp
  ultimately have "2 powi (- 1022) < rat_of_nat n" by simp
  then show ?thesis using dbl_mag [OF n(2)] by (simp add: f64_normal_def dbl_def)
qed

lemma bot_id: "traderIDRegex ''bot''"
  by (simp add: traderIDRegex_def id_char_def)

lemma sample_raw_plain: "plain_order (order_of sample_raw)"
  using dbl_normal [of 2] by (simp add: sample_raw_order(2) plain_order_def bare_def html_special_def engine_side_def f64_normal_def zero_finite)

theorem order_round_trip_witness:
  "\<exists>line ls. marshal_relay_order ''bot'' (order_of sample_raw) = Some line \<and> parseIncomingOrder (\<lambda>_. True) line =
     Some \<lparr>io_trader_id = ''bot'', io_order_id = ''o1'', io_side = BUY, io_type = MARKET, io_price = f64_zero, io_qty = dbl 2\<rparr> \<and>
     ls \<noteq> [] \<and> (\<forall>l \<in> set ls. about_order ''bot'' ''o1'' l)"
proof -
  have "finite_prices (book sample_sim)"
    by (simp add: finite_prices_def sample_sim_def new_simulation_def empty_book_def)
  from order_round_trip [OF bot_id sample_raw_order(1) sample_raw_plain sample_sane(4) this, of "\<lambda>_. True" "\<lambda>_. 7"]
  obtain line ord ls where o: "marshal_relay_order ''bot'' (order_of sample_raw) = Some line" "parseIncomingOrder (\<lambda>_. True) line = Some ord"
    "io_trader_id ord = ''bot''" "io_order_id ord = json_escape ''o1''" "Some (io_side ord) = engine_side ''BUY''" "io_type ord = MARKET"
    "io_price ord = f64_zero" "io_qty ord = dbl 2" "ls \<noteq> []" "\<forall>l \<in> set ls. about_order ''bot'' ''o1'' l"
    by (auto simp: Let_def sample_raw_order(2))
  moreover have "json_escape ''o1'' = ''o1''" by (rule json_escape_bare) (simp add: bare_def html_special_def)
  ultimately have "ord = \<lparr>io_trader_id = ''bot'', io_order_id = ''o1'', io_side = BUY, io_type = MARKET, io_price = f64_zero, io_qty = dbl 2\<rparr>"
    by (cases ord) (simp add: engine_side_def)
  with o show ?thesis by blast
qed

end
