(* ===== verification/Closed_Ticks.thy ===== *)
theory Closed_Ticks
  imports Closed_Loop
begin

text \<open>
  The tick lines of the engine as the server reads them.  A line whose numbers are finite and whose trader ids are whole is a JSON object
  that the tick store accepts; a position with an infinite number or a NaN makes every line that lists it unreadable.
\<close>

section \<open>Ticks on their way to the store\<close>

definition well_scaled :: "float64 \<Rightarrow> bool" where
  "well_scaled x \<longleftrightarrow> f64_finite x \<and> \<bar>f64_val x\<bar> < 2 ^ 1022 \<and> (f64_val x = 0 \<or> 2 powi (- 1000) \<le> \<bar>f64_val x\<bar>)"

text \<open>The engine prints trader ids as it read them, escaped by the server; an id with a quote was cut at the quote and is no longer the
  escaped form of a text.\<close>

definition whole_id :: "bytes \<Rightarrow> bool" where
  "whole_id i \<longleftrightarrow> (\<exists>k. valid_utf8 k \<and> i = json_escape k)"

lemma whole_id_bare: "list_all bare k \<Longrightarrow> whole_id k"
  unfolding whole_id_def using json_escape_bare bare_utf8 by metis

lemma whole_id_encodes: "whole_id i \<Longrightarrow> \<exists>k. encodes (raw_string i) (JStr k)"
  unfolding whole_id_def using raw_string_escaped encodes_string by metis

text \<open>What has to hold of a simulation for its tick line to be JSON with readable numbers: no infinities or NaNs in what is printed, the
  price, the best prices and the spread zero or not too close to the ends of the range of doubles, and, in a tick
  that lists the positions, only whole trader ids.\<close>

definition finite_levels :: "ladder \<Rightarrow> bool" where
  "finite_levels l \<longleftrightarrow> list_all (\<lambda>e. f64_finite (fst e) \<and> f64_finite (snd e)) l"

definition finite_positions :: "float64 \<Rightarrow> positions \<Rightarrow> bool" where
  "finite_positions x m \<longleftrightarrow> list_all (\<lambda>p. whole_id (pos_trader_id p) \<and> f64_finite (net_qty p) \<and>
     f64_finite (unrealisedPnL p x) \<and> f64_finite (realised_pnl p)) (snapshot m)"

definition printable :: "Simulation \<Rightarrow> bool" where
  "printable s \<longleftrightarrow> well_scaled (cur_price s) \<and> well_scaled (bestBid (book s)) \<and> well_scaled (bestAsk (book s)) \<and> well_scaled (spread (book s)) \<and>
     finite_levels (bidLevels 5 (book s)) \<and> finite_levels (askLevels 5 (book s)) \<and>
     (tick_no s mod 10 = 0 \<longrightarrow> finite_positions (cur_price s) (posTracker s))"

lemma reads_plain_object:
  assumes "ms \<noteq> []" "list_all (\<lambda>(k, t, v). plain_key k \<and> encodes t v) ms"
  shows "reads_value 1 (json_object (map (\<lambda>(k, t, v). (k, t)) ms)) (JObj (map (\<lambda>(k, t, v). (k, v)) ms))"
  using reads_object [of ms 0] assms by (simp add: list_all_iff reads_member_def encodes_reads case_prod_unfold)

lemma level_reads:
  assumes "f64_finite (fst e)" "f64_finite (snd e)"
  shows "\<exists>v. reads_value 1 (level_text e) v"
  using reads_plain_object [of "[(''price'', fmt_g (fst e), JNum (fmt_g (fst e))), (''qty'', fmt_g (snd e), JNum (fmt_g (snd e)))]"]
    fmt_g_encodes assms by (auto simp: level_text_def plain_key_def)

lemma position_reads:
  assumes "whole_id (pos_trader_id p)" "f64_finite (net_qty p)" "f64_finite (unrealisedPnL p x)" "f64_finite (realised_pnl p)"
  shows "\<exists>v. reads_value 1 (position_text x p) v"
proof -
  obtain k where "encodes (raw_string (pos_trader_id p)) (JStr k)" using whole_id_encodes [OF assms(1)] by blast
  then show ?thesis
    using reads_plain_object [of "[(''trader_id'', raw_string (pos_trader_id p), JStr k), (''net_qty'', fmt_g (net_qty p), JNum (fmt_g (net_qty p))),
       (''unrealised_pnl'', fmt_g (unrealisedPnL p x), JNum (fmt_g (unrealisedPnL p x))), (''realised_pnl'', fmt_g (realised_pnl p), JNum (fmt_g (realised_pnl p)))]"]
      fmt_g_encodes assms by (auto simp: position_text_def plain_key_def)
qed

lemma array_reads:
  assumes "\<forall>t \<in> set ts. \<exists>v. reads_value 1 t v"
  shows "\<exists>v. reads_value 2 (json_array ts) v"
proof -
  obtain f where "\<forall>t \<in> set ts. reads_value 1 t (f t)" using assms by metis
  then have "list_all (\<lambda>(t, v). reads_value 1 t v) (map (\<lambda>t. (t, f t)) ts)" by (simp add: list_all_iff)
  from reads_array [OF this] show ?thesis by (auto simp: o_def numeral_2_eq_2)
qed

text \<open>The tick line is one JSON object with the members in their order.\<close>

lemma tick_line_value:
  assumes "printable s"
  shows "\<exists>rest. json_value (tick_line ts s) = Some (JObj (
      [(''type'', JStr ''tick''), (''tick'', JNum (nat_digits (unat (tick_no s)))), (''ts'', JNum (itoa ts)), (''price'', JNum (fmt_g (cur_price s))),
       (''bid'', JNum (fmt_g (bestBid (book s)))), (''ask'', JNum (fmt_g (bestAsk (book s)))), (''spread'', JNum (fmt_g (spread (book s))))] @ rest), []) \<and>
    set (map fst rest) \<subseteq> {''bid_depth'', ''ask_depth'', ''positions''}"
proof -
  let ?bs = "json_array (map level_text (bidLevels 5 (book s)))" and ?as = "json_array (map level_text (askLevels 5 (book s)))"
  let ?ps = "json_array (map (position_text (cur_price s)) (snapshot (posTracker s)))"
  have ok: "f64_finite (cur_price s)" "f64_finite (bestBid (book s))" "f64_finite (bestAsk (book s))" "f64_finite (spread (book s))"
    using assms by (simp_all add: printable_def well_scaled_def)
  obtain vb where b: "reads_value 2 ?bs vb"
    using array_reads [of "map level_text (bidLevels 5 (book s))"] level_reads assms by (auto simp: printable_def finite_levels_def list_all_iff)
  obtain va where a: "reads_value 2 ?as va"
    using array_reads [of "map level_text (askLevels 5 (book s))"] level_reads assms by (auto simp: printable_def finite_levels_def list_all_iff)
  have p: "\<exists>v. reads_value 2 ?ps v" if "tick_no s mod 10 = 0"
    using array_reads [of "map (position_text (cur_price s)) (snapshot (posTracker s))"] position_reads assms that
    by (auto simp: printable_def finite_positions_def list_all_iff)
  define vp where "vp = (SOME v. reads_value 2 ?ps v)"
  define tail where "tail = (if tick_no s mod 10 = 0 then [(''positions'', ?ps, vp)] else [])"
  let ?ms = "[(''type'', raw_string ''tick'', JStr ''tick''), (''tick'', nat_digits (unat (tick_no s)), JNum (nat_digits (unat (tick_no s)))),
    (''ts'', itoa ts, JNum (itoa ts)), (''price'', fmt_g (cur_price s), JNum (fmt_g (cur_price s))),
    (''bid'', fmt_g (bestBid (book s)), JNum (fmt_g (bestBid (book s)))), (''ask'', fmt_g (bestAsk (book s)), JNum (fmt_g (bestAsk (book s)))),
    (''spread'', fmt_g (spread (book s)), JNum (fmt_g (spread (book s)))), (''bid_depth'', ?bs, vb), (''ask_depth'', ?as, va)] @ tail"
  have "list_all (reads_member 2) tail" using someI_ex [OF p] by (simp add: tail_def vp_def reads_member_def plain_key_def)
  then have "list_all (reads_member 2) ?ms"
    using ok a b encodes_bare [OF bare_words(3)] encodes_nat encodes_itoa fmt_g_encodes
    by (simp add: reads_member_def plain_key_def encodes_reads)
  from reads_object [OF _ this]
  have "reads_value 3 (json_object (map (\<lambda>(k, t, v). (k, t)) ?ms)) (JObj (map (\<lambda>(k, t, v). (k, v)) ?ms))"
    by (simp add: numeral_3_eq_3 numeral_2_eq_2)
  then have v: "json_value (json_object (map (\<lambda>(k, t, v). (k, t)) ?ms)) = Some (JObj (map (\<lambda>(k, t, v). (k, v)) ?ms), [])"
    by (rule reads_json_value) (simp add: maxNestingDepth_def)
  have "tick_line ts s = json_object (map (\<lambda>(k, t, v). (k, t)) ?ms)" by (simp add: tick_line_def tail_def)
  with v show ?thesis
    by (intro exI [of _ "[(''bid_depth'', vb), (''ask_depth'', va)] @ map (\<lambda>(k, t, v). (k, v)) tail"]) (auto simp: tail_def)
qed

lemma fmt_g_close:
  assumes "well_scaled x"
  obtains y where "parse_float (fmt_g x) = Some y" "\<bar>f64_val y - f64_val x\<bar> \<le> \<bar>f64_val x\<bar> / 100000"
  using fmt_g_reads [of x] assms by (auto simp: well_scaled_def)

lemma tick_other_fields:
  assumes "set (map fst rest) \<subseteq> {''bid_depth'', ''ask_depth'', ''positions''}"
  shows "set_members tick_fields rest (e, h) = (e, h)"
  using assms
proof (induction rest)
  case (Cons m rest)
  have "find_field tick_fields (fst m) = None"
    using Cons.prems by (auto simp: find_field_def tick_fields_def str_field_def int_field_def float_field_def upper_def)
  then show ?case using Cons by (cases m) simp
qed simp

text \<open>How close a number of the table is to the number of the simulation.\<close>

definition close_to :: "float64 \<Rightarrow> float64 \<Rightarrow> bool" where
  "close_to y x \<longleftrightarrow> \<bar>f64_val y - f64_val x\<bar> \<le> \<bar>f64_val x\<bar> / 100000"

lemma tick_line_decoded:
  assumes "printable s" "int64_range ts"
  shows "\<exists>t. unmarshal tick_fields (tick_line ts s) zero_tick = (False, t) \<and> tr_Type t = ''tick'' \<and> tr_Ts t = ts \<and>
    close_to (tr_Price t) (cur_price s) \<and> close_to (tr_Bid t) (bestBid (book s)) \<and> close_to (tr_Ask t) (bestAsk (book s)) \<and>
    close_to (tr_Spread t) (spread (book s))"
proof -
  note w = assms(1) [unfolded printable_def]
  obtain p where p: "parse_float (fmt_g (cur_price s)) = Some p" "close_to p (cur_price s)"
    using fmt_g_close [of "cur_price s"] w by (metis close_to_def)
  obtain b where b: "parse_float (fmt_g (bestBid (book s))) = Some b" "close_to b (bestBid (book s))"
    using fmt_g_close [of "bestBid (book s)"] w by (metis close_to_def)
  obtain a where a: "parse_float (fmt_g (bestAsk (book s))) = Some a" "close_to a (bestAsk (book s))"
    using fmt_g_close [of "bestAsk (book s)"] w by (metis close_to_def)
  obtain d where d: "parse_float (fmt_g (spread (book s))) = Some d" "close_to d (spread (book s))"
    using fmt_g_close [of "spread (book s)"] w by (metis close_to_def)
  obtain rest where v: "json_value (tick_line ts s) = Some (JObj (
      [(''type'', JStr ''tick''), (''tick'', JNum (nat_digits (unat (tick_no s)))), (''ts'', JNum (itoa ts)), (''price'', JNum (fmt_g (cur_price s))),
       (''bid'', JNum (fmt_g (bestBid (book s)))), (''ask'', JNum (fmt_g (bestAsk (book s)))), (''spread'', JNum (fmt_g (spread (book s))))] @ rest), [])"
    "set (map fst rest) \<subseteq> {''bid_depth'', ''ask_depth'', ''positions''}"
    using tick_line_value [OF assms(1)] by blast
  have "unmarshal tick_fields (tick_line ts s) zero_tick =
    (False, \<lparr>tr_Type = ''tick'', tr_Ts = ts, tr_Price = p, tr_Bid = b, tr_Ask = a, tr_Spread = d\<rparr>)"
    using decimal.decode_encode [OF assms(2)] p(1) b(1) a(1) d(1) tick_other_fields [OF v(2)]
    by (simp add: unmarshal_def v(1) find_field_def tick_fields_def str_field_def int_field_def float_field_def upper_def zero_tick_def)
  then show ?thesis using p(2) b(2) a(2) d(2) by simp
qed

section \<open>The history\<close>

text \<open>Property C19. The ticks of the engine reach the history.  Suppose that the printed numbers are finite, that the price, the best prices and the
  spread are each zero or between \<open>2 powi (- 1000)\<close> and \<open>2 ^ 1022\<close> in size, and that, if the tick lists positions (every tenth does), no trader id in
  them was cut at a quote (\<open>whole_id\<close>).  Then the line of the tick is JSON that the server's store accepts as a tick; the stored time
  is exact, and the stored price, bid, ask and spread differ from those of the simulation by at most one
  part in a hundred thousand (the engine prints six digits).\<close>

theorem tick_reaches_store:
  assumes "printable s" "int64_range ts"
  shows "\<exists>t. StoreTick json_err None (tick_line ts s) d = (None, True, insert_tick t (tick_line ts s) d) \<and>
    tr_Ts t = ts \<and> close_to (tr_Price t) (cur_price s) \<and> close_to (tr_Bid t) (bestBid (book s)) \<and>
    close_to (tr_Ask t) (bestAsk (book s)) \<and> close_to (tr_Spread t) (spread (book s))"
  using tick_line_decoded [OF assms] by (auto simp: StoreTick_def)

text \<open>The tick line of a simulation without trades.\<close>

lemma sample_printable: "printable sample_sim"
proof -
  have z: "well_scaled f64_zero" by (simp add: well_scaled_def f64_zero_def)
  have p: "well_scaled (dbl 100)"
  proof -
    have "(2::rat) powi (- 1000) \<le> 2 powi 0" by (rule power_int_increasing) simp_all
    then show ?thesis using dbl_mag [of 100] by (simp add: well_scaled_def dbl_def)
  qed
  have "f64_sub f64_zero f64_zero = f64_zero" by (simp add: f64_sub_def f64_zero_def f64_signed_def)
  with z p show ?thesis
    by (simp add: printable_def sample_sim_def new_simulation_def sample_config_def bestBid_def bestAsk_def spread_def empty_book_def
        finite_levels_def bidLevels_def askLevels_def finite_positions_def snapshot_def)
qed

theorem tick_reaches_store_witness:
  "printable sample_sim \<and> int64_range 8 \<and>
   (\<exists>t. StoreTick [] None (tick_line 8 sample_sim) schema = (None, True, insert_tick t (tick_line 8 sample_sim) schema) \<and>
     tr_Ts t = 8 \<and> close_to (tr_Price t) (dbl 100))"
proof -
  have "int64_range 8" "cur_price sample_sim = dbl 100"
    by (simp_all add: int64_range_def int64_min_def int64_max_def sample_sim_def new_simulation_def sample_config_def)
  then show ?thesis using tick_reaches_store [OF sample_printable, of 8 "[]" schema] sample_printable by auto
qed

section \<open>Numbers the scanner stops at\<close>

text \<open>A text at which the decoder stops with a syntax error wherever a value is expected.\<close>

definition bad_value :: "nat \<Rightarrow> string \<Rightarrow> bool" where
  "bad_value d t \<longleftrightarrow> (\<forall>fs e r. (e = WantValue \<or> e = WantElemOrEnd) \<and> length fs + d \<le> maxNestingDepth \<longrightarrow> scan fs e (t @ r) = None)"

lemma bad_valueD: "bad_value d t \<Longrightarrow> e = WantValue \<or> e = WantElemOrEnd \<Longrightarrow> length fs + d \<le> maxNestingDepth \<Longrightarrow> scan fs e (t @ r) = None"
  by (simp add: bad_value_def)

lemma bad_number: "f64_wf x \<Longrightarrow> \<not> f64_finite x \<Longrightarrow> bad_value d (fmt_g x)"
proof -
  assume "f64_wf x" "\<not> f64_finite x"
  then consider s where "x = F64Inf s" | "x = F64NaN" by (cases x) auto
  then have "next_token (fmt_g x @ r) = None" for r
    by cases (auto simp: next_token_def is_space_def parse_num_def parse_unsigned_def num_int_def is_digit_def lit_token_def)
  then show ?thesis by (simp add: bad_value_def scan.simps)
qed

lemma bad_members:
  assumes "plain_key k" "bad_value d t" "Suc (length fs) + d \<le> maxNestingDepth" "list_all (reads_member d) ms"
  shows "scan (FObj acc k0 # fs) WantKey (json_members (map (\<lambda>(k, t, v). (k, t)) ms @ (k, t) # rest) @ r) = None"
  using assms(4)
proof (induction ms arbitrary: acc k0)
  case Nil
  obtain u where "json_members ((k, t) # rest) @ r = CHR 0x22 # k @ CHR 0x22 # CHR '':'' # t @ u"
    using json_members_first [of k t rest r] by (auto simp: key_needle_def)
  then show ?case
    using bad_valueD [OF assms(2), of WantValue "FObj acc k # fs" u] assms(3)
    by (simp add: scan_token [OF next_token_key [OF assms(1)]] scan_token [OF next_token_punct(3)])
next
  case (Cons m ms)
  obtain k1 t1 v1 where m: "m = (k1, t1, v1)" "plain_key k1" "reads_value d t1 v1"
    using Cons.prems by (cases m) (auto simp: reads_member_def)
  let ?rest = "json_members (map (\<lambda>(k, t, v). (k, t)) ms @ (k, t) # rest) @ r"
  have "json_members (map (\<lambda>(k, t, v). (k, t)) (m # ms) @ (k, t) # rest) @ r = CHR 0x22 # k1 @ CHR 0x22 # CHR '':'' # t1 @ CHR '','' # ?rest"
    using json_members_Cons [of "map (\<lambda>(k, t, v). (k, t)) ms @ (k, t) # rest" k1 t1] by (simp add: m(1))
  then show ?case
    using scan_nested_member [OF m(2,3) _ assms(3), of "CHR '','' # ?rest" acc k0] Cons
    by (simp add: scan_token [OF next_token_punct(4)])
qed

lemma bad_elems:
  assumes "bad_value d t" "Suc (length fs) + d \<le> maxNestingDepth" "list_all (\<lambda>(t, v). reads_value d t v) xs"
  shows "e = WantValue \<or> e = WantElemOrEnd \<Longrightarrow> scan (FArr acc # fs) e (comma_sep (map fst xs @ t # rest) @ r) = None"
  using assms(3)
proof (induction xs arbitrary: acc e)
  case Nil
  obtain u where "comma_sep (t # rest) = t @ u" by (cases rest) auto
  then show ?case using bad_valueD [OF assms(1) Nil.prems(1), of "FArr acc # fs"] assms(2) by simp
next
  case (Cons x xs)
  obtain t1 v1 where x: "x = (t1, v1)" "reads_value d t1 v1" using Cons.prems by (cases x) auto
  let ?rest = "comma_sep (map fst xs @ t # rest) @ r"
  obtain y ys where "map fst xs @ t # rest = y # ys" by (cases "map fst xs @ t # rest") auto
  then have "comma_sep (map fst (x # xs) @ t # rest) @ r = t1 @ CHR '','' # ?rest" by (simp add: x(1))
  then show ?case
    using reads_valueD [OF x(2) Cons.prems(1), of "FArr acc # fs" "CHR '','' # ?rest"] assms(2) Cons
    by (simp add: resume_def scan_token [OF next_token_punct(4)])
qed

text \<open>What the engine prints is either read or refused, and one refused part spoils the whole.\<close>

definition settled :: "nat \<Rightarrow> string \<Rightarrow> bool" where
  "settled d t \<longleftrightarrow> (\<exists>v. reads_value d t v) \<or> bad_value d t"

lemma settled_number: "f64_wf x \<Longrightarrow> settled d (fmt_g x)"
  unfolding settled_def using bad_number fmt_g_encodes encodes_reads by blast

lemma settled_encodes: "encodes t v \<Longrightarrow> settled d t"
  unfolding settled_def using encodes_reads by blast

lemma first_bad:
  assumes "list_all (\<lambda>x. settled d (f x)) xs" "x \<in> set xs" "bad_value d (f x)"
  obtains ys y zs where "xs = ys @ y # zs" "bad_value d (f y)" "list_all (\<lambda>x. \<exists>v. reads_value d (f x) v) ys"
proof -
  obtain ys y zs where s: "xs = ys @ y # zs" "bad_value d (f y)" "\<forall>z \<in> set ys. \<not> bad_value d (f z)"
    using split_list_first_prop [of xs "\<lambda>x. bad_value d (f x)"] assms(2,3) by blast
  then have "list_all (\<lambda>x. \<exists>v. reads_value d (f x) v) ys" using assms(1) by (auto simp: settled_def list_all_iff)
  with s that show thesis by blast
qed

lemma bad_object:
  assumes "list_all (\<lambda>(k, t). plain_key k \<and> settled d t) ms" "(k, t) \<in> set ms" "bad_value d t"
  shows "bad_value (Suc d) (json_object ms)"
  unfolding bad_value_def
proof (intro allI impI, elim conjE)
  fix fs :: "frame list" and e :: expect and r :: string
  assume e: "e = WantValue \<or> e = WantElemOrEnd" and len: "length fs + Suc d \<le> maxNestingDepth"
  have "list_all (\<lambda>x. settled d (snd x)) ms" "bad_value d (snd (k, t))" using assms(1,3) by (auto simp: list_all_iff)
  from first_bad [OF this(1) assms(2) this(2)] obtain ys y zs where
    s: "ms = ys @ y # zs" "bad_value d (snd y)" "list_all (\<lambda>x. \<exists>v. reads_value d (snd x) v) ys" by blast
  then obtain f where f: "list_all (\<lambda>x. reads_value d (snd x) (f x)) ys" unfolding list_all_iff by metis
  let ?ys = "map (\<lambda>(k, t). (k, t, f (k, t))) ys"
  have good: "list_all (reads_member d) ?ys" using f assms(1) by (auto simp: list_all_iff s(1) reads_member_def)
  have ms: "ms = map (\<lambda>(k, t, v). (k, t)) ?ys @ (fst y, snd y) # zs" by (simp add: s(1) o_def case_prod_unfold)
  have keys: "plain_key (fst y)" "plain_key (fst (hd ms))" using assms(1) by (auto simp: s(1) list_all_iff hd_append case_prod_unfold split: list.split)
  have "ms \<noteq> []" using s(1) by simp
  then obtain k1 t1 ms' where m1: "ms = (k1, t1) # ms'" by (metis neq_Nil_conv prod.exhaust)
  obtain u where u: "json_members ms = CHR 0x22 # k1 @ CHR 0x22 # u" by (cases ms') (auto simp: m1)
  have "scan fs e (json_object ms @ r) = scan (FObj [] [] # fs) WantKeyOrEnd (json_members ms @ CHR ''}'' # r)"
    using e len by (auto simp: json_object_def scan_resume [OF next_token_punct(1)] open_frame_def resume_def)
  also have "\<dots> = scan (FObj [] [] # fs) WantKey (json_members ms @ CHR ''}'' # r)"
    using keys(2) unfolding u by (simp add: m1 scan_token [OF next_token_key])
  also have "\<dots> = None" using bad_members [OF keys(1) s(2) _ good, of fs "[]" "[]" zs, folded ms] len by simp
  finally show "scan fs e (json_object ms @ r) = None" .
qed

lemma settled_object: "ms \<noteq> [] \<Longrightarrow> list_all (\<lambda>(k, t). plain_key k \<and> settled d t) ms \<Longrightarrow> settled (Suc d) (json_object ms)"
proof (cases "\<exists>(k, t) \<in> set ms. bad_value d t")
  case True
  then show "list_all (\<lambda>(k, t). plain_key k \<and> settled d t) ms \<Longrightarrow> ?thesis" using bad_object by (auto simp: settled_def)
next
  case False
  assume ms: "ms \<noteq> []" "list_all (\<lambda>(k, t). plain_key k \<and> settled d t) ms"
  then have "\<forall>x \<in> set ms. \<exists>v. reads_value d (snd x) v" using False by (fastforce simp: list_all_iff settled_def)
  then obtain f where f: "\<forall>x \<in> set ms. reads_value d (snd x) (f x)" by metis
  let ?ms = "map (\<lambda>(k, t). (k, t, f (k, t))) ms"
  have "list_all (reads_member d) ?ms" using f ms(2) by (auto simp: list_all_iff reads_member_def)
  moreover have "map (\<lambda>(k, t, v). (k, t)) ?ms = ms" by (simp add: o_def case_prod_unfold)
  ultimately show ?thesis using reads_object [of ?ms d] ms(1) unfolding settled_def by (metis map_is_Nil_conv)
qed

lemma bad_array:
  assumes "list_all (settled d) ts" "t \<in> set ts" "bad_value d t"
  shows "bad_value (Suc d) (json_array ts)"
  unfolding bad_value_def
proof (intro allI impI, elim conjE)
  fix fs :: "frame list" and e :: expect and r :: string
  assume e: "e = WantValue \<or> e = WantElemOrEnd" and len: "length fs + Suc d \<le> maxNestingDepth"
  obtain ys y zs where s: "ts = ys @ y # zs" "bad_value d y" "list_all (\<lambda>x. \<exists>v. reads_value d x v) ys"
    using first_bad [of d "\<lambda>t. t" ts t] assms by auto
  then obtain f where "list_all (\<lambda>x. reads_value d x (f x)) ys" unfolding list_all_iff by metis
  then have good: "list_all (\<lambda>(t, v). reads_value d t v) (map (\<lambda>t. (t, f t)) ys)" by (simp add: list_all_iff)
  have "scan fs e (json_array ts @ r) = scan (FArr [] # fs) WantElemOrEnd (comma_sep ts @ CHR '']'' # r)"
    using e len by (auto simp: json_array_def scan_resume [OF next_token_brackets(1)] open_frame_def resume_def)
  also have "\<dots> = None" using bad_elems [OF s(2) _ good, of fs WantElemOrEnd "[]" zs] len by (simp add: s(1) o_def)
  finally show "scan fs e (json_array ts @ r) = None" .
qed

lemma settled_array: "list_all (settled d) ts \<Longrightarrow> settled (Suc d) (json_array ts)"
proof (cases "\<exists>t \<in> set ts. bad_value d t")
  case True
  then show "list_all (settled d) ts \<Longrightarrow> ?thesis" using bad_array by (auto simp: settled_def)
next
  case False
  assume "list_all (settled d) ts"
  then have "\<forall>t \<in> set ts. \<exists>v. reads_value d t v" using False by (auto simp: list_all_iff settled_def)
  then obtain f where f: "\<forall>t \<in> set ts. reads_value d t (f t)" by metis
  then have "list_all (\<lambda>(t, v). reads_value d t v) (map (\<lambda>t. (t, f t)) ts)" by (simp add: list_all_iff)
  from reads_array [OF this] show ?thesis unfolding settled_def by (auto simp: o_def)
qed

section \<open>Tick lines that list a position with a number that is not finite\<close>

definition positions_wf :: "positions \<Rightarrow> bool" where
  "positions_wf m \<longleftrightarrow> list_all (\<lambda>(k, p). f64_wf (net_qty p) \<and> f64_wf (realised_pnl p) \<and> f64_wf (avg_cost p)) m"

lemma settled_level:
  assumes "level_ok e"
  shows "settled 1 (level_text e)"
proof -
  have "f64_wf (fst e)" "f64_wf (snd e)" using assms f64_pos_wf by (auto simp: level_ok_def)
  then show ?thesis using settled_object [of "[(''price'', fmt_g (fst e)), (''qty'', fmt_g (snd e))]" 0]
    by (simp add: level_text_def plain_key_def settled_number)
qed

lemma settled_depth:
  assumes "ladder_ok before l"
  shows "settled 2 (json_array (map level_text (copy_levels 5 [] l)))"
proof -
  have "list_all level_ok (copy_levels 5 [] l)"
    using assms set_take_subset [of 5 l] by (auto simp: copy_levels_take ladder_ok_def list_all_iff)
  then have "list_all (settled 1) (map level_text (copy_levels 5 [] l))" using settled_level by (auto simp: list_all_iff)
  from settled_array [OF this] show ?thesis by (simp add: numeral_2_eq_2)
qed

text \<open>The members of a position, read or refused.\<close>

lemma position_members:
  assumes "whole_id (pos_trader_id p)" "f64_wf x" "f64_wf (net_qty p)" "f64_wf (realised_pnl p)" "f64_wf (avg_cost p)"
  shows "list_all (\<lambda>(k, t). plain_key k \<and> settled 0 t)
    [(''trader_id'', raw_string (pos_trader_id p)), (''net_qty'', fmt_g (net_qty p)),
     (''unrealised_pnl'', fmt_g (unrealisedPnL p x)), (''realised_pnl'', fmt_g (realised_pnl p))]"
proof -
  have "settled 0 (raw_string (pos_trader_id p))" using whole_id_encodes [OF assms(1)] settled_encodes by blast
  moreover have "f64_wf (unrealisedPnL p x)" unfolding unrealisedPnL_def f64_sub_def by (intro f64_mul_wf f64_add_wf assms)
  ultimately show ?thesis using assms by (simp add: plain_key_def settled_number)
qed

lemma settled_position:
  "whole_id (pos_trader_id p) \<Longrightarrow> f64_wf x \<Longrightarrow> f64_wf (net_qty p) \<Longrightarrow> f64_wf (realised_pnl p) \<Longrightarrow> f64_wf (avg_cost p) \<Longrightarrow> settled 1 (position_text x p)"
  using settled_object [OF _ position_members] by (simp add: position_text_def)

lemma bad_position:
  assumes "whole_id (pos_trader_id p)" "f64_wf x" "f64_wf (net_qty p)" "f64_wf (realised_pnl p)" "f64_wf (avg_cost p)"
    and "\<not> f64_finite (net_qty p) \<or> \<not> f64_finite (unrealisedPnL p x) \<or> \<not> f64_finite (realised_pnl p)"
  shows "bad_value 1 (position_text x p)"
proof -
  have "f64_wf (unrealisedPnL p x)" unfolding unrealisedPnL_def f64_sub_def by (intro f64_mul_wf f64_add_wf assms)
  then have "bad_value 0 (fmt_g (net_qty p)) \<or> bad_value 0 (fmt_g (unrealisedPnL p x)) \<or> bad_value 0 (fmt_g (realised_pnl p))"
    using assms(3,4,6) bad_number by blast
  then show ?thesis using bad_object [OF position_members [OF assms(1-5)]] by (auto simp: position_text_def)
qed

lemma infinite_position_line:
  assumes "sim_ok s" "positions_wf (posTracker s)" "tick_no s mod 10 = 0" "list_all (\<lambda>p. whole_id (pos_trader_id p)) (snapshot (posTracker s))"
    and "p \<in> set (snapshot (posTracker s))"
    and "\<not> f64_finite (net_qty p) \<or> \<not> f64_finite (unrealisedPnL p (cur_price s)) \<or> \<not> f64_finite (realised_pnl p)"
  shows "json_value (tick_line ts s) = None"
proof -
  have ok: "book_ok (book s)" "f64_wf (cur_price s)" using assms(1) f64_pos_wf by (auto simp: sim_ok_def price_ok_def)
  have "f64_wf f64_zero" by (simp add: f64_zero_def)
  then have best: "f64_wf (bestBid (book s))" "f64_wf (bestAsk (book s))" "f64_wf (spread (book s))"
    using ok(1) f64_pos_wf
    by (auto simp: bestBid_def bestAsk_def spread_def f64_sub_def f64_add_wf book_ok_def level_ok_def split: list.split)
  have pw: "f64_wf (net_qty q) \<and> f64_wf (realised_pnl q) \<and> f64_wf (avg_cost q) \<and> whole_id (pos_trader_id q)"
    if "q \<in> set (snapshot (posTracker s))" for q
    using assms(2,4) that by (auto simp: positions_wf_def snapshot_def list_all_iff)
  let ?ps = "map (position_text (cur_price s)) (snapshot (posTracker s))"
  have "list_all (settled 1) ?ps" using pw settled_position ok(2) by (auto simp: list_all_iff)
  moreover have "bad_value 1 (position_text (cur_price s) p)" using bad_position pw [OF assms(5)] ok(2) assms(6) by blast
  ultimately have bad: "bad_value 2 (json_array ?ps)" using bad_array [of 1 ?ps] assms(5) by (auto simp: numeral_2_eq_2)
  let ?ms = "[(''type'', raw_string ''tick''), (''tick'', nat_digits (unat (tick_no s))), (''ts'', itoa ts), (''price'', fmt_g (cur_price s)),
    (''bid'', fmt_g (bestBid (book s))), (''ask'', fmt_g (bestAsk (book s))), (''spread'', fmt_g (spread (book s))),
    (''bid_depth'', json_array (map level_text (bidLevels 5 (book s)))), (''ask_depth'', json_array (map level_text (askLevels 5 (book s)))),
    (''positions'', json_array ?ps)]"
  have "settled 2 (raw_string ''tick'')" by (rule settled_encodes [OF encodes_bare [OF bare_words(3)]])
  moreover have "settled 2 (nat_digits (unat (tick_no s)))" "settled 2 (itoa ts)"
    using settled_encodes [OF encodes_nat] settled_encodes [OF encodes_itoa] by blast+
  moreover have "settled 2 (json_array (map level_text (bidLevels 5 (book s))))" "settled 2 (json_array (map level_text (askLevels 5 (book s))))"
    using ok(1) settled_depth by (auto simp: bidLevels_def askLevels_def book_ok_def)
  moreover have "settled 2 (json_array ?ps)" using bad by (simp add: settled_def)
  ultimately have "list_all (\<lambda>(k, t). plain_key k \<and> settled 2 t) ?ms"
    using best ok(2) by (simp add: plain_key_def settled_number)
  from bad_object [OF this _ bad, of "''positions''"] have "bad_value 3 (json_object ?ms)" by (simp add: numeral_3_eq_3 numeral_2_eq_2)
  moreover have "tick_line ts s = json_object ?ms" using assms(3) by (simp add: tick_line_def)
  ultimately show ?thesis using bad_valueD [of 3 "tick_line ts s" WantValue "[]" "[]"] by (simp add: json_value_def maxNestingDepth_def)
qed

end
