(* ===== verification/Engine_Resting.thy ===== *)
theory Engine_Resting
  imports Engine_Sim
begin

text \<open>
  What becomes of a limit order that nobody takes.  Two runs of one tick are compared, one with the order and one
  without it: their ladders differ in one level, and as long as no trade happens at that level no other order can tell
  the runs apart.  The next tick clears the book, and the difference is gone.
\<close>

section \<open>One order, field by field\<close>

text \<open>Prices and quantities of trades; the ids of the aggressors are never read.\<close>

definition paid :: "Trade list \<Rightarrow> (float64 \<times> float64) list" where
  "paid ts = map (\<lambda>t. (t_price t, t_quantity t)) ts"

lemma paid_simps [simp]: "paid [] = []" "paid (t # ts) = (t_price t, t_quantity t) # paid ts" "paid ts = [] \<longleftrightarrow> ts = []"
  by (simp_all add: paid_def)

text \<open>The trades an order leads to, and the book after it.\<close>

definition order_trades :: "IncomingOrder \<Rightarrow> OrderBook \<Rightarrow> Trade list" where
  "order_trades ord b =
     (if f64_le0 (io_qty ord) \<or> io_type ord = LIMIT then [] else fst (addMarketOrder (io_side ord) (io_qty ord) b))"

definition book_after :: "IncomingOrder \<Rightarrow> OrderBook \<Rightarrow> OrderBook" where
  "book_after ord b =
     (if f64_le0 (io_qty ord) then b
      else case io_type ord of
        LIMIT \<Rightarrow> if f64_le0 (io_price ord) then b else snd (addLimitOrder (io_side ord) (io_price ord) (io_qty ord) b)
      | MARKET \<Rightarrow> snd (addMarketOrder (io_side ord) (io_qty ord) b))"

lemma process_order_fields:
  "book (process_order clock ord s) = book_after ord (book s)"
  "posTracker (process_order clock ord s) =
     foldl (\<lambda>m (p, q). recordFill (io_trader_id ord) (io_side ord) p q m) (posTracker s) (paid (order_trades ord (book s)))"
  "cur_price (process_order clock ord s) = cur_price s" "agents (process_order clock ord s) = agents s"
  "tick_no (process_order clock ord s) = tick_no s"
proof -
  obtain ts b where m: "addMarketOrder (io_side ord) (io_qty ord) (book s) = (ts, b)" by force
  have f: "foldl (\<lambda>m (p, q). recordFill k side p q m) x (paid us) = foldl (\<lambda>m t. recordFill k side (t_price t) (t_quantity t) m) x us" for k side x us
    by (induction us arbitrary: x) simp_all
  note defs = process_order_def book_after_def order_trades_def emitReject_def write_line_def Let_def m f
    record_trades_fields record_trades_tracker
  show "book (process_order clock ord s) = book_after ord (book s)"
    "posTracker (process_order clock ord s) =
       foldl (\<lambda>m (p, q). recordFill (io_trader_id ord) (io_side ord) p q m) (posTracker s) (paid (order_trades ord (book s)))"
    "cur_price (process_order clock ord s) = cur_price s" "agents (process_order clock ord s) = agents s"
    "tick_no (process_order clock ord s) = tick_no s"
    by (cases "io_type ord"; simp add: defs)+
qed

lemma answers_paid:
  assumes "paid (order_trades ord b) = paid (order_trades ord b')"
  shows "answers clock ord b = answers clock ord b'"
proof -
  have e: "map (\<lambda>(i, t). f i (t_price t) (t_quantity t)) (enumerate n ts) = map (\<lambda>(i, p, q). f i p q) (enumerate n (paid ts))"
    for f :: "nat \<Rightarrow> float64 \<Rightarrow> float64 \<Rightarrow> bytes" and n ts
    by (induction ts arbitrary: n) simp_all
  show ?thesis
    using assms e [of "\<lambda>i. fill_line (clock i) (io_trader_id ord) (io_order_id ord) (io_side ord)" 0]
    by (cases "io_type ord") (auto simp: answers_def order_trades_def Let_def split: if_splits simp flip: paid_simps(3))
qed

section \<open>Ladders that differ in one level\<close>

definition differ_at :: "float64 \<Rightarrow> ladder \<Rightarrow> ladder \<Rightarrow> bool" where
  "differ_at p l l' \<longleftrightarrow> (\<exists>a v b c. l = a @ (p, v) # b \<and> l' = a @ c \<and> (c = b \<or> (\<exists>v'. c = (p, v') # b)))"

lemma differ_atI: "c = b \<or> c = (p, v') # b \<Longrightarrow> differ_at p (a @ (p, v) # b) (a @ c)"
  unfolding differ_at_def by blast

lemma differ_at_Cons: "differ_at p l l' \<Longrightarrow> differ_at p (e # l) (e # l')"
  unfolding differ_at_def by (metis append_Cons)

lemma fill_levels: "paid (fst (fill a r l)) = paid (fst (fill a' r l)) \<and> snd (fill a r l) = snd (fill a' r l)"
proof (induction l arbitrary: r)
  case (Cons e l)
  obtain p v where e: "e = (p, v)" by (cases e)
  show ?case using Cons.IH [of "f64_sub r (f64_min r v)"] by (auto simp: e Let_def split: prod.splits)
qed simp

text \<open>A market order that does not trade at a level does not depend on it, nor on anything behind it.\<close>

lemma fill_before:
  assumes "fin_pos r" "list_all level_ok (a @ (p, v) # b)" "fill aid r (a @ (p, v) # b) = (ts, m)" "list_all (\<lambda>t. t_price t \<noteq> p) ts"
  shows "\<exists>a'. m = a' @ (p, v) # b \<and> (\<forall>c. fill aid r (a @ c) = (ts, a' @ c))"
  using assms
proof (induction a arbitrary: r ts m)
  case Nil
  have "fin_pos r" "f64_pos v" using Nil.prems by simp_all
  then show ?case
    using Nil.prems fill_whole [of r v] fill_exact [of r] fill_part [of r v] by (cases rule: f64_pos_cases) (auto split: prod.splits)
next
  case (Cons e a)
  obtain k u where e: "e = (k, u)" by (cases e)
  have pos: "fin_pos r" "f64_pos u" and l: "list_all level_ok (a @ (p, v) # b)" using Cons.prems by (simp_all add: e)
  then show ?case
  proof (cases rule: f64_pos_cases)
    case whole
    obtain ts' where f: "fill aid (f64_sub r u) (a @ (p, v) # b) = (ts', m)"
      "ts = \<lparr>aggressor_id = aid, passive_id = 0, t_price = k, t_quantity = u\<rparr> # ts'"
      using Cons.prems(3) fill_whole [OF pos whole(1)] by (auto simp: e split: prod.splits)
    then show ?thesis
      using Cons.IH [OF whole(3) l f(1)] Cons.prems(4) fill_whole [OF pos whole(1)] by (auto simp: e simp del: fill.simps)
  next
    case exact
    then show ?thesis using Cons.prems fill_exact [OF pos(1)] by (auto simp: e simp del: fill.simps)
  next
    case part
    then show ?thesis using Cons.prems fill_part [OF pos part(1)] by (auto simp: e simp del: fill.simps)
  qed
qed

lemma differ_fill:
  assumes "differ_at p l l'" "fin_pos r" "list_all level_ok l" "list_all (\<lambda>t. t_price t \<noteq> p) (fst (fill aid r l))"
  shows "differ_at p (snd (fill aid r l)) (snd (fill aid' r l')) \<and> paid (fst (fill aid r l)) = paid (fst (fill aid' r l'))"
proof -
  obtain a v b c where l: "l = a @ (p, v) # b" "l' = a @ c" "c = b \<or> (\<exists>v'. c = (p, v') # b)" using assms(1) unfolding differ_at_def by blast
  obtain ts m where f: "fill aid r l = (ts, m)" by force
  obtain a' where a': "m = a' @ (p, v) # b" "\<And>c. fill aid r (a @ c) = (ts, a' @ c)"
    using fill_before [of r a p v b aid ts m] assms(2-4) f by (auto simp: l(1))
  then have "fill aid r l' = (ts, a' @ c)" by (simp add: l(2))
  moreover have "differ_at p m (a' @ c)" using l(3) differ_atI unfolding a'(1) by blast
  ultimately show ?thesis using f fill_levels [of aid r l' aid'] by simp
qed

context price_order
begin

lemma add_before: "\<forall>x \<in> set c. before r (fst x) \<and> f64_pos (fst x) \<Longrightarrow> f64_pos r \<Longrightarrow> level_add before r q (a @ c) = level_add before r q a @ c"
proof (induction a)
  case Nil
  then show ?case using before_asym by (cases c) auto
qed auto

lemma add_behind: "\<forall>x \<in> set a. before (fst x) r \<Longrightarrow> level_add before r q (a @ c) = a @ level_add before r q c"
  by (induction a) auto

lemma differ_add_same:
  "ladder_ok before l \<Longrightarrow> f64_pos p \<Longrightarrow> differ_at p (level_add before p q l) l"
proof (induction l)
  case Nil
  show ?case using differ_atI [of "[]" "[]" p _ "[]"] by simp
next
  case (Cons e l)
  obtain k v where e: "e = (k, v)" by (cases e)
  have k: "f64_pos k" using Cons.prems by (simp add: e)
  consider "before k p" | "\<not> before k p" "before p k" | "k = p" using before_total [OF k Cons.prems(2)] by blast
  then show ?case
  proof cases
    case 1
    then show ?thesis using Cons by (simp add: e differ_at_Cons)
  next
    case 2
    then show ?thesis using differ_atI [of "(k, v) # l" "(k, v) # l" p _ "[]"] by (simp add: e)
  next
    case 3
    then show ?thesis using differ_atI [of "(p, v) # l" l p v "[]"] before_irrefl k by (simp add: e)
  qed
qed

lemma differ_add:
  assumes "differ_at p l l'" "ladder_ok before l" "f64_pos r"
  shows "differ_at p (level_add before r q l) (level_add before r q l')"
proof -
  obtain a v b c where l: "l = a @ (p, v) # b" "l' = a @ c" "c = b \<or> (\<exists>v'. c = (p, v') # b)" using assms(1) unfolding differ_at_def by blast
  have ok: "f64_pos p" "\<forall>x \<in> set a. before (fst x) p" "\<forall>x \<in> set b. before p (fst x) \<and> f64_pos (fst x)"
    using assms(2) by (auto simp: l(1) ladder_ok_def sorted_wrt_append list_all_iff level_ok_def)
  consider "before r p" | "r = p" | "before p r" "\<not> before r p" using before_total [OF assms(3) ok(1)] by blast
  then show ?thesis
  proof cases
    case 1
    then have after: "\<forall>x \<in> set ((p, v) # b). before r (fst x) \<and> f64_pos (fst x)" using ok before_trans by auto
    then have "\<forall>x \<in> set c. before r (fst x) \<and> f64_pos (fst x)" using l(3) by auto
    then show ?thesis
      using add_before [OF after assms(3)] add_before [of c r] assms(3) l(3) differ_atI [of c b p _ "level_add before r q a" v] by (auto simp: l(1,2))
  next
    case 2
    have "level_add before p q ((p, v) # b) = (p, f64_add v q) # b" for v using before_irrefl ok(1) by simp
    moreover have "level_add before p q b = (p, f64_add f64_zero q) # b" using add_before [of b p q "[]"] ok by simp
    ultimately show ?thesis
      using add_behind [OF ok(2)] l(3) differ_atI [of "(p, _) # b" b p _ a] by (auto simp: l(1,2) 2)
  next
    case 3
    have behind: "\<forall>x \<in> set a. before (fst x) r" "\<forall>x \<in> set (a @ [(p, v)]). before (fst x) r" for v using ok(2) 3 before_trans by auto
    have "level_add before r q (a @ (p, v) # b) = a @ (p, v) # level_add before r q b" for v
      using add_behind [OF behind(2), of q v b] by simp
    then show ?thesis
      using add_behind [OF behind(1), of q b] l(3) differ_atI [of _ "level_add before r q b" p _ a v] by (auto simp: l(1,2))
  qed
qed

end

section \<open>Two runs of one tick\<close>

text \<open>The run with an order of the given side and price, and the run without it.\<close>

definition apart :: "Side \<Rightarrow> float64 \<Rightarrow> Simulation \<Rightarrow> Simulation \<Rightarrow> bool" where
  "apart side p s s' \<longleftrightarrow>
     taken_side side (book s) = taken_side side (book s') \<and> differ_at p (other_side side (book s)) (other_side side (book s')) \<and>
     posTracker s = posTracker s' \<and> cur_price s = cur_price s' \<and> agents s = agents s' \<and> tick_no s = tick_no s' \<and> emitted s = emitted s'"

lemma limit_order_sides:
  "taken_side side (snd (addLimitOrder side' p q b)) =
     (if side' = side then taken_side side b else level_add (better side) p q (taken_side side b))"
  "other_side side (snd (addLimitOrder side' p q b)) =
     (if side' = side then level_add (better (case side of BUY \<Rightarrow> SELL | SELL \<Rightarrow> BUY)) p q (other_side side b) else other_side side b)"
  by (cases side; cases side'; simp add: addLimitOrder_def Let_def taken_side_def other_side_def better_def)+

lemma market_order_taken:
  "taken_side side (snd (addMarketOrder side' q b)) = (if side' = side then snd (fill (nextId b) q (taken_side side b)) else taken_side side b)"
  "other_side side (snd (addMarketOrder side' q b)) = (if side' = side then other_side side b else snd (fill (nextId b) q (other_side side b)))"
  "fst (addMarketOrder side' q b) = fst (fill (nextId b) q (taken_side side' b))"
  by (cases side; cases side'; simp add: addMarketOrder_def Let_def taken_side_def other_side_def split: prod.splits)+

lemma sides_flip: "side' \<noteq> side \<Longrightarrow> taken_side side' b = other_side side b"
  by (cases side; cases side') (simp_all add: taken_side_def other_side_def)

text \<open>No order notices the difference unless it trades there.\<close>

lemma apart_book:
  assumes "taken_side side b = taken_side side b'" "differ_at p (other_side side b) (other_side side b')" "book_ok b" "sane_order ord"
    and "io_side ord \<noteq> side \<longrightarrow> list_all (\<lambda>t. t_price t \<noteq> p) (order_trades ord b)"
  shows "taken_side side (book_after ord b) = taken_side side (book_after ord b') \<and>
    differ_at p (other_side side (book_after ord b)) (other_side side (book_after ord b')) \<and>
    paid (order_trades ord b) = paid (order_trades ord b')"
proof -
  have ok: "ladder_ok (better (case side of BUY \<Rightarrow> SELL | SELL \<Rightarrow> BUY)) (other_side side b)"
    using assms(3) by (cases side) (simp_all add: book_ok_def better_def other_side_def)
  then have lv: "list_all level_ok (other_side side b)" by (simp add: ladder_ok_def)
  have pos: "\<not> f64_le0 (io_qty ord) \<Longrightarrow> fin_pos (io_qty ord)" "\<not> f64_le0 (io_price ord) \<Longrightarrow> f64_pos (io_price ord)"
    using assms(4) finite_positive by (auto simp: sane_order_def)
  note lo = price_order.differ_add [OF better_order assms(2) ok, of "io_price ord" "io_qty ord"]
  note mo = differ_fill [OF assms(2) _ lv, of "io_qty ord" "nextId b" "nextId b'"]
  have same: "paid (fst (fill (nextId b) (io_qty ord) (taken_side side b'))) = paid (fst (fill (nextId b') (io_qty ord) (taken_side side b')))"
    "snd (fill (nextId b) (io_qty ord) (taken_side side b')) = snd (fill (nextId b') (io_qty ord) (taken_side side b'))"
    using fill_levels [of "nextId b" "io_qty ord" "taken_side side b'" "nextId b'"] by auto
  consider "f64_le0 (io_qty ord)" | "\<not> f64_le0 (io_qty ord)" "io_type ord = LIMIT"
    | "\<not> f64_le0 (io_qty ord)" "io_type ord = MARKET" "io_side ord = side"
    | "\<not> f64_le0 (io_qty ord)" "io_type ord = MARKET" "io_side ord \<noteq> side"
    by (cases "io_type ord") auto
  then show ?thesis
  proof cases
    case 1
    then show ?thesis using assms(1,2) by (simp add: book_after_def order_trades_def)
  next
    case 2
    then show ?thesis using assms(1,2) pos(2) lo by (simp add: book_after_def order_trades_def limit_order_sides)
  next
    case 3
    then show ?thesis using assms(1,2) same by (simp add: book_after_def order_trades_def market_order_taken)
  next
    case 4
    then have "list_all (\<lambda>t. t_price t \<noteq> p) (fst (fill (nextId b) (io_qty ord) (other_side side b)))"
      using assms(5) by (simp add: order_trades_def market_order_taken(3) sides_flip)
    then show ?thesis using 4 assms(1) mo [OF pos(1)] by (simp add: book_after_def order_trades_def market_order_taken sides_flip)
  qed
qed

lemma apart_step:
  assumes "apart side p s s'" "sim_ok s" "sane_order ord"
    and "io_side ord \<noteq> side \<longrightarrow> list_all (\<lambda>t. t_price t \<noteq> p) (order_trades ord (book s))"
  shows "apart side p (process_order clock ord s) (process_order clock ord s')"
proof -
  have a: "taken_side side (book s) = taken_side side (book s')" "differ_at p (other_side side (book s)) (other_side side (book s'))"
    "book_ok (book s)" using assms(1,2) by (simp_all add: apart_def sim_ok_def)
  note b = apart_book [OF a assms(3,4)]
  then have "answers clock ord (book s) = answers clock ord (book s')" by (blast intro: answers_paid)
  with b assms(1) show ?thesis by (simp add: apart_def process_order_fields process_order_emitted)
qed

text \<open>Orders handled one after the other, each with its clock.\<close>

definition handle :: "((nat \<Rightarrow> int) \<times> IncomingOrder) list \<Rightarrow> Simulation \<Rightarrow> Simulation" where
  "handle os s = foldl (\<lambda>x (clock, ord). process_order clock ord x) s os"

lemma handle_simps [simp]:
  "handle [] s = s" "handle ((clock, ord) # os) s = handle os (process_order clock ord s)" "handle (os @ os') s = handle os' (handle os s)"
  by (simp_all add: handle_def)

text \<open>No later order of the tick trades at the level of the given order.\<close>

fun untaken :: "IncomingOrder \<Rightarrow> ((nat \<Rightarrow> int) \<times> IncomingOrder) list \<Rightarrow> Simulation \<Rightarrow> bool" where
  "untaken ord [] s = True"
| "untaken ord ((clock, later) # os) s =
     ((io_side later \<noteq> io_side ord \<longrightarrow> list_all (\<lambda>t. t_price t \<noteq> io_price ord) (order_trades later (book s))) \<and>
      untaken ord os (process_order clock later s))"

lemma handle_ok: "sim_ok s \<Longrightarrow> list_all (\<lambda>(clock, ord). sane_order ord) os \<Longrightarrow> sim_ok (handle os s)"
  by (induction os arbitrary: s) (auto simp: process_order_ok)

lemma apart_handle:
  "apart (io_side ord) (io_price ord) s s' \<Longrightarrow> sim_ok s \<Longrightarrow> list_all (\<lambda>(clock, ord). sane_order ord) os \<Longrightarrow> untaken ord os s \<Longrightarrow>
   apart (io_side ord) (io_price ord) (handle os s) (handle os s')"
proof (induction os arbitrary: s s')
  case (Cons x os)
  obtain clock later where x: "x = (clock, later)" by force
  have "apart (io_side ord) (io_price ord) (process_order clock later s) (process_order clock later s')"
    by (rule apart_step) (use Cons.prems in \<open>simp_all add: x\<close>)
  then show ?case using Cons.IH Cons.prems by (simp add: x process_order_ok)
qed simp

lemma apart_limit:
  assumes "io_type ord = LIMIT" "fin_pos (io_qty ord)" "fin_pos (io_price ord)" "sim_ok s"
  shows "apart (io_side ord) (io_price ord) (process_order clock ord s) s"
proof -
  have pos: "\<not> f64_le0 (io_qty ord)" "\<not> f64_le0 (io_price ord)" using assms(2,3) by (auto elim!: fin_posE)
  have "ladder_ok (better (case io_side ord of BUY \<Rightarrow> SELL | SELL \<Rightarrow> BUY)) (other_side (io_side ord) (book s))"
    using assms(4) by (cases "io_side ord") (simp_all add: sim_ok_def book_ok_def better_def other_side_def)
  from price_order.differ_add_same [OF better_order this, of "io_price ord" "io_qty ord"] show ?thesis
    using pos assms(1,3)
    by (simp add: apart_def process_order_fields process_order_emitted book_after_def order_trades_def answers_def limit_order_sides)
qed

section \<open>The next tick\<close>

text \<open>Two simulations that differ at most in the counter of order ids and in what has been written.\<close>

definition same_levels :: "OrderBook \<Rightarrow> OrderBook \<Rightarrow> bool" where
  "same_levels b b' \<longleftrightarrow> bids b = bids b' \<and> asks b = asks b'"

definition same_market :: "Simulation \<Rightarrow> Simulation \<Rightarrow> bool" where
  "same_market s s' \<longleftrightarrow> same_levels (book s) (book s') \<and> cur_price s = cur_price s' \<and> agents s = agents s' \<and> tick_no s = tick_no s' \<and>
     posTracker s = posTracker s'"

lemma same_levels_ops:
  assumes "same_levels b b'"
  shows "same_levels (snd (addLimitOrder side p q b)) (snd (addLimitOrder side p q b'))"
    "same_levels (snd (addMarketOrder side q b)) (snd (addMarketOrder side q b'))"
    "same_levels (maker_act off q mid b) (maker_act off q mid b')"
proof -
  show l: "same_levels (snd (addLimitOrder side p q b)) (snd (addLimitOrder side p q b'))" for side p q
    using assms by (cases side) (simp_all add: same_levels_def addLimitOrder_def Let_def)
  show "same_levels (snd (addMarketOrder side q b)) (snd (addMarketOrder side q b'))"
    using assms fill_levels [of "nextId b" q "asks b'" "nextId b'"] fill_levels [of "nextId b" q "bids b'" "nextId b'"]
    by (cases side) (auto simp: same_levels_def addMarketOrder_def Let_def split: prod.splits)
  have best: "bestBid b = bestBid b'" "bestAsk b = bestAsk b'" "spread b = spread b'"
    using assms by (simp_all add: same_levels_def bestBid_def bestAsk_def spread_def)
  show "same_levels (maker_act off q mid b) (maker_act off q mid b')"
    using assms by (simp add: maker_act_def best Let_def) (auto simp: same_levels_def addLimitOrder_def Let_def)
qed

lemma same_levels_act:
  "same_levels b b' \<Longrightarrow> fst (act d mid tick t b) = fst (act d mid tick t b') \<and> same_levels (snd (act d mid tick t b)) (snd (act d mid tick t b'))"
  using same_levels_ops [of b b'] by (cases t) (auto simp: taker_act_def whale_act_def Let_def)

lemma same_market_agents: "same_market s s' \<Longrightarrow> same_market (agents_act ds is s) (agents_act ds is s')"
proof (induction "is" arbitrary: s s')
  case (Cons i "is")
  note a = same_levels_act [of "book s" "book s'" "ds i" "cur_price s" "tick_no s" "agents s ! i"]
  show ?case using Cons a by (auto simp: same_market_def split: prod.splits)
qed simp

lemma same_market_tick: "posTracker s = posTracker s' \<Longrightarrow> cur_price s = cur_price s' \<Longrightarrow> agents s = agents s' \<Longrightarrow> tick_no s = tick_no s' \<Longrightarrow>
    same_market (begin_tick rnd s) (begin_tick rnd s')"
  unfolding begin_tick_def by (rule same_market_agents) (simp add: same_market_def same_levels_def clear_book_def)

text \<open>Property C27. A limit order that nobody takes leaves no trace.  Take any well-formed state of the engine inside a tick, orders with
  finite numbers handled before and after a valid limit order, and let none of the later orders of the tick trade at its
  price on its side: then all lines written for the other orders are the same as if it had never
  been sent, and the next tick starts from the same book, price, agents and positions.  (Nothing says so to its owner.)\<close>

theorem limit_orders_forgotten:
  assumes "sim_ok s" "list_all (\<lambda>(clock, ord). sane_order ord) (before @ after)"
    and "io_type ord = LIMIT" "fin_pos (io_qty ord)" "fin_pos (io_price ord)"
    and "untaken ord after (handle (before @ [(clock, ord)]) s)"
  shows "emitted (handle (before @ (clock, ord) # after) s) = emitted (handle (before @ after) s) \<and>
    same_market (begin_tick rnd (end_tick ts (handle (before @ (clock, ord) # after) s)))
      (begin_tick rnd (end_tick ts (handle (before @ after) s)))"
proof -
  have ok: "sim_ok (handle before s)" using assms(1,2) by (simp add: handle_ok)
  have "sane_order ord" using assms(4,5) by (simp add: sane_order_def fin_pos_def)
  with ok have "sim_ok (process_order clock ord (handle before s))" by (rule process_order_ok)
  from apart_handle [OF apart_limit [OF assms(3-5) ok] this]
  have "apart (io_side ord) (io_price ord) (handle (before @ (clock, ord) # after) s) (handle (before @ after) s)"
    using assms(2,6) by simp
  then show ?thesis by (auto simp: apart_def end_tick_def emitTick_def write_line_def Let_def intro!: same_market_tick)
qed

text \<open>Two bids rest, at 12 and at 11; a market order to sell takes the better one, and the other is forgotten.\<close>

definition rest_order :: "nat \<Rightarrow> IncomingOrder" where
  "rest_order p = \<lparr>io_trader_id = ''a'', io_order_id = ''r'', io_side = BUY, io_type = LIMIT, io_price = dbl p, io_qty = dbl 2\<rparr>"

definition take_order :: IncomingOrder where
  "take_order = \<lparr>io_trader_id = ''b'', io_order_id = ''t'', io_side = SELL, io_type = MARKET, io_price = f64_zero, io_qty = dbl 2\<rparr>"

theorem limit_orders_forgotten_witness:
  "let sent = handle [(\<lambda>_. 7, rest_order 12), (\<lambda>_. 7, rest_order 11), (\<lambda>_. 7, take_order)] sample_sim;
       unsent = handle [(\<lambda>_. 7, rest_order 12), (\<lambda>_. 7, take_order)] sample_sim
   in bids (book sent) = [(dbl 11, dbl 2)] \<and> bids (book unsent) = [] \<and> emitted sent = emitted unsent \<and> length (emitted sent) = 1 \<and>
     same_market (begin_tick sample_rnd (end_tick 8 sent)) (begin_tick sample_rnd (end_tick 8 unsent))"
proof -
  let ?b = "(\<lambda>_. 7 :: int, rest_order 12)" and ?a = "(\<lambda>_. 7 :: int, take_order)"
  have pos: "\<not> f64_le0 (dbl 2)" "\<not> f64_le0 (dbl 11)" "\<not> f64_le0 (dbl 12)" by (simp_all add: dbl_def)
  have ro: "io_side (rest_order 11) = BUY" "io_price (rest_order 11) = dbl 11" and ne: "dbl 12 \<noteq> dbl 11"
    by (simp_all add: rest_order_def dbl_def)
  have b0: "book sample_sim = empty_book" by (simp add: sample_sim_def new_simulation_def)
  have b1: "book (handle [?b] sample_sim) = \<lparr>bids = [(dbl 12, dbl 2)], asks = [], nextId = 2\<rparr>"
    using pos by (simp add: process_order_fields book_after_def b0 rest_order_def addLimitOrder_def empty_book_def f64_zero_add)
  have b2: "book (handle [?b, (\<lambda>_. 7, rest_order 11)] sample_sim) = \<lparr>bids = [(dbl 12, dbl 2), (dbl 11, dbl 2)], asks = [], nextId = 3\<rparr>"
    using pos b1 by (simp add: process_order_fields book_after_def rest_order_def addLimitOrder_def f64_zero_add bid_before_def)
  have f: "fill n (dbl 2) ((dbl 12, dbl 2) # l) = ([\<lparr>aggressor_id = n, passive_id = 0, t_price = dbl 12, t_quantity = dbl 2\<rparr>], l)" for n l
    by (rule fill_exact) simp
  have m: "addMarketOrder SELL (dbl 2) \<lparr>bids = (dbl 12, dbl 2) # l, asks = [], nextId = n\<rparr> =
      ([\<lparr>aggressor_id = n, passive_id = 0, t_price = dbl 12, t_quantity = dbl 2\<rparr>], \<lparr>bids = l, asks = [], nextId = n + 1\<rparr>)" for n l
    by (simp add: addMarketOrder_def f del: fill.simps)
  have u: "untaken (rest_order 11) [?a] (handle ([?b] @ [(\<lambda>_. 7, rest_order 11)]) sample_sim)"
    using pos b2 ne by (simp add: order_trades_def take_order_def m ro)
  have s: "list_all (\<lambda>(clock, ord). sane_order ord) ([?b] @ [?a])"
    using dbl_mag [of 2] dbl_mag [of 12] by (simp add: sane_order_def rest_order_def take_order_def dbl_def zero_finite)
  have r: "io_type (rest_order 11) = LIMIT" "fin_pos (io_qty (rest_order 11))" "fin_pos (io_price (rest_order 11))"
    by (simp_all add: rest_order_def)
  have t: "book_after take_order \<lparr>bids = (dbl 12, dbl 2) # l, asks = [], nextId = n\<rparr> = \<lparr>bids = l, asks = [], nextId = n + 1\<rparr>" for n l
    using pos by (simp add: book_after_def take_order_def m)
  have e: "emitted (handle [?b, ?a] sample_sim) = [fill_line 7 ''b'' ''t'' SELL (dbl 12) (dbl 2) @ [newline]]"
    using pos b1 by (simp add: process_order_emitted answers_def take_order_def m) (simp add: rest_order_def sample_sim_def new_simulation_def)
  from limit_orders_forgotten [OF sample_sane(4) s r u, of sample_rnd 8] show ?thesis
    using b1 b2 e by (simp add: Let_def process_order_fields(1) t)
qed

end
