(* ===== verification/Closed_Poison.thy ===== *)
theory Closed_Poison
  imports Closed_Ticks Engine_Resting
begin

text \<open>
  Positions that have stopped being numbers.  Once the average cost, the net quantity or the realised profit of a
  trader has overflowed, no later fill makes the position finite again, and the engine never removes a position; so
  every tick line that lists the positions is refused by the server from then on.
\<close>

section \<open>Infinities and NaNs stay\<close>

fun special :: "float64 \<Rightarrow> bool" where
  "special (F64 s q) = False"
| "special _ = True"

lemma special_finite: "f64_wf x \<Longrightarrow> special x \<longleftrightarrow> \<not> f64_finite x"
  by (cases x) auto

lemma special_ops:
  "special x \<or> special y \<Longrightarrow> special (f64_add x y)"
  "special x \<or> special y \<Longrightarrow> special (f64_sub x y)"
  "special x \<or> special y \<Longrightarrow> special (f64_mul x y)"
  "special x \<Longrightarrow> special (f64_div x y)"
  by (cases x; cases y; simp add: f64_sub_def)+

text \<open>A position with a number that is not finite, or with an average cost that is not finite while it is open.\<close>

definition poisoned :: "Position \<Rightarrow> bool" where
  "poisoned p \<longleftrightarrow> special (realised_pnl p) \<or> special (net_qty p) \<or> special (avg_cost p) \<and> f64_val (net_qty p) \<noteq> 0"

lemma f64_pos_special: "f64_pos x \<Longrightarrow> special x \<or> f64_val x \<noteq> 0"
  by (cases x) auto

lemma neg_sub_special: "fin_pos x \<Longrightarrow> fin_pos y \<Longrightarrow> special (f64_sub (f64_neg x) y) \<or> f64_val (f64_sub (f64_neg x) y) \<noteq> 0"
proof -
  assume "fin_pos x" "fin_pos y"
  then obtain a b where x: "x = F64 False a" "0 < a" "f64_mag a" and y: "y = F64 False b" "0 < b" "f64_mag b" by (metis fin_posE)
  have "f64_pos (f64_add x y)" using x y by (intro f64_add_pos) simp_all
  then have "f64_pos (to_f64 False (a + b))" using x(2) y(2) by (simp add: x(1) y(1) f64_signed_def)
  moreover have "f64_sub (f64_neg x) y = to_f64 True (a + b)"
    using x(2) y(2) by (simp add: x(1) y(1) f64_sub_def f64_signed_def add.commute)
  ultimately show ?thesis by (auto simp: to_f64_def Let_def split: if_splits)
qed

lemma poisoned_fill:
  assumes "poisoned p" "f64_wf (net_qty p)" "fin_pos qty"
  shows "poisoned (buy_fill price qty p)" "poisoned (sell_fill price qty p)"
proof -
  obtain q where q: "qty = F64 False q" "0 < q" "f64_mag q" using assms(3) by (rule fin_posE)
  consider (realised) "special (realised_pnl p)" | (net) "special (net_qty p)"
    | (long) n where "net_qty p = F64 False n" "0 < n" "f64_mag n" "special (avg_cost p)"
    | (short) n where "net_qty p = F64 True n" "0 < n" "f64_mag n" "special (avg_cost p)"
  proof (cases "special (realised_pnl p) \<or> special (net_qty p)")
    case False
    then obtain s n where n: "net_qty p = F64 s n" by (cases "net_qty p") auto
    then have m: "f64_mag n" and a: "special (avg_cost p)" and "n \<noteq> 0" using assms(1,2) False by (auto simp: poisoned_def split: if_splits)
    then have "0 < n" by (auto simp: f64_mag_def)
    with n m a show ?thesis using that(3) [of n] that(4) [of n] by (cases s) simp_all
  qed blast
  then have "poisoned (buy_fill price qty p) \<and> poisoned (sell_fill price qty p)"
  proof cases
    case realised
    then show ?thesis by (auto simp: poisoned_def buy_fill_def sell_fill_def Let_def special_ops)
  next
    case net
    then show ?thesis
      by (cases "net_qty p") (auto simp: poisoned_def buy_fill_def sell_fill_def Let_def special_ops f64_le_def f64_zero_def q(1))
  next
    case long
    have "fin_pos (net_qty p)" using long by (simp add: fin_pos_def)
    then have "special (f64_add (net_qty p) qty) \<or> f64_val (f64_add (net_qty p) qty) \<noteq> 0"
      using assms(3) by (intro f64_pos_special f64_add_pos) simp_all
    moreover have "f64_le f64_zero (net_qty p)" "\<not> f64_le (net_qty p) f64_zero"
      using long(2) by (simp_all add: long(1) f64_le_def f64_zero_def)
    ultimately show ?thesis using long(4) by (auto simp: poisoned_def buy_fill_def sell_fill_def Let_def special_ops)
  next
    case short
    have n: "net_qty p = f64_neg (F64 False n)" "fin_pos (F64 False n)" using short by (simp_all add: fin_pos_def)
    have "special (f64_sub (net_qty p) qty) \<or> f64_val (f64_sub (net_qty p) qty) \<noteq> 0"
      unfolding n(1) by (rule neg_sub_special [OF n(2) assms(3)])
    moreover have "f64_le (net_qty p) f64_zero" "\<not> f64_le f64_zero (net_qty p)"
      using short(2) by (simp_all add: short(1) f64_le_def f64_zero_def)
    ultimately show ?thesis using short(4) by (auto simp: poisoned_def buy_fill_def sell_fill_def Let_def special_ops)
  qed
  then show "poisoned (buy_fill price qty p)" "poisoned (sell_fill price qty p)" by simp_all
qed

text \<open>What such a position prints.\<close>

lemma poisoned_unprintable:
  assumes "poisoned p" "f64_wf (net_qty p)" "f64_wf (realised_pnl p)"
  shows "\<not> f64_finite (net_qty p) \<or> \<not> f64_finite (unrealisedPnL p x) \<or> \<not> f64_finite (realised_pnl p)"
proof -
  have "special (unrealisedPnL p x)" if "special (avg_cost p)" using that by (simp add: unrealisedPnL_def special_ops)
  moreover have "\<not> f64_finite y" if "special y" for y using that by (cases y) auto
  ultimately show ?thesis using assms(1) by (auto simp: poisoned_def)
qed

section \<open>Every step of the engine keeps a poisoned position\<close>

lemma f64_div_wf: "f64_wf x \<Longrightarrow> f64_wf y \<Longrightarrow> f64_wf (f64_div x y)"
  by (cases x; cases y) (auto simp: to_f64_wf f64_mag_def f64_round_def [of 0])

lemma f64_neg_wf: "f64_wf (f64_neg x) \<longleftrightarrow> f64_wf x"
  by (cases x) auto

lemma f64_sub_wf: "f64_wf (f64_sub x y)"
  by (simp add: f64_sub_def f64_add_wf)

lemma fill_position_wf:
  assumes "f64_wf (net_qty p) \<and> f64_wf (realised_pnl p) \<and> f64_wf (avg_cost p)" "f64_wf price" "f64_wf qty"
  shows "f64_wf (net_qty (fill_position k side price qty p)) \<and> f64_wf (realised_pnl (fill_position k side price qty p)) \<and>
    f64_wf (avg_cost (fill_position k side price qty p))"
proof -
  have "f64_wf f64_zero" by (simp add: f64_zero_def)
  then show ?thesis
    using assms
    by (cases side) (auto simp: fill_position_def buy_fill_def sell_fill_def Let_def f64_add_wf f64_sub_wf f64_neg_wf
        intro!: f64_div_wf f64_mul_wf)
qed

lemma recordFill_wf: "positions_wf m \<Longrightarrow> f64_wf price \<Longrightarrow> f64_wf qty \<Longrightarrow> positions_wf (recordFill k side price qty m)"
proof -
  assume w: "positions_wf m" "f64_wf price" "f64_wf qty"
  have new: "f64_wf (net_qty new_position) \<and> f64_wf (realised_pnl new_position) \<and> f64_wf (avg_cost new_position)"
    by (simp add: new_position_def f64_zero_def)
  show "positions_wf (recordFill k side price qty m)"
    unfolding recordFill_def using w(1) fill_position_wf [OF _ w(2,3)] new
    by (induction m) (auto simp: positions_wf_def)
qed

text \<open>The table holds well-formed numbers, and the position of \<open>k\<close> is poisoned.\<close>

definition doomed :: "bytes \<Rightarrow> positions \<Rightarrow> bool" where
  "doomed k m \<longleftrightarrow> positions_wf m \<and> (\<exists>p. get_position k m = Some p \<and> poisoned p)"

lemma position_wf: "positions_wf m \<Longrightarrow> get_position k m = Some p \<Longrightarrow> f64_wf (net_qty p) \<and> f64_wf (realised_pnl p) \<and> f64_wf (avg_cost p)"
  unfolding positions_wf_def get_position_def by (auto simp: list_all_iff dest!: map_of_SomeD)

lemma doomed_fill:
  assumes "positions_ok m" "doomed k m" "f64_wf price" "fin_pos qty"
  shows "doomed k (recordFill i side price qty m)"
proof -
  obtain p where p: "get_position k m = Some p" "poisoned p" and w: "positions_wf m" using assms(2) by (auto simp: doomed_def)
  have "poisoned (fill_position k side price qty p)"
    unfolding fill_position_def Let_def
    using poisoned_fill [of "p\<lparr>pos_trader_id := k, total_fills := total_fills p + 1\<rparr>" qty price] p(2) position_wf [OF w p(1)] assms(4)
    by (cases side) (simp_all add: poisoned_def)
  moreover have "positions_wf (recordFill i side price qty m)"
    using recordFill_wf [OF w assms(3)] assms(4) by (metis fin_pos_pos f64_pos_wf)
  ultimately show ?thesis using p(1) recordFill_get [OF assms(1), of k i side price qty] p(2) by (auto simp: doomed_def)
qed

text \<open>The trades of an order have positive prices and finite positive quantities.\<close>

lemma order_trades_pos:
  assumes "book_ok b" "sane_order ord" "(p, q) \<in> set (paid (order_trades ord b))"
  shows "f64_wf p" "fin_pos q"
proof -
  obtain t where t: "t \<in> set (order_trades ord b)" "p = t_price t" "q = t_quantity t" using assms(3) by (auto simp: paid_def)
  then have "\<not> f64_le0 (io_qty ord)" and m: "t \<in> set (fst (fill (nextId b) (io_qty ord) (taken_side (io_side ord) b)))"
    by (auto simp: order_trades_def market_order_taken(3) split: if_splits)
  then have "fin_pos (io_qty ord)" using assms(2) finite_positive by (simp add: sane_order_def)
  from fill_trades [OF this book_ok_taken [OF assms(1)] m]
  show "fin_pos q" "f64_wf p"
    using book_ok_taken [OF assms(1), of "io_side ord"] f64_pos_wf by (auto simp: t list_all_iff level_ok_def)
qed

lemma fills_keep:
  assumes "\<And>m p q. Q m \<Longrightarrow> (p, q) \<in> set ts \<Longrightarrow> Q (recordFill k side p q m)" "Q m"
  shows "Q (foldl (\<lambda>m (p, q). recordFill k side p q m) m ts)"
  using assms by (induction ts arbitrary: m) auto

lemma process_order_tables:
  assumes "sim_ok s" "sane_order ord"
  shows "positions_wf (posTracker s) \<Longrightarrow> positions_wf (posTracker (process_order clock ord s))"
    and "doomed k (posTracker s) \<Longrightarrow> doomed k (posTracker (process_order clock ord s))"
proof -
  note t = order_trades_pos [of "book s" ord]
  have b: "book_ok (book s)" "positions_ok (posTracker s)" using assms(1) by (simp_all add: sim_ok_def)
  show "positions_wf (posTracker (process_order clock ord s))" if "positions_wf (posTracker s)"
    unfolding process_order_fields(2)
    using that by (rule fills_keep [rotated]) (use t [OF b(1) assms(2)] recordFill_wf f64_pos_wf in auto)
  have "positions_ok m \<and> doomed k m" if "m = posTracker (process_order clock ord s)" "doomed k (posTracker s)" for m
    unfolding that(1) process_order_fields(2)
    by (rule fills_keep [where Q = "\<lambda>m. positions_ok m \<and> doomed k m"])
       (use t [OF b(1) assms(2)] recordFill_ok doomed_fill b(2) that(2) in auto)
  then show "doomed k (posTracker (process_order clock ord s))" if "doomed k (posTracker s)" using that by blast
qed

lemma agents_act_tracker: "posTracker (agents_act ds is s) = posTracker s"
  by (induction "is" arbitrary: s) (auto split: prod.splits)

lemma popped_sane: "sane_lines tt ls \<Longrightarrow> proc_ok tt ls e \<Longrightarrow> queue e = ord # q \<Longrightarrow> sane_order ord"
  by (auto simp: proc_ok_def sane_lines_def list_all_iff parsed_append simp flip: append_assoc)
     (metis append_Cons in_set_conv_decomp parsed_append Un_iff set_append)

lemma step_tables:
  assumes "proc_step tt e e'" "sane_lines tt ls" "proc_ok tt ls e"
  shows "positions_wf (posTracker (sim e)) \<Longrightarrow> positions_wf (posTracker (sim e'))"
    and "doomed k (posTracker (sim e)) \<Longrightarrow> doomed k (posTracker (sim e'))"
proof -
  have "(positions_wf (posTracker (sim e)) \<longrightarrow> positions_wf (posTracker (sim e'))) \<and>
      (doomed k (posTracker (sim e)) \<longrightarrow> doomed k (posTracker (sim e')))"
    using assms(1)
  proof (cases rule: proc_step.cases)
    case (order_popped ord q clock)
    then have "queue e = ord # q" by (auto simp: queue_pop_def split: list.splits)
    then have "sane_order ord" by (rule popped_sane [OF assms(2,3)])
    moreover have "sim_ok (sim e)" using assms(3) by (simp add: proc_ok_def)
    ultimately show ?thesis using process_order_tables order_popped(1) by auto
  qed (simp_all add: begin_tick_def agents_act_tracker end_tick_def emitTick_def write_line_def Let_def)
  then show "positions_wf (posTracker (sim e)) \<Longrightarrow> positions_wf (posTracker (sim e'))"
    "doomed k (posTracker (sim e)) \<Longrightarrow> doomed k (posTracker (sim e'))" by simp_all
qed

lemma run_tables:
  assumes "(proc_step tt)\<^sup>*\<^sup>* e e'" "sane_lines tt ls" "proc_ok tt ls e"
  shows "proc_ok tt ls e' \<and> (positions_wf (posTracker (sim e)) \<longrightarrow> positions_wf (posTracker (sim e'))) \<and>
    (doomed k (posTracker (sim e)) \<longrightarrow> doomed k (posTracker (sim e')))"
  using assms(1)
proof (induction rule: rtranclp_induct)
  case (step f g)
  then have "proc_ok tt ls f" by blast
  with step show ?case
    using step_tables(1) [OF step.hyps(2) assms(2)] step_tables(2) [OF step.hyps(2) assms(2), of k] proc_ok_step [OF assms(2) _ step.hyps(2)]
    by blast
qed (simp add: assms(3))

section \<open>Property\<close>

text \<open>Property C28. An infinite position spoils the tick stream for good.  Suppose that in a run of the engine, for orders with finite
  numbers, the position of some trader is poisoned: its realised profit or its net quantity is infinite or a NaN, or its average cost is
  while the position is open.  Then after any further interleaving of the engine's threads the trader still has a
  poisoned position, and every tick that lists positions (every tenth does) prints a line that is no JSON as
  long as no listed trader id was cut at a quote: the store refuses it, and the relay's fan-out gives it to nobody.\<close>

theorem poisoned_position_stays:
  assumes "sane_lines tt ls" "price_ok (startPrice cfg)" "(proc_step tt)\<^sup>*\<^sup>* (proc_start ls (new_simulation jit cfg)) e"
    and "get_position k (posTracker (sim e)) = Some p" "poisoned p" "(proc_step tt)\<^sup>*\<^sup>* e e'"
  shows "(\<exists>p'. get_position k (posTracker (sim e')) = Some p' \<and> poisoned p') \<and>
    (tick_no (sim e') mod 10 = 0 \<and> list_all (\<lambda>p. whole_id (pos_trader_id p)) (snapshot (posTracker (sim e'))) \<longrightarrow>
       json_value (tick_line ts (sim e')) = None \<and>
       StoreTick json_err None (tick_line ts (sim e')) d = (Some (''parse tick: '' @ json_err), False, d) \<and>
       fan_event order (tick_line ts (sim e')) r = Some r)"
proof -
  let ?e0 = "proc_start ls (new_simulation jit cfg)"
  have "proc_ok tt ls ?e0" using engine_process.reachable_good [OF _ rtranclp.rtrancl_refl] assms(1,2) by blast
  moreover have "positions_wf (posTracker (sim ?e0))" by (simp add: proc_start_def new_simulation_def positions_wf_def)
  ultimately have e: "proc_ok tt ls e" "positions_wf (posTracker (sim e))" using run_tables [OF assms(3,1)] by blast+
  then have "doomed k (posTracker (sim e))" using assms(4,5) by (auto simp: doomed_def)
  then have e': "proc_ok tt ls e'" "doomed k (posTracker (sim e'))" using run_tables [OF assms(6,1) e(1)] by blast+
  then obtain p' where p': "get_position k (posTracker (sim e')) = Some p'" "poisoned p'" and w: "positions_wf (posTracker (sim e'))"
    by (auto simp: doomed_def)
  have mem: "p' \<in> set (snapshot (posTracker (sim e')))"
    using p'(1) by (force simp: get_position_def snapshot_def dest: map_of_SomeD)
  have "json_value (tick_line ts (sim e')) = None"
    if "tick_no (sim e') mod 10 = 0" "list_all (\<lambda>p. whole_id (pos_trader_id p)) (snapshot (posTracker (sim e')))"
    using infinite_position_line [OF _ w that mem] poisoned_unprintable [OF p'(2)] position_wf [OF w p'(1)] e'(1) by (simp add: proc_ok_def)
  moreover have "fan_event order l r = Some r" if "json_value l = None" for l
    using that by (simp add: fan_event_def unmarshal_def zero_hdr_def Let_def)
  ultimately show ?thesis using p' by (simp add: StoreTick_def unmarshal_def)
qed

text \<open>Two orders of one sandbox: sell \<open>2\<^sup>1023\<close> at 100, and buy as much at the market.\<close>

definition huge :: float64 where
  "huge = F64 False (2 ^ 1023)"

definition huge_sell :: order_msg where
  "huge_sell = \<lparr>om_Type = ''order'', om_OrderID = ''o1'', om_Side = ''SELL'', om_OrderType = ''LIMIT'', om_Price = dbl 100, om_Qty = huge\<rparr>"

definition huge_buy :: order_msg where
  "huge_buy = \<lparr>om_Type = ''order'', om_OrderID = ''o2'', om_Side = ''BUY'', om_OrderType = ''MARKET'', om_Price = f64_zero, om_Qty = huge\<rparr>"

lemma huge_facts: "fin_pos huge" "f64_normal huge" "f64_mul (dbl 100) huge = F64Inf False"
proof -
  have r: "f64_round (2 ^ 1023) = 2 ^ 1023" using f64_round_dyadic [of 1 1023] by simp
  have m: "f64_mag (2 ^ 1023)" using r by (simp add: f64_mag_def)
  then show "fin_pos huge" by (simp add: huge_def)
  have "(2::rat) powi (- 1022) < 2 powi 1023" by (rule power_int_strict_increasing) simp_all
  then show "f64_normal huge" using m by (simp add: f64_normal_def huge_def)
  have "f64_round (of_int 25 * 2 powi 1025) = of_int 25 * 2 powi 1025" by (rule f64_round_dyadic) simp_all
  then have "f64_round (100 * 2 ^ 1023) = 100 * 2 ^ 1023" by simp
  then show "f64_mul (dbl 100) huge = F64Inf False" by (simp add: dbl_def huge_def to_f64_def)
qed

definition sell_order :: IncomingOrder where
  "sell_order = \<lparr>io_trader_id = ''bot'', io_order_id = ''o1'', io_side = SELL, io_type = LIMIT, io_price = dbl 100, io_qty = huge\<rparr>"

definition buy_order :: IncomingOrder where
  "buy_order = \<lparr>io_trader_id = ''bot'', io_order_id = ''o2'', io_side = BUY, io_type = MARKET, io_price = f64_zero, io_qty = huge\<rparr>"

lemma huge_orders_sent:
  "\<exists>l. marshal_relay_order ''bot'' huge_sell = Some l \<and> parseIncomingOrder tt l = Some sell_order"
  "\<exists>l. marshal_relay_order ''bot'' huge_buy = Some l \<and> parseIncomingOrder tt l = Some buy_order"
proof -
  have c: "order_msg_clean huge_sell" "order_msg_clean huge_buy" "plain_order huge_sell" "plain_order huge_buy"
    using huge_facts(2) dbl_normal [of 100]
    by (simp_all add: order_msg_clean_def huge_sell_def huge_buy_def plain_order_def engine_side_def f64_normal_def zero_finite bare_def html_special_def)
  have "json_escape ''o1'' = ''o1''" "json_escape ''o2'' = ''o2''" by (rule json_escape_bare, simp add: bare_def html_special_def)+
  then have o: "order_for_engine ''bot'' huge_sell = Some sell_order" "order_for_engine ''bot'' huge_buy = Some buy_order"
    by (simp_all add: order_for_engine_def engine_side_def huge_sell_def huge_buy_def sell_order_def buy_order_def)
  have "valid_utf8 ''bot''" by simp
  then show "\<exists>l. marshal_relay_order ''bot'' huge_sell = Some l \<and> parseIncomingOrder tt l = Some sell_order"
    "\<exists>l. marshal_relay_order ''bot'' huge_buy = Some l \<and> parseIncomingOrder tt l = Some buy_order"
    using marshal_relay_reads [OF c(1)] marshal_relay_reads [OF c(2)] relay_order_parsed [OF _ c(1) bot_id c(3)]
      relay_order_parsed [OF _ c(2) bot_id c(4)] o by metis+
qed

lemma huge_position:
  "\<exists>p. recordFill ''bot'' BUY (dbl 100) huge [] = [(''bot'', p)] \<and> pos_trader_id p = ''bot'' \<and> net_qty p = huge \<and> avg_cost p = F64Inf False"
proof -
  have z: "f64_mul f64_zero f64_zero = f64_zero" using f64_mag_to_f64 [of 0 False] by (simp add: f64_zero_def)
  have s: "f64_add f64_zero huge = huge" using huge_facts(1) by (simp add: f64_zero_add)
  have "f64_div (f64_add f64_zero (F64Inf False)) huge = F64Inf False" by (simp add: f64_zero_def huge_def)
  then show ?thesis
    by (simp add: recordFill_def fill_position_def buy_fill_def new_position_def f64_le_def z s huge_facts(3))
qed

text \<open>Both orders arrive before a tick and meet in it.\<close>

lemma huge_fill:
  assumes "book s = \<lparr>bids = [], asks = [], nextId = n\<rparr>"
  shows "posTracker (process_order c2 buy_order (process_order c1 sell_order s)) = recordFill ''bot'' BUY (dbl 100) huge (posTracker s)"
proof -
  have p: "\<not> f64_le0 huge" "\<not> f64_le0 (dbl 100)" using huge_facts(1) by (simp_all add: huge_def dbl_def)
  have sell: "book (process_order c1 sell_order s) = \<lparr>bids = [], asks = [(dbl 100, huge)], nextId = n + 1\<rparr>"
    "posTracker (process_order c1 sell_order s) = posTracker s"
    using p huge_facts(1) by (simp_all add: process_order_fields book_after_def order_trades_def assms sell_order_def addLimitOrder_def f64_zero_add)
  have "paid (order_trades buy_order (book (process_order c1 sell_order s))) = [(dbl 100, huge)]"
    unfolding sell using p fill_exact [OF huge_facts(1)] by (simp add: order_trades_def buy_order_def addMarketOrder_def del: fill.simps)
  then have "posTracker (process_order c2 buy_order (process_order c1 sell_order s)) =
      foldl (\<lambda>m (p, q). recordFill (io_trader_id buy_order) (io_side buy_order) p q m) (posTracker (process_order c1 sell_order s))
        [(dbl 100, huge)]"
    by (subst process_order_fields(2)) simp
  then show ?thesis unfolding sell(2) by (simp add: buy_order_def)
qed

lemma huge_run:
  assumes "parsed tt [l1, l2] = [sell_order, buy_order]"
  shows "\<exists>e. (proc_step tt)\<^sup>*\<^sup>* (proc_start [l1, l2] sample_sim) e \<and> tick_no (sim e) = 0 \<and>
    posTracker (sim e) = recordFill ''bot'' BUY (dbl 100) huge []"
proof -
  let ?e0 = "proc_start [l1, l2] sample_sim"
  obtain e1 where e1: "proc_step tt ?e0 e1" "stdin_lines e1 = [l2]" "queue e1 = parsed tt [l1]" "sim e1 = sample_sim" "\<not> draining e1"
    by (rule that [OF proc_step.read_line [of ?e0 l1 "[l2]"]]) (simp_all add: proc_start_def stdin_loop_parsed del: stdin_loop.simps)
  obtain e2 where e2: "proc_step tt e1 e2" "queue e2 = parsed tt [l1] @ parsed tt [l2]" "sim e2 = sample_sim" "\<not> draining e2"
    by (rule that [OF proc_step.read_line [of e1 l2 "[]"]]) (simp_all add: e1 stdin_loop_parsed del: stdin_loop.simps)
  obtain e3 where e3: "proc_step tt e2 e3" "queue e3 = queue e2" "sim e3 = begin_tick sample_rnd sample_sim" "draining e3"
    by (rule that [OF proc_step.tick_begins [of e2 sample_rnd]]) (simp_all add: e2 sample_rnd_ok)
  obtain e4 where e4: "(proc_step tt)\<^sup>*\<^sup>* e3 e4" "sim e4 = drain_orders (\<lambda>_ _. 7) 0 (queue e3) (sim e3)"
    by (rule that [OF pop_all [OF e3(4)]]) simp
  have "(proc_step tt)\<^sup>*\<^sup>* ?e0 e4"
    by (rule converse_rtranclp_into_rtranclp [OF e1(1) converse_rtranclp_into_rtranclp [OF e2(1) converse_rtranclp_into_rtranclp [OF e3(1) e4(1)]]])
  moreover have q: "queue e3 = [sell_order, buy_order]" using assms parsed_append [of tt "[l1]" "[l2]"] by (simp add: e3(2) e2(2))
  have b: "book (sim e3) = \<lparr>bids = [], asks = [], nextId = 1\<rparr>" "posTracker (sim e3) = []" "tick_no (sim e3) = 0"
    by (simp_all add: e3(3) begin_tick_def sample_rnd_def sample_sim_def new_simulation_def sample_config_def clear_book_def empty_book_def)
  have "sim e4 = process_order (\<lambda>_. 7) buy_order (process_order (\<lambda>_. 7) sell_order (sim e3))"
    by (simp add: e4(2) q drain_orders_def)
  then have "tick_no (sim e4) = 0 \<and> posTracker (sim e4) = recordFill ''bot'' BUY (dbl 100) huge []"
    using huge_fill [OF b(1)] b(2,3) by (simp add: process_order_fields(5))
  ultimately show ?thesis by blast
qed

text \<open>One sandbox can do it with two orders that the server relays unchanged.\<close>

theorem poisoned_position_stays_witness:
  "\<exists>l1 l2 e p. marshal_relay_order ''bot'' huge_sell = Some l1 \<and> marshal_relay_order ''bot'' huge_buy = Some l2 \<and>
     (proc_step (\<lambda>_. False))\<^sup>*\<^sup>* (proc_start [l1, l2] sample_sim) e \<and>
     get_position ''bot'' (posTracker (sim e)) = Some p \<and> net_qty p = huge \<and> avg_cost p = F64Inf False \<and>
     StoreTick [] None (tick_line 8 (sim e)) schema = (Some ''parse tick: '', False, schema)"
proof -
  let ?tt = "\<lambda>_. False"
  obtain l1 l2 where l: "marshal_relay_order ''bot'' huge_sell = Some l1" "parseIncomingOrder ?tt l1 = Some sell_order"
    "marshal_relay_order ''bot'' huge_buy = Some l2" "parseIncomingOrder ?tt l2 = Some buy_order"
    using huge_orders_sent [of ?tt] by blast
  have "l1 \<noteq> []" "l2 \<noteq> []" using l(1,3) by (auto simp: marshal_relay_order_def json_object_def split: option.splits)
  then have ps: "parsed ?tt [l1, l2] = [sell_order, buy_order]" using l(2,4) by (simp add: parsed_def List.map_filter_simps)
  obtain e where e: "(proc_step ?tt)\<^sup>*\<^sup>* (proc_start [l1, l2] sample_sim) e" "tick_no (sim e) = 0"
    "posTracker (sim e) = recordFill ''bot'' BUY (dbl 100) huge []"
    using huge_run [OF ps] by blast
  obtain p where p: "recordFill ''bot'' BUY (dbl 100) huge [] = [(''bot'', p)]" "pos_trader_id p = ''bot''" "net_qty p = huge" "avg_cost p = F64Inf False"
    using huge_position by blast
  have g: "get_position ''bot'' (posTracker (sim e)) = Some p" by (simp add: e(3) p(1) get_position_def)
  have po: "poisoned p" by (simp add: poisoned_def p huge_def)
  have "sane_order sell_order" "sane_order buy_order"
    using huge_facts(1) dbl_mag [of 100] by (simp_all add: sane_order_def sell_order_def buy_order_def fin_pos_def zero_finite dbl_def)
  then have "sane_lines ?tt [l1, l2]" by (simp add: sane_lines_def ps)
  from poisoned_position_stays [OF this sample_sane(3) e(1) [unfolded sample_sim_def] g po rtranclp.rtrancl_refl, of 8 "[]" schema]
  have "StoreTick [] None (tick_line 8 (sim e)) schema = (Some ''parse tick: '', False, schema)"
    using e(2) whole_id_bare [of "''bot''"] by (simp add: e(3) p snapshot_def bare_def html_special_def)
  with l e(1) g p(3,4) show ?thesis by blast
qed

end
