(* ===== verification/Spec2Isabelle.thy ===== *)
theory Spec2Isabelle
  imports Closed_Poison
begin

text \<open>
  \<^bold>\<open>The market simulator.\<close>  The Go program under \<^verbatim>\<open>server/\<close> runs a market engine, the C++ program under \<^verbatim>\<open>src/\<close>, as a
  child process and connects it to browsers, to a tick database and to trading scripts that run in
  Docker sandboxes.  Orders go down to the engine's standard input, one JSON object per line; ticks and fills come up from its
  standard output.  This development models both programs and proves what makes each part correct, what holds of
  the whole server, and what holds of an order or a tick on its way through both.

  \<^bold>\<open>Parts and their theories.\<close>
  \<^item> \<open>Runner\<close> (\<^verbatim>\<open>engine/runner.go\<close>): record \<open>runner\<close> is \<^verbatim>\<open>Runner\<close>; \<open>run\<close>, \<open>Start\<close>, \<open>SetArgs\<close>, \<open>Restart\<close>,
    \<open>SendOrder\<close> and \<open>extractType\<close> are its functions; \<open>runner_step\<close> interleaves the restart loop with its callers.
  \<^item> \<open>Hub\<close> (\<^verbatim>\<open>ws/hub.go\<close>): record \<open>hub\<close> with clients as pointers into a heap; the three cases of the loop of
    \<^verbatim>\<open>Run\<close>, \<open>Broadcast\<close>, the pumps, the decoding and validation of browser orders; \<open>hub_step\<close> interleaves
    them for any number of clients.
  \<^item> \<open>Relay\<close> (\<^verbatim>\<open>sandbox/relay.go\<close>): record \<open>relay\<close>, the fan-out \<open>fan_event\<close>, the sections of \<open>HandleSandbox\<close>, the
    rate limiter, the translation of a script's order; \<open>relay_step\<close> interleaves all sessions.
  \<^item> \<open>Sandbox\<close> and \<open>Sandbox_Concurrency\<close> (\<^verbatim>\<open>sandbox/manager.go\<close>, \<^verbatim>\<open>types.go\<close>): record \<open>manager\<close>, \<open>Spawn\<close>, \<open>Kill\<close>, \<open>KillAll\<close>,
    \<open>monitor\<close>, logs, run one at a time; and the same sections interleaved by \<open>mgr_step\<close>.
  \<^item> \<open>Store\<close> (\<^verbatim>\<open>db/store.go\<close>): the SQL table as a list of rows; \<open>NewStore\<close>, \<open>StoreTick\<close>, \<open>trimOldTicks\<close>, \<open>History\<close>;
    \<open>store_step\<close> lets the trimming goroutines run late, often or not at all.
  \<^item> \<open>Handlers\<close> (\<^verbatim>\<open>api/handlers.go\<close>): the history, configuration and trader endpoints with all their status codes and bodies.
  \<^item> \<open>Server\<close> (\<^verbatim>\<open>main.go\<close>): \<open>boot\<close>, the forwarding goroutine \<open>fan_main\<close>, \<open>route\<close> and \<open>dispatch\<close>, \<open>shutdown\<close>, and
    \<open>server_step\<close>, the interleaving of the goroutines of all components around one shared runner.
  \<^item> \<open>End_To_End\<close>: the invariant \<open>server_ok\<close> of the whole server.
  \<^item> \<open>Protocol\<close> and \<open>Engine_Protocol\<close> (\<^verbatim>\<open>src/Protocol.h\<close>, \<^verbatim>\<open>src/OrderQueue.h\<close>): the search for members in an order line, \<open>stod\<close>,
    \<open>parseIncomingOrder\<close> and the loop of the input thread.
  \<^item> \<open>Engine_Book\<close> (\<^verbatim>\<open>src/OrderBook.cpp\<close>): record \<open>OrderBook\<close>, a ladder of price levels per side; limit, market and cancel
    orders.
  \<^item> \<open>Engine_Positions\<close> (\<^verbatim>\<open>src/PositionTracker.cpp\<close>) and \<open>Engine_Price\<close> (\<^verbatim>\<open>src/PriceEngine.cpp\<close>): positions with their
    average cost and realised profit, and the random walk of the price.
  \<^item> \<open>Engine_Text\<close>: the numbers and JSON lines the engine prints.
  \<^item> \<open>Engine_Sim\<close> (\<^verbatim>\<open>src/Simulation.cpp\<close>, \<^verbatim>\<open>src/agents\<close>, \<^verbatim>\<open>src/main.cpp\<close>): makers, takers and whales, \<open>process_order\<close>, \<open>runTick\<close>, and
    \<open>proc_step\<close>, which interleaves the input thread with the simulation.
  \<^item> \<open>Engine_Resting\<close>: the lines, the book and the positions that one order leaves, and what a limit order can and cannot
    change in the answers of its tick.
  \<^item> \<open>Closed_Loop\<close>, \<open>Closed_Ticks\<close>, \<open>Closed_Poison\<close>: the engine's command line, and server and engine joined.  A
    configuration and an order are followed down to the engine, a tick up to the store; and positions that overflowed.
  \<^item> Below them, the language and library: \<open>Prelude\<close> (Go maps as association lists, the locale of systems with an
    invariant), \<open>GoChan\<close> (buffered channels), \<open>GoText\<close> (bytes, line scanning, integers as text),
    \<open>Float64\<close> (binary64 values, their shortest decimal text and its reading), \<open>Float_Arith\<close> (binary64 arithmetic with
    its rounding), \<open>Json\<close> (\<^verbatim>\<open>encoding/json\<close>).

  \<^bold>\<open>How state and effects are represented.\<close>  Structs are records, Go maps association lists without repeated keys, byte
  slices lists of characters.  Operations take and return the state; \<open>None\<close> or a constructor of a result type is
  a run-time panic, and errors are values.  What the operating system, Docker, SQLite or the clock
  answer is an argument, errors that the code ignores included.  The critical sections of the Go code are separate definitions; the
  sequential operations compose them in the order of the code, and the step relations
  interleave the same definitions, so both are about the same code.  The iteration order over a map
  is an argument too.  Numbers of the engine are binary64 values, and every operation on them rounds; \<open>uint64_t\<close>
  counters are 64-bit words; a \<^verbatim>\<open>std::map\<close> is a list sorted by its comparator; the random draws are arguments.

  \<^bold>\<open>Interfaces.\<close>  \<open>guarded_system\<close> (a step relation with an invariant) is interpreted for the runner, the hub,
  the relay, the manager (twice), the store, the configuration endpoint, the whole server and the engine process; \<open>outbox\<close>
  (a bounded mailbox that drops the new message when full) for Go channels; \<open>codec\<close> for JSON strings; \<open>history_service\<close> (a log
  of which only the newest entries can be asked for) for the store; \<open>component_of\<close> for the five components
  inside the server, which carries the components' invariants over to it; \<open>price_order\<close> (a comparator of a sorted ladder) for
  asks and bids.

  \<^bold>\<open>What is shown.\<close>  Of the whole server, in every interleaving: each line on the engine's input is a validated browser order or an order
  of a started sandbox under its own id (\<open>orders_have_a_source\<close>); browsers are sent only lines the engine printed,
  in order (\<open>browsers_see_engine_lines\<close>); the history holds only ticks the engine printed, in order, after those of earlier
  runs (\<open>history_shows_engine_ticks\<close>); the engine runs only with a known configuration.  Of the manager: the cap of
  five sandboxes, the effect of every operation on every branch, confinement of script paths.  Of the runner: events are
  an ordered subsequence of the printed lines, the input of the child is exactly the accepted orders, the loop returns exactly when cancelled.
  Of the hub: no client misses a broadcast silently, the loop never panics, the iteration order does not
  matter, and a reader's panic stays with its connection.  Of the relay: no sandbox sees another's trades; the engine's input
  gets exactly the orders that the rate limiter passes, under the sandbox's own id, and the limiter passes at least an order that
  fewer than ten preceded within a second and at most nineteen in a second.  Of the store: it refines a log that never forgets.  Of the
  endpoints: replies as a function of the state, round trips, and which component a request may touch.
  Of the engine: a market order takes the best levels first and, on quantities of one grid, neither creates nor loses any
  (\<open>market_order_best_first\<close>, \<open>market_order_exact\<close>); the net position is exact and the profit identity holds
  (\<open>position_net_exact\<close>, \<open>position_pnl_identity\<close>); the price stays within computed bounds; every order
  has one of the outcomes of its kind; a tick handles exactly the orders queued before it; in every interleaving of the
  two threads orders are handled once and in the order they were read (\<open>engine_interleavings\<close>).  Of both programs: of an order
  with no quote or other escaped character in its id and with normal numbers, the engine reads exactly what the script wrote
  (\<open>order_round_trip\<close>); it runs with the configured agents (\<open>config_reaches_engine\<close>); and a tick whose numbers are finite
  and whose listed ids have no cut escape reaches the history as valid JSON (\<open>tick_reaches_store\<close>).
  Several theorems are about behaviour the code does not intend: a race of \<^verbatim>\<open>Kill\<close> with \<^verbatim>\<open>Spawn\<close>, leaked
  containers, a reader that panics on a ping after its eviction, the consequences of an overlong line, lost arguments, a stale first
  tick, disagreeing configurations, cut order ids, unchecked flags and a spawn during shutdown; in the engine, limit orders that are
  accepted silently and forgotten within their tick, a tick interval that is ignored, and huge orders after which a position is
  infinite for ever and the ticks that list it are no JSON (\<open>poisoned_position_stays\<close>).

  \<^bold>\<open>Bounds.\<close>  Channel capacities are those of the code (500 events, 256 messages, 64 per sandbox), a printed line must be shorter than one
  MiB, and the history is exact up to ten thousand ticks.  The JSON reader and writer are total functions, by
  recursion on the length of the rest of the text; nothing depends on fuel.  \<open>fan_loop\<close> and \<open>Start\<close> take one list element per turn and
  the theorems say how many turns suffice.  Integers of the configuration are 64-bit (\<open>atoi\<close> refuses others); counters of the server are natural numbers.
  Exactness of engine quantities is stated for multiples of a power of two below \<open>2\<^sup>53\<close> of its units; the price bound for
  runs in which it stays below \<open>2\<^sup>1022\<close>; \<open>tick_reaches_store\<close> for
  ticks whose numbers are finite, the price, best prices and spread zero or between \<open>2 powi (- 1000)\<close> and \<open>2 ^ 1022\<close>.  Printed numbers have six
  significant digits, and the theorems say how far they are from the exact ones.

  \<^bold>\<open>Not modelled.\<close>  Of the server: gorilla/websocket framing, the Docker client and the demultiplexing of its
  streams, SQLite itself, the HTTP server, its redirects of unclean paths and the static file server
  (libraries); the log output, including that of the engine's standard error; parsing of the command line;
  the wait of a session for its writer goroutine; the closing of the database.  Of the engine: the random number generators and
  the clock (their results are arguments), the sleep between ticks and the signal handler, \<open>printBook\<close>, the ids and the
  capital of the agents (never read), the sign of a printed NaN.  Double arithmetic is IEEE binary64
  without contraction of a product and a sum into one rounding.  Between the two programs the pipes deliver bytes in order; the
  server theorems above take the printed bytes as arbitrary, so they hold of any engine.  The front end (static
  JavaScript), the sandbox image and the build files are outside.
\<close>

section \<open>What the engine reads of a sandbox's order\<close>

text \<open>Property C14. What the engine makes of a session's orders: the engine does not parse JSON but
  searches each line for quoted keys, and still no script can make it see another trader.  For a
  sandbox with a valid id, whatever bytes the script prints, each line the session appends to the engine's input
  belongs to one order of the script, and the engine's search for the trader finds the sandbox's own
  id; the order id and the side it finds are those of the order, up to their first quote.\<close>

theorem engine_reads_own_trader:
  assumes "relay_lines k p ls (rl_init, r) = Some (rl', r')" "stdinPipe (rl_runner r) = Some q" "traderIDRegex k"
    and "\<forall>(now, w, raw) \<in> set ls. w = WriteOk"
  shows "\<exists>sent ts. stdinPipe (rl_runner r') = Some (q @ unlines ts) \<and>
    subseq sent (map (\<lambda>(now, w, raw). (now, raw)) ls) \<and>
    list_all2 (\<lambda>(now, raw) t. newline \<notin> set t \<and> extractString t ''trader_id'' = k \<and>
      extractString t ''order_id'' = takeWhile (\<lambda>c. c \<noteq> dquote) (json_escape (om_OrderID (order_of raw))) \<and>
      extractString t ''side'' = takeWhile (\<lambda>c. c \<noteq> dquote) (json_escape (om_Side (order_of raw)))) sent ts"
proof -
  have k: "list_all bare k" using assms(3) by (rule trader_id_bare)
  obtain ts where ts: "stdinPipe (rl_runner r') = Some (q @ unlines ts)"
    "list_all2 (\<lambda>(now, raw) t. marshal_relay_order k (order_of raw) = Some t \<and> order_line k (order_of raw) t) (passed rl_init ls) ts"
    using relay_lines_passed [OF assms(1,2) bare_utf8 [OF k] assms(4)] by blast
  have "list_all2 (\<lambda>(now, raw) t. newline \<notin> set t \<and> extractString t ''trader_id'' = k \<and>
      extractString t ''order_id'' = takeWhile (\<lambda>c. c \<noteq> dquote) (json_escape (om_OrderID (order_of raw))) \<and>
      extractString t ''side'' = takeWhile (\<lambda>c. c \<noteq> dquote) (json_escape (om_Side (order_of raw)))) (passed rl_init ls) ts"
    using ts(2)
    by (rule list.rel_mono_strong)
      (auto dest!: passed_are_orders is_order_clean simp: relay_order_strings takeWhile_bare [OF k] order_line_def)
  then show ?thesis using ts(1) passed_subseq by blast
qed

text \<open>A script that tries to smuggle a second trader id into its order id.\<close>

definition smuggled :: bytes where
  "smuggled = [CHR ''x'', dquote, CHR '','', dquote] @ ''trader_id'' @ [dquote, CHR '':'', dquote] @ ''victim''"

definition smuggle_line :: bytes where
  "smuggle_line = json_object [(''type'', json_string ''order''), (''order_id'', json_string smuggled),
     (''side'', json_string ''BUY''), (''price'', ''2''), (''qty'', ''2'')]"

definition smuggled_order :: "bytes \<Rightarrow> order_msg" where
  "smuggled_order oid = \<lparr>om_Type = ''order'', om_OrderID = oid, om_Side = ''BUY'', om_OrderType = [],
     om_Price = F64 False 2, om_Qty = F64 False 2\<rparr>"

lemma smuggle_line_decoded: "unmarshal order_fields smuggle_line zero_order = (False, smuggled_order smuggled)"
proof -
  let ?ms = "[(''type'', json_string ''order'', JStr ''order''), (''order_id'', json_string smuggled, JStr smuggled),
     (''side'', json_string ''BUY'', JStr ''BUY''), (''price'', ''2'', JNum ''2''), (''qty'', ''2'', JNum ''2'')]"
  have "valid_utf8 smuggled" by (simp add: smuggled_def)
  then have "list_all member_ok ?ms"
    using encodes_string encodes_digits by (simp add: member_ok_def plain_key_def)
  from unmarshal_object [OF _ this, of order_fields zero_order] show ?thesis
    by (simp add: smuggle_line_def order_fields_def find_field_def str_field_def float_field_def upper_def
        parse_float_2 zero_order_def smuggled_order_def)
qed

theorem engine_reads_own_trader_witness:
  "\<exists>rl' r' t. relay_lines ''bot'' 1 [(7, WriteOk, smuggle_line)] (rl_init, demo_relay) = Some (rl', r') \<and>
     stdinPipe (rl_runner r') = Some (t @ [newline]) \<and> extractString t ''trader_id'' = ''bot'' \<and>
     extractString t ''order_id'' = [CHR ''x'', backslash]"
proof -
  let ?ls = "[(7, WriteOk, smuggle_line)]"
  have ok: "is_order smuggle_line" by (simp add: is_order_def smuggle_line_decoded smuggled_order_def)
  obtain t where m: "marshal_relay_order ''bot'' (order_of smuggle_line) = Some t"
    by (rule marshal_relay_reads [OF is_order_clean [OF ok], of "''bot''"]) simp_all
  have lim: "rate_limit 7 rl_init = (True, \<lparr>rlCount = 1, rlWindow = Some (7 + second)\<rparr>)"
    by (rule rate_limit_new_window) (simp add: rl_init_def after_time_def)
  have pipe: "stdinPipe (rl_runner demo_relay) = Some []" by (simp add: demo_relay_def hs_attach_def NewRelay_def)
  let ?r = "demo_relay\<lparr>rl_runner := (rl_runner demo_relay)\<lparr>stdinPipe := Some (t @ [newline])\<rparr>\<rparr>"
  have run: "relay_lines ''bot'' 1 ?ls (rl_init, demo_relay) = Some (\<lparr>rlCount = 1, rlWindow = Some (7 + second)\<rparr>, ?r)"
    using m pipe by (simp add: relay_line_def smuggle_line_decoded smuggled_order_def order_of_def lim SendOrder_def)
  have id: "traderIDRegex ''bot''" by (simp add: traderIDRegex_def id_char_def)
  have esc: "takeWhile (\<lambda>c. c \<noteq> dquote) (json_escape smuggled) = [CHR ''x'', backslash]"
    by (simp add: smuggled_def json_escape.simps(2) escape_ascii_def html_special_def)
  obtain sent ts where f: "t @ [newline] = unlines ts" "subseq sent [(7 :: int, smuggle_line)]"
    "list_all2 (\<lambda>(now, raw) t. newline \<notin> set t \<and> extractString t ''trader_id'' = ''bot'' \<and>
      extractString t ''order_id'' = takeWhile (\<lambda>c. c \<noteq> dquote) (json_escape (om_OrderID (order_of raw))) \<and>
      extractString t ''side'' = takeWhile (\<lambda>c. c \<noteq> dquote) (json_escape (om_Side (order_of raw)))) sent ts"
    using engine_reads_own_trader [OF run pipe id] by auto
  from f(2) have "sent = [] \<or> sent = [(7, smuggle_line)]" by (cases sent) (auto split: if_splits)
  with f(1,3) have "extractString t ''trader_id'' = ''bot'' \<and>
      extractString t ''order_id'' = takeWhile (\<lambda>c. c \<noteq> dquote) (json_escape (om_OrderID (order_of smuggle_line)))"
    by (auto simp: list_all2_Cons1 unlines_def)
  then have "extractString t ''trader_id'' = ''bot''" "extractString t ''order_id'' = [CHR ''x'', backslash]"
    by (simp_all add: order_of_def smuggle_line_decoded smuggled_order_def esc)
  moreover have "stdinPipe (rl_runner ?r) = Some (t @ [newline])" by simp
  ultimately show ?thesis using run by blast
qed

text \<open>The engine's search is not faithful to quoted order ids: two orders of one sandbox whose
  ids differ after a quote arrive at the engine under the same id, which ends in the backslash of the
  escape, so the fills of both carry an id that neither script order had.\<close>

theorem quoted_order_id_cut:
  "\<exists>t u. marshal_relay_order ''bot'' (smuggled_order [CHR ''a'', dquote, CHR ''b'']) = Some t \<and>
     marshal_relay_order ''bot'' (smuggled_order [CHR ''a'', dquote, CHR ''c'']) = Some u \<and>
     extractString t ''order_id'' = [CHR ''a'', backslash] \<and> extractString u ''order_id'' = [CHR ''a'', backslash]"
proof -
  have one: "\<exists>t. marshal_relay_order ''bot'' (smuggled_order [CHR ''a'', dquote, c]) = Some t \<and>
      extractString t ''order_id'' = [CHR ''a'', backslash]" if c: "bare c" for c
  proof -
    have "order_msg_clean (smuggled_order [CHR ''a'', dquote, c])"
      using c parse_float_finite [OF parse_float_2] by (auto simp: order_msg_clean_def smuggled_order_def bare_def)
    moreover obtain t where "marshal_relay_order ''bot'' (smuggled_order [CHR ''a'', dquote, c]) = Some t"
      using marshal_relay_reads [OF calculation, of "''bot''"] by auto
    moreover have "takeWhile (\<lambda>c. c \<noteq> dquote) (json_escape [CHR ''a'', dquote, c]) = [CHR ''a'', backslash]"
      by (simp add: json_escape.simps(2) escape_ascii_def html_special_def)
    ultimately show ?thesis using relay_order_strings(1) by (auto simp: smuggled_order_def)
  qed
  show ?thesis using one [of "CHR ''b''"] one [of "CHR ''c''"] by (auto simp: bare_def html_special_def)
qed

section \<open>The whole server\<close>

text \<open>Property C8. What browsers see is what the engine printed: after any start of the server and any
  interleaving of all its goroutines, the messages given to a browser are, apart from the replies to its
  pings, a subsequence in order of the lines the engine printed; nothing is invented, repeated
  or reordered on the way through the runner, the forwarding goroutine and the hub.\<close>

theorem browsers_see_engine_lines:
  assumes "boot quote env f = Inr s0" "table_ok (db (srv_store s0))" "server_step\<^sup>*\<^sup>* s0 s"
    and "map_of (heap (srv_hub s)) c = Some cl"
  shows "\<exists>seen k. taken cl @ ch_buf (send cl) \<in> shuffles seen (replicate k pong) \<and> subseq seen (scanned (eng s))"
proof -
  note ok = boot_ok [OF assms(1-3)]
  have "client_ok (history (srv_hub s)) (c \<in> set (clients (srv_hub s))) cl"
    using ok assms(4) hub_ok_client by (auto simp: server_ok_def)
  then obtain k where k: "taken cl @ ch_buf (send cl) \<in> shuffles (got cl) (replicate k pong)"
    "prefix (got cl) (drop (joined cl) (history (srv_hub s)))"
    by (auto simp: client_ok_def)
  have "subseq (got cl) (history (srv_hub s))"
    using k(2) by (meson prefix_imp_subseq suffix_drop suffix_imp_subseq subseq_order.trans)
  also have "subseq (history (srv_hub s)) (map Raw (consumed (eng s)))"
    using ok by (auto simp: server_ok_def hub_flow_def intro: subseq_drop_last)
  also have "subseq (map Raw (consumed (eng s))) (scanned (eng s))"
    by (rule consumed_printed [of 500]) (use ok in \<open>simp add: server_ok_def\<close>)
  finally show ?thesis using k(1) by blast
qed

theorem browsers_see_engine_lines_witness:
  "\<exists>seen k. server_step\<^sup>*\<^sup>* demo_boot demo_served \<and> taken demo_client @ ch_buf (send demo_client) = [demo_tick] \<and>
     [demo_tick] \<in> shuffles seen (replicate k pong) \<and> subseq seen [demo_tick]"
  using browsers_see_engine_lines [OF demo_booted demo_serves, of 1 demo_client] demo_serves
  by (simp add: demo_served_def demo_forwarded_def demo_running_def) (simp add: demo_client_def)

text \<open>Property C9. What the history shows is what the engine printed: after any start on a well-formed table and
  any interleaving of all goroutines, the ticks recorded since the start are a subsequence in
  order of the tick lines the engine printed, and a query of at most ten thousand answers with exactly the newest
  ticks of the earlier table followed by those.\<close>

theorem history_shows_engine_ticks:
  assumes "boot quote env f = Inr s0" "table_ok (db (srv_store s0))" "server_step\<^sup>*\<^sup>* s0 s" "0 \<le> n" "n \<le> 10000"
  shows "\<exists>(log :: tick_record list) ls. map row_raw log = map row_raw (rows (db (srv_store s0))) @ ls \<and>
    subseq ls (filter (\<lambda>x. extractType x = ''tick'') (scanned (eng s))) \<and>
    History no_errors n (db (srv_store s)) =
      (map row_raw (sort_key (\<lambda>r. (row_ts r, row_id r)) (drop (length log - nat n) log)), None)"
proof -
  note ok = boot_ok [OF assms(1-3)]
  obtain ls where ls: "map row_raw (tick_log (srv_store s)) = map row_raw (rows (db (srv_store s0))) @ ls"
    "subseq (ls @ unstored s) (map Raw (filter (\<lambda>ev. EvType ev = ''tick'') (consumed (eng s))))"
    using ok by (auto simp: server_ok_def store_flow_def)
  note subseq_drop_last [OF ls(2)]
  also have "subseq (map Raw (filter (\<lambda>ev. EvType ev = ''tick'') (consumed (eng s))))
      (filter (\<lambda>x. extractType x = ''tick'') (scanned (eng s)))"
    by (rule consumed_ticks_printed [of 500]) (use ok in \<open>simp add: server_ok_def\<close>)
  finally have "subseq ls (filter (\<lambda>x. extractType x = ''tick'') (scanned (eng s)))" .
  moreover have "History no_errors n (db (srv_store s)) =
      (oldest_first (drop (length (tick_log (srv_store s)) - nat n) (tick_log (srv_store s))), None)"
    using history_newest [of "srv_store s" n] ok assms(4,5) by (simp add: History_no_errors server_ok_def)
  ultimately show ?thesis using ls(1) unfolding oldest_first_def by blast
qed

theorem history_shows_engine_ticks_witness:
  "\<exists>log :: tick_record list. map row_raw log = [demo_tick] \<and>
     History no_errors 200 (db (srv_store demo_served)) =
       (map row_raw (sort_key (\<lambda>r. (row_ts r, row_id r)) log), None)"
proof -
  obtain log :: "tick_record list" and ls where l: "map row_raw log = map row_raw (rows (db (srv_store demo_boot))) @ ls"
    "subseq ls (filter (\<lambda>x. extractType x = ''tick'') (scanned (eng demo_served)))"
    "History no_errors 200 (db (srv_store demo_served)) =
       (map row_raw (sort_key (\<lambda>r. (row_ts r, row_id r)) (drop (length log - nat 200) log)), None)"
    using history_shows_engine_ticks [OF demo_booted demo_serves, of 200] by auto
  have "fst (History no_errors 200 (db (srv_store demo_served))) = [demo_tick]"
    by (simp add: History_no_errors history_query_def newest_def sql_limit_def demo_served_def demo_forwarded_def
        demo_store_def insert_tick_def schema_def)
  with l(3) have len: "length log - 200 = 0 \<and> length log = 1" by (auto dest!: arg_cong [of _ _ length])
  have "length ls = 1" using arg_cong [OF l(1), of length] len by (simp add: demo_boot_def store_init_def schema_def)
  moreover have "subseq ls [demo_tick]"
    using l(2) demo_tick_type by (simp add: demo_served_def demo_forwarded_def demo_running_def mk_event_def)
  ultimately have "ls = [demo_tick]" by (cases ls) (auto split: if_splits)
  then show ?thesis using l(1,3) len by (intro exI [of _ log]) (simp add: demo_boot_def store_init_def schema_def)
qed

text \<open>Property C1. Every order the engine accepts has a known source: in every interleaving of all
  goroutines, each line on the input of the running engine is either the order of a browser message that decoded and
  passed the validation, or the order of a sandbox that the manager started under a valid id, and then the engine
  reads that sandbox's id as the trader.  No order contains a line break, so as long as no write failed, the engine's
  input splits at line breaks into exactly those orders.\<close>

theorem orders_have_a_source:
  assumes "boot quote env f = Inr s0" "table_ok (db (srv_store s0))" "server_step\<^sup>*\<^sup>* s0 s"
  shows "list_all (\<lambda>ord. newline \<notin> set ord \<and>
      ((\<exists>raw. inbound_order raw = Some ord) \<or>
       (\<exists>k raw. GoHandleSandbox k \<in> set (started (mg (srv_mgr s))) \<and> traderIDRegex k \<and> is_order raw \<and>
          marshal_relay_order k (order_of raw) = Some ord \<and> extractString ord ''trader_id'' = k)))
      (accepted (eng s)) \<and>
    (\<forall>p. stdinPipe (rn (eng s)) = Some p \<and> \<not> write_failed (eng s) \<longrightarrow> split_on newline p = accepted (eng s) @ [[]])"
proof -
  have ok: "orders_ok s" "ids_ok (srv_mgr s)" "engine_ok 500 (eng s)" using boot_ok [OF assms] by (simp_all add: server_ok_def)
  have src: "newline \<notin> set ord \<and> ((\<exists>raw. inbound_order raw = Some ord) \<or>
       (\<exists>k raw. GoHandleSandbox k \<in> set (started (mg (srv_mgr s))) \<and> traderIDRegex k \<and> is_order raw \<and>
          marshal_relay_order k (order_of raw) = Some ord \<and> extractString ord ''trader_id'' = k))"
    if acc: "ord \<in> set (accepted (eng s))" for ord
  proof -
    consider "from_browser ord" | k where "GoHandleSandbox k \<in> set (started (mg (srv_mgr s)))" "from_sandbox k ord"
      using acc ok(1) by (auto simp: orders_ok_def)
    then show ?thesis
    proof cases
      case 1
      then show ?thesis using from_browser_line by (auto simp: from_browser_def)
    next
      case 2
      then have "traderIDRegex k" using ok(2) by (auto simp: ids_ok_def)
      with 2 show ?thesis using from_sandbox_line by (auto simp: from_sandbox_def)
    qed
  qed
  moreover have "split_on newline p = accepted (eng s) @ [[]]"
    if "stdinPipe (rn (eng s)) = Some p" "\<not> write_failed (eng s)" for p
    using that ok(3) src by (auto simp: engine_ok_def split_on_unlines)
  ultimately show ?thesis by (auto simp: list_all_iff)
qed

theorem orders_have_a_source_witness:
  "\<exists>s ord p. server_step\<^sup>*\<^sup>* demo_boot s \<and> inbound_order demo_order = Some ord \<and> accepted (eng s) = [ord] \<and>
     newline \<notin> set ord \<and> stdinPipe (rn (eng s)) = Some p \<and> split_on newline p = [ord, []]"
proof -
  have "order_clean (to_engineOrder demo_inbound)" by (rule to_engineOrder_clean [OF inbound_clean [OF demo_order_decoded]])
  then obtain ord where "marshal_engineOrder (to_engineOrder demo_inbound) = Some ord" using marshal_engineOrder_reads by metis
  then have ord: "inbound_order demo_order = Some ord"
    by (simp add: inbound_order_def demo_order_decoded) (simp add: demo_inbound_def validateOrder_def)
  let ?r = "demo_child (ord @ [newline]) []"
  have "SendOrder WriteOk ord (rn (eng demo_served)) = (None, ?r)"
    by (simp add: demo_served_def demo_forwarded_def demo_running_def demo_child_def SendOrder_def)
  then obtain s where step: "server_step demo_served s" "eng s = order_sent ord None ?r (eng demo_served)"
    using server_step.hub_order [of demo_served 1 demo_client demo_order ord WriteOk None ?r] ord
    by (auto simp: demo_served_def demo_client_def)
  have run: "server_step\<^sup>*\<^sup>* demo_boot s" using demo_serves step(1) by (rule rtranclp.rtrancl_into_rtrancl)
  have e: "accepted (eng s) = [ord]" "stdinPipe (rn (eng s)) = Some (ord @ [newline])" "\<not> write_failed (eng s)"
    by (simp_all add: step(2) order_sent_def demo_served_def demo_forwarded_def demo_running_def demo_child_def)
  show ?thesis
    using orders_have_a_source [OF demo_booted run] e run ord by auto
qed

text \<open>Property C20. The engine is only ever started from the configured binary, with the configuration of the command line
  or with one that passed the checks of the configuration endpoint, whatever requests race with each other
  and with restarts; and what a GET of the configuration reports is always one of these.\<close>

theorem engine_runs_known_config:
  assumes "boot quote env f = Inr s0" "table_ok (db (srv_store s0))" "server_step\<^sup>*\<^sup>* s0 s"
  shows "(\<forall>c. cmd (rn (eng s)) = Some c \<longrightarrow> cmd_path c = enginePath f \<and>
      (\<exists>cfg. cmd_args c = config_args cfg \<and> (cfg = initialCfg f \<or> validate cfg = []))) \<and>
    (srv_current s = initialCfg f \<or> validate (srv_current s) = [])"
proof -
  have "config_flow f s" using boot_ok [OF assms] by (simp add: server_ok_def)
  then show ?thesis by (auto simp: config_flow_def engine_args_def args_known_def config_known_def)
qed

theorem engine_runs_known_config_witness:
  "\<exists>c. cmd (rn (eng demo_served)) = Some c \<and> cmd_path c = ''../build/quantsim'' \<and> validate (srv_current demo_served) = []"
  using engine_runs_known_config [OF demo_booted demo_serves]
  by (auto simp: demo_served_def demo_forwarded_def demo_running_def demo_child_def demo_boot_def
      default_flags_def initialCfg_def validate_def)

end
